(* ===== verification/Prelude.thy ===== *)
theory Prelude
  imports Main "HOL-Library.Multiset" "HOL-Library.Word"
begin

text \<open>
  What the components share: the model of \<open>Status\<close> and \<open>Result<T>\<close>, the parts of the C++
  standard library that several components call (\<open>std::sort\<close>, \<open>std::stable_sort\<close>,
  \<open>std::priority_queue\<close>), the laws of a three-way comparison as a locale, and generic lemmas on
  lists. Every collection of simp rules the component theories use is declared here.
\<close>

named_theorems result_simps \<open>rewriting of the error monad\<close>
named_theorems cmp_simps \<open>rewriting of three-way comparisons\<close>

section \<open>Status and Result\<close>

text \<open>
  \<open>paimon::Status\<close> with a code and a message; \<open>Result<T>\<close> is a status or a value. The macros
  \<open>PAIMON_RETURN_NOT_OK\<close> and \<open>PAIMON_ASSIGN_OR_RAISE\<close> are \<open>rbind\<close>.
\<close>

datatype status_error =
    Invalid string
  | NotImplemented string
  | NotExist string
  | Cancelled string

type_synonym 'a result = "status_error + 'a"

fun rbind :: "'a result \<Rightarrow> ('a \<Rightarrow> 'b result) \<Rightarrow> 'b result" where
  "rbind (Inl e) f = Inl e"
| "rbind (Inr x) f = f x"

fun rfold :: "('s \<Rightarrow> 'a \<Rightarrow> 's result) \<Rightarrow> 's \<Rightarrow> 'a list \<Rightarrow> 's result" where
  "rfold f s [] = Inr s"
| "rfold f s (x # xs) = rbind (f s x) (\<lambda>s'. rfold f s' xs)"

fun rmap :: "('a \<Rightarrow> 'b result) \<Rightarrow> 'a list \<Rightarrow> 'b list result" where
  "rmap f [] = Inr []"
| "rmap f (x # xs) = rbind (f x) (\<lambda>y. rbind (rmap f xs) (\<lambda>ys. Inr (y # ys)))"

definition is_ok :: "'a result \<Rightarrow> bool" where
  "is_ok r \<longleftrightarrow> (\<exists>x. r = Inr x)"

lemma is_ok_simps [simp]: "is_ok (Inr x)" "\<not> is_ok (Inl e)"
  by (simp_all add: is_ok_def)

lemma rbind_cong [fundef_cong]:
  "m = m' \<Longrightarrow> (\<And>x. m' = Inr x \<Longrightarrow> f x = g x) \<Longrightarrow> rbind m f = rbind m' g"
  by (cases m') auto

lemma rbind_eq_Inr [result_simps]: "rbind m f = Inr y \<longleftrightarrow> (\<exists>x. m = Inr x \<and> f x = Inr y)"
  by (cases m) auto

lemma rbind_eq_Inl [result_simps]:
  "rbind m f = Inl e \<longleftrightarrow> m = Inl e \<or> (\<exists>x. m = Inr x \<and> f x = Inl e)"
  by (cases m) auto

lemma rbind_assoc: "rbind (rbind m f) g = rbind m (\<lambda>x. rbind (f x) g)"
  by (cases m) auto

lemma rbind_Inr_right [simp]: "rbind m Inr = m"
  by (cases m) auto

lemma rfold_append: "rfold f s (xs @ ys) = rbind (rfold f s xs) (\<lambda>s'. rfold f s' ys)"
  by (induction xs arbitrary: s) (auto simp: rbind_assoc)

text \<open>A state invariant of the step of a fallible loop is one of the whole loop.\<close>

lemma rfold_invariant:
  assumes "rfold f s xs = Inr s'" and "P s"
    and "\<And>s x s'. x \<in> set xs \<Longrightarrow> P s \<Longrightarrow> f s x = Inr s' \<Longrightarrow> P s'"
  shows "P s'"
  using assms
proof (induction xs arbitrary: s)
  case Nil
  then show ?case by simp
next
  case (Cons x xs)
  then obtain s1 where s1: "f s x = Inr s1" and rest: "rfold f s1 xs = Inr s'"
    by (auto simp: result_simps)
  have "P s1" using Cons.prems(2,3) s1 by auto
  then show ?case
    by (rule Cons.IH [OF rest]) (use Cons.prems(3) in auto)
qed

section \<open>Sorting and priority queues of the standard library\<close>

text \<open>
  \<open>std::stable_sort\<close> with a comparator \<open>lt\<close>: the elements in non-decreasing order, equivalent
  elements in their original order. \<open>std::sort\<close> leaves the order of equivalent elements open; the
  model takes the stable one.
\<close>

fun stable_insert :: "('a \<Rightarrow> 'a \<Rightarrow> bool) \<Rightarrow> 'a \<Rightarrow> 'a list \<Rightarrow> 'a list" where
  "stable_insert lt x [] = [x]"
| "stable_insert lt x (y # ys) = (if lt y x then y # stable_insert lt x ys else x # y # ys)"

fun stable_sort :: "('a \<Rightarrow> 'a \<Rightarrow> bool) \<Rightarrow> 'a list \<Rightarrow> 'a list" where
  "stable_sort lt [] = []"
| "stable_sort lt (x # xs) = stable_insert lt x (stable_sort lt xs)"

lemma mset_stable_insert [simp]: "mset (stable_insert lt x xs) = add_mset x (mset xs)"
  by (induction xs) auto

lemma mset_stable_sort [simp]: "mset (stable_sort lt xs) = mset xs"
  by (induction xs) auto

lemma set_stable_insert [simp]: "set (stable_insert lt x xs) = insert x (set xs)"
  by (induction xs) auto

lemma set_stable_sort [simp]: "set (stable_sort lt xs) = set xs"
  by (induction xs) auto

lemma length_stable_sort [simp]: "length (stable_sort lt xs) = length xs"
  by (metis mset_stable_sort size_mset)

lemma distinct_stable_sort [simp]: "distinct (stable_sort lt xs) = distinct xs"
  by (metis mset_stable_sort mset_eq_imp_distinct_iff)

text \<open>\<open>std::priority_queue\<close> with comparator \<open>below\<close>: the top is an element below no other.\<close>

fun pq_best :: "('a \<Rightarrow> 'a \<Rightarrow> bool) \<Rightarrow> 'a \<Rightarrow> 'a list \<Rightarrow> 'a" where
  "pq_best below b [] = b"
| "pq_best below b (y # ys) = pq_best below (if below b y then y else b) ys"

definition pq_pop :: "('a \<Rightarrow> 'a \<Rightarrow> bool) \<Rightarrow> 'a list \<Rightarrow> ('a \<times> 'a list) option" where
  "pq_pop below q = (case q of [] \<Rightarrow> None
     | x # xs \<Rightarrow> let t = pq_best below x xs in Some (t, remove1 t q))"

lemma pq_best_in: "pq_best below b xs \<in> insert b (set xs)"
proof (induction xs arbitrary: b)
  case (Cons y ys)
  show ?case using Cons [of y] Cons [of b] by auto
qed simp

lemma pq_pop_mset: "pq_pop below q = Some (t, r) \<Longrightarrow> mset q = add_mset t (mset r)"
  using pq_best_in [of below "hd q" "tl q"] by (cases q) (auto simp: pq_pop_def Let_def)

lemma pq_pop_length [simp]: "pq_pop below q = Some (t, r) \<Longrightarrow> length q = Suc (length r)"
  by (metis pq_pop_mset size_add_mset size_mset)

lemma pq_pop_None [simp]: "pq_pop below q = None \<longleftrightarrow> q = []"
  by (auto simp: pq_pop_def Let_def split: list.splits)

lemma pq_pop_Nil [simp]: "pq_pop below [] = None"
  by simp

lemma pq_pop_set: "pq_pop below q = Some (t, r) \<Longrightarrow> set q = insert t (set r)"
  by (metis pq_pop_mset set_mset_add_mset_insert set_mset_mset)

text \<open>The strict weak orders that the standard asks of a comparator.\<close>

locale strict_weak =
  fixes lt :: "'a \<Rightarrow> 'a \<Rightarrow> bool"
  assumes lt_asym: "lt a b \<Longrightarrow> \<not> lt b a"
    and not_lt_trans: "\<not> lt b a \<Longrightarrow> \<not> lt c b \<Longrightarrow> \<not> lt c a"
begin

lemma lt_irrefl [simp]: "\<not> lt a a"
  using lt_asym [of a a] by blast

lemma lt_trans: "lt a b \<Longrightarrow> lt b c \<Longrightarrow> lt a c"
  using lt_asym [of a b] not_lt_trans [of b a c] not_lt_trans [of a c b] lt_asym [of b c] by blast

lemma sorted_stable_insert:
  "sorted_wrt (\<lambda>a b. \<not> lt b a) xs \<Longrightarrow> sorted_wrt (\<lambda>a b. \<not> lt b a) (stable_insert lt x xs)"
proof (induction xs)
  case (Cons y ys)
  then show ?case using lt_asym [of y x] not_lt_trans [of y x] by auto
qed simp

lemma sorted_stable_sort: "sorted_wrt (\<lambda>a b. \<not> lt b a) (stable_sort lt xs)"
  by (induction xs) (auto intro: sorted_stable_insert)

lemma pq_best_max: "\<not> lt (pq_best lt b xs) b \<and> (\<forall>y \<in> set xs. \<not> lt (pq_best lt b xs) y)"
proof (induction xs arbitrary: b)
  case Nil
  then show ?case by simp
next
  case (Cons y ys)
  show ?case
  proof (cases "lt b y")
    case True
    then show ?thesis
      using Cons [of y] lt_asym [OF True] not_lt_trans [of y b "pq_best lt y ys"] by auto
  next
    case False
    then show ?thesis
      using Cons [of b] not_lt_trans [of b y "pq_best lt b ys"] by auto
  qed
qed

lemma pq_pop_max: "pq_pop lt q = Some (t, r) \<Longrightarrow> x \<in> set q \<Longrightarrow> \<not> lt t x"
  using pq_best_max [of "hd q" "tl q"] by (cases q) (auto simp: pq_pop_def Let_def)

end

section \<open>Three-way comparisons\<close>

text \<open>
  The contract every user of a \<open>FieldsComparator\<close> relies on: \<open>CompareTo\<close> is a total preorder in
  the form of a three-way comparison.
\<close>

locale comparison =
  fixes cmp :: "'k \<Rightarrow> 'k \<Rightarrow> int"
  assumes cmp_refl [simp]: "cmp x x = 0"
    and cmp_flip: "cmp x y < 0 \<longleftrightarrow> cmp y x > 0"
    and cmp_trans: "cmp x y \<le> 0 \<Longrightarrow> cmp y z \<le> 0 \<Longrightarrow> cmp x z \<le> 0"
begin

lemma cmp_flip_le: "cmp x y \<le> 0 \<longleftrightarrow> cmp y x \<ge> 0"
  using cmp_flip [of y x] by linarith

lemma cmp_eq_sym: "cmp x y = 0 \<longleftrightarrow> cmp y x = 0"
  using cmp_flip [of x y] cmp_flip [of y x] by linarith

lemma cmp_trans_less:
  assumes "cmp x y < 0" and "cmp y z \<le> 0"
  shows "cmp x z < 0"
proof (rule ccontr)
  assume "\<not> ?thesis"
  then have "cmp z x \<le> 0" using cmp_flip_le by simp
  then have "cmp y x \<le> 0" using assms(2) cmp_trans by blast
  then show False using assms(1) cmp_flip by fastforce
qed

lemma cmp_le_trans_less:
  assumes "cmp x y \<le> 0" and "cmp y z < 0"
  shows "cmp x z < 0"
proof (rule ccontr)
  assume "\<not> ?thesis"
  then have "cmp z x \<le> 0" using cmp_flip_le by simp
  then have "cmp z y \<le> 0" using assms(1) cmp_trans by blast
  then show False using assms(2) cmp_flip by fastforce
qed

lemma cmp_eq_trans:
  assumes "cmp x y = 0" and "cmp y z = 0"
  shows "cmp x z = 0"
proof (rule order_antisym)
  show "cmp x z \<le> 0" using cmp_trans [of x y z] assms by simp
  show "0 \<le> cmp x z" 
    using cmp_trans [of z y x] assms cmp_eq_sym [of x y] cmp_eq_sym [of y z] cmp_flip_le [of z x]
    by simp
qed

lemma cmp_eq_left: "cmp x y = 0 \<Longrightarrow> (cmp x z < 0 \<longleftrightarrow> cmp y z < 0)"
  using cmp_le_trans_less [of x y z] cmp_le_trans_less [of y x z] cmp_eq_sym [of x y] by auto

lemma cmp_lexicographic:
  assumes "comparison cmp2"
  shows "comparison (\<lambda>x y. if cmp x y = 0 then cmp2 x y else cmp x y)"
proof -
  have l2: "cmp2 x x = 0" "cmp2 x y < 0 \<longleftrightarrow> cmp2 y x > 0"
    "cmp2 x y \<le> 0 \<Longrightarrow> cmp2 y z \<le> 0 \<Longrightarrow> cmp2 x z \<le> 0" for x y z
    using assms unfolding comparison_def by blast+
  show ?thesis
  proof (standard, goal_cases)
    case (1 x)
    show ?case by (simp add: l2)
  next
    case (2 x y)
    show ?case using l2(2) [of x y] cmp_flip [of x y] cmp_flip [of y x] by auto
  next
    case (3 x y z)
    show ?case
    proof (cases "cmp x y = 0 \<and> cmp y z = 0")
      case True
      then show ?thesis using 3 l2(3) [of x y z] cmp_eq_trans [of x y z] by simp
    next
      case False
      then have "cmp x z < 0"
        using 3 cmp_trans_less [of x y z] cmp_le_trans_less [of x y z]
        by (auto split: if_splits)
      then show ?thesis by simp
    qed
  qed
qed

lemma cmp_on: "comparison (\<lambda>x y. cmp (f x) (f y))"
  by standard (simp, rule cmp_flip, erule (1) cmp_trans)

lemma cmp_swapped: "comparison (\<lambda>x y. cmp y x)"
  by standard (simp, rule cmp_flip, erule (1) cmp_trans [rotated])

lemma cmp_negated: "comparison (\<lambda>x y. - cmp x y)"
proof
  show "- cmp x z \<le> 0" if "- cmp x y \<le> 0" "- cmp y z \<le> 0" for x y z
    using that cmp_trans [of z y x] cmp_flip_le [of y x] cmp_flip_le [of z y] cmp_flip_le [of z x]
    by simp
qed (use cmp_flip in auto)

lemma strict_weak_less: "strict_weak (\<lambda>x y. cmp x y < 0)"
proof
  fix a b c
  show "cmp a b < 0 \<Longrightarrow> \<not> cmp b a < 0" using cmp_flip [of a b] by simp
  show "\<not> cmp b a < 0 \<Longrightarrow> \<not> cmp c b < 0 \<Longrightarrow> \<not> cmp c a < 0"
    using cmp_trans [of a b c] cmp_flip_le by simp
qed

lemma strict_weak_greater: "strict_weak (\<lambda>x y. cmp x y > 0)"
proof
  fix a b c
  show "0 < cmp a b \<Longrightarrow> \<not> 0 < cmp b a" using cmp_flip [of b a] by simp
  show "\<not> 0 < cmp b a \<Longrightarrow> \<not> 0 < cmp c b \<Longrightarrow> \<not> 0 < cmp c a"
    using cmp_trans [of c b a] by simp
qed

end

text \<open>The comparison every linear order gives, in the shape the code writes it.\<close>

definition cmp_of :: "'a::linorder \<Rightarrow> 'a \<Rightarrow> int" where
  "cmp_of l r = (if l = r then 0 else if l < r then -1 else 1)"

interpretation linear: comparison cmp_of
  by standard (auto simp: cmp_of_def split: if_splits)

lemma cmp_of_eq_0 [cmp_simps]: "cmp_of x y = 0 \<longleftrightarrow> x = y"
  by (simp add: cmp_of_def)

lemma cmp_of_less [cmp_simps]: "cmp_of x y < 0 \<longleftrightarrow> x < y"
  by (auto simp: cmp_of_def)

lemma cmp_of_greater [cmp_simps]: "cmp_of x y > 0 \<longleftrightarrow> y < x"
  by (auto simp: cmp_of_def)

lemma comparison_const: "comparison (\<lambda>x y. 0)"
  by standard auto

section \<open>Signed 64-bit integers\<close>

text \<open>
  \<open>int64_t\<close> values are \<open>int\<close>s between the two limits. Where the code adds or subtracts and the sum may leave
  the interval, the model applies \<open>wrap64\<close>, the two's complement result; the C++ standard leaves the overflow
  undefined, so the theorems assume values for which \<open>wrap64\<close> is the identity.
\<close>

definition INT64_MIN :: int where
  "INT64_MIN = - (2 ^ 63)"

definition INT64_MAX :: int where
  "INT64_MAX = 2 ^ 63 - 1"

definition wrap64 :: "int \<Rightarrow> int" where
  "wrap64 x = (x + 2 ^ 63) mod 2 ^ 64 - 2 ^ 63"

lemma wrap64_id: "INT64_MIN \<le> x \<Longrightarrow> x \<le> INT64_MAX \<Longrightarrow> wrap64 x = x"
  by (simp add: wrap64_def INT64_MIN_def INT64_MAX_def)

lemma wrap64_bounds: "INT64_MIN \<le> wrap64 x" "wrap64 x \<le> INT64_MAX"
  using pos_mod_bound [of "2 ^ 64" "x + 2 ^ 63"] by (simp_all add: wrap64_def INT64_MIN_def INT64_MAX_def)

lemma wrap64_sint: "wrap64 x = sint (word_of_int x :: 64 word)"
  by (simp add: wrap64_def sint_sbintrunc' signed_take_bit_eq_take_bit_shift take_bit_eq_mod)

section \<open>Lists\<close>

lemma sorted_wrt_nth_mono:
  "sorted_wrt P xs \<Longrightarrow> i < j \<Longrightarrow> j < length xs \<Longrightarrow> P (xs ! i) (xs ! j)"
  by (simp add: sorted_wrt_nth_less)

text \<open>A list whose neighbours are related by a transitive relation is sorted by it.\<close>

lemma sorted_wrt_adjacent:
  assumes "transp P" and "\<And>i. Suc i < length xs \<Longrightarrow> P (xs ! i) (xs ! Suc i)"
  shows "sorted_wrt P xs"
  using assms(2)
proof (induction xs)
  case Nil
  then show ?case by simp
next
  case (Cons x xs)
  have s: "sorted_wrt P xs" using Cons.prems by (intro Cons.IH) fastforce
  show ?case
  proof (cases xs)
    case Nil
    then show ?thesis by simp
  next
    case (Cons y ys)
    have xy: "P x y" using Cons.prems [of 0] Cons by simp
    moreover have "\<forall>z \<in> set ys. P y z" using s Cons by simp
    ultimately have "\<forall>z \<in> set xs. P x z" using Cons assms(1) by (auto dest: transpD)
    then show ?thesis using s by simp
  qed
qed

lemma sorted_wrt_last: "sorted_wrt P xs \<Longrightarrow> x \<in> set xs \<Longrightarrow> x = last xs \<or> P x (last xs)"
  by (cases xs rule: rev_cases) (auto simp: sorted_wrt_append)

end
