(* ===== verification/Decimal.thy ===== *)
theory Decimal
  imports Prelude "HOL-Library.Signed_Division"
begin

unbundle bit_operations_syntax

text \<open>
  \<open>paimon::Decimal\<close> (\<^verbatim>\<open>common/data/decimal.cpp\<close>): a 128-bit unscaled value with a precision and a
  scale, and its comparison across scales. The unscaled value is an \<open>int\<close> in the range of \<open>int128_t\<close>.
  The lemmas show that \<open>CompareTo\<close> is the comparison of the rational values.
\<close>

section \<open>Comparison\<close>

record decimal =
  precision :: int
  scale :: int
  dvalue :: int

definition INT128_MAXIMUM_VALUE :: int where
  "INT128_MAXIMUM_VALUE = 2 ^ 127 - 1"

definition INT128_MINIMUM_VALUE :: int where
  "INT128_MINIMUM_VALUE = - (2 ^ 127)"

definition in_int128 :: "int \<Rightarrow> bool" where
  "in_int128 v \<longleftrightarrow> INT128_MINIMUM_VALUE \<le> v \<and> v \<le> INT128_MAXIMUM_VALUE"

definition MAX_COMPACT_PRECISION :: int where
  "MAX_COMPACT_PRECISION = 18"

definition POWERS_OF_TEN :: "int \<Rightarrow> int" where
  "POWERS_OF_TEN k = 10 ^ nat k"

text \<open>The loop divides by powers of ten that fit an \<open>int64_t\<close>, at most eighteen digits a step.\<close>

function DownScaleInt128 :: "int \<Rightarrow> int \<Rightarrow> int" where
  "DownScaleInt128 v s =
     (if s > 0 then
        let step = min \<bar>s\<bar> MAX_COMPACT_PRECISION
        in DownScaleInt128 (v sdiv POWERS_OF_TEN step) (s - step)
      else v)"
  by pat_completeness auto
termination
  by (relation "measure (\<lambda>(v, s). nat s)") (auto simp: MAX_COMPACT_PRECISION_def)

function ScaleInt128 :: "int \<Rightarrow> int \<Rightarrow> int \<times> bool" where
  "ScaleInt128 v s =
     (if s > 0 then
        let step = min s MAX_COMPACT_PRECISION in
        if v > 0 \<and> INT128_MAXIMUM_VALUE sdiv POWERS_OF_TEN step < v then (INT128_MAXIMUM_VALUE, True)
        else if v < 0 \<and> INT128_MINIMUM_VALUE sdiv POWERS_OF_TEN step > v then (INT128_MINIMUM_VALUE, True)
        else ScaleInt128 (v * POWERS_OF_TEN step) (s - step)
      else (v, False))"
  by pat_completeness auto
termination
  by (relation "measure (\<lambda>(v, s). nat s)") (auto simp: MAX_COMPACT_PRECISION_def)

declare DownScaleInt128.simps [simp del] ScaleInt128.simps [simp del]

text \<open>The comparison of the fractional parts, once the integral parts are equal.\<close>

definition compare_fractions :: "bool \<Rightarrow> int \<Rightarrow> int \<Rightarrow> int \<Rightarrow> int \<Rightarrow> int" where
  "compare_fractions positive l_value r_value l_scale r_scale =
     (let diff = l_scale - r_scale in
      if diff > 0 then
        let (r_value', overflow) = ScaleInt128 r_value diff in
        if overflow then (if positive then -1 else 1)
        else if l_value < r_value' then -1 else if l_value > r_value' then 1 else 0
      else
        let (l_value', overflow) = ScaleInt128 l_value (- diff) in
        if overflow then (if positive then 1 else -1)
        else if l_value' < r_value then -1 else if l_value' > r_value then 1 else 0)"

definition CompareTo :: "decimal \<Rightarrow> decimal \<Rightarrow> int" where
  "CompareTo l r =
     (let l_positive = dvalue l \<ge> 0; r_positive = dvalue r \<ge> 0 in
      if l_positive \<and> \<not> r_positive then 1
      else if \<not> l_positive \<and> r_positive then -1
      else
        let l_integral = DownScaleInt128 (dvalue l) (scale l);
            r_integral = DownScaleInt128 (dvalue r) (scale r) in
        if l_integral < r_integral then -1
        else if l_integral > r_integral then 1
        else compare_fractions (dvalue l \<ge> 0)
          (dvalue l - fst (ScaleInt128 l_integral (scale l)))
          (dvalue r - fst (ScaleInt128 r_integral (scale r))) (scale l) (scale r))"

text \<open>Truncating division by a positive number, and the power of ten a step multiplies by.\<close>

lemma sdiv_pos: "0 < b \<Longrightarrow> a sdiv b = sgn a * (\<bar>a\<bar> div b)" for a b :: int
  by (simp add: signed_divide_int_def)

lemma sdiv_nonneg: "0 < b \<Longrightarrow> 0 \<le> a \<Longrightarrow> a sdiv b = a div b" for a b :: int
  by (cases "a = 0") (auto simp: sdiv_pos)

lemma sdiv_nonpos: "0 < b \<Longrightarrow> a \<le> 0 \<Longrightarrow> a sdiv b = - ((- a) div b)" for a b :: int
  by (cases "a = 0") (auto simp: sdiv_pos)

lemma sdiv_sdiv: "0 < b \<Longrightarrow> 0 < c \<Longrightarrow> a sdiv b sdiv c = a sdiv (b * c)" for a b c :: int
  by (cases "a \<ge> 0")
    (auto simp: sdiv_nonneg sdiv_nonpos pos_imp_zdiv_nonneg_iff zdiv_zmult2_eq)

lemma POWERS_OF_TEN_pos [simp]: "0 < POWERS_OF_TEN k"
  by (simp add: POWERS_OF_TEN_def)

lemma POWERS_OF_TEN_not_neg [simp]: "\<not> POWERS_OF_TEN k < 0"
  by (simp add: POWERS_OF_TEN_def)

lemma POWERS_OF_TEN_nonneg [simp]: "0 \<le> POWERS_OF_TEN k"
  by (simp add: POWERS_OF_TEN_def)

lemma POWERS_OF_TEN_split:
  "0 \<le> k \<Longrightarrow> k \<le> s \<Longrightarrow> POWERS_OF_TEN k * POWERS_OF_TEN (s - k) = POWERS_OF_TEN s"
  by (simp add: POWERS_OF_TEN_def nat_diff_distrib flip: power_add)

lemma POWERS_OF_TEN_0 [simp]: "s \<le> 0 \<Longrightarrow> POWERS_OF_TEN s = 1"
  by (simp add: POWERS_OF_TEN_def)

lemma DownScaleInt128_eq: "DownScaleInt128 v s = v sdiv POWERS_OF_TEN s"
proof (induction v s rule: DownScaleInt128.induct)
  case (1 v s)
  show ?case
  proof (cases "s > 0")
    case True
    let ?k = "min \<bar>s\<bar> MAX_COMPACT_PRECISION"
    have "DownScaleInt128 v s = v sdiv POWERS_OF_TEN ?k sdiv POWERS_OF_TEN (s - ?k)"
      using 1 True by (simp add: DownScaleInt128.simps [of v s] Let_def)
    also have "\<dots> = v sdiv POWERS_OF_TEN s"
      using True by (subst sdiv_sdiv) (auto simp: POWERS_OF_TEN_split MAX_COMPACT_PRECISION_def)
    finally show ?thesis .
  next
    case False
    then show ?thesis by (simp add: DownScaleInt128.simps [of v s] signed_divide_int_def sgn_mult_abs)
  qed
qed

lemma int_div_less_iff:
  fixes m n q :: int
  assumes "0 < q"
  shows "m div q < n \<longleftrightarrow> m < n * q"
proof -
  have "(m + (- n) * q) div q = - n + m div q" using assms by (intro div_mult_self1) simp
  then show ?thesis using pos_imp_zdiv_neg_iff [OF assms, of "m + (- n) * q"] by simp
qed

lemma scale_up_bound:
  assumes "0 < p"
  shows "0 < v \<Longrightarrow> INT128_MAXIMUM_VALUE sdiv p < v \<longleftrightarrow> INT128_MAXIMUM_VALUE < v * p"
    and "v < 0 \<Longrightarrow> v < INT128_MINIMUM_VALUE sdiv p \<longleftrightarrow> v * p < INT128_MINIMUM_VALUE"
proof -
  show "INT128_MAXIMUM_VALUE sdiv p < v \<longleftrightarrow> INT128_MAXIMUM_VALUE < v * p"
    using assms by (simp add: sdiv_nonneg INT128_MAXIMUM_VALUE_def int_div_less_iff)
  have "INT128_MINIMUM_VALUE sdiv p = - (2 ^ 127 div p)"
    using assms by (simp add: sdiv_nonpos [of p INT128_MINIMUM_VALUE] INT128_MINIMUM_VALUE_def sdiv_nonneg)
  moreover have "2 ^ 127 div p < - v \<longleftrightarrow> 2 ^ 127 < - v * p"
    using assms by (rule int_div_less_iff)
  ultimately show "v < INT128_MINIMUM_VALUE sdiv p \<longleftrightarrow> v * p < INT128_MINIMUM_VALUE"
    by (auto simp: INT128_MINIMUM_VALUE_def)
qed

text \<open>
  \<open>ScaleInt128\<close> multiplies exactly, or reports an overflow and the exact product does not fit.
\<close>

lemma ScaleInt128_spec:
  "(ScaleInt128 v s = (v * POWERS_OF_TEN s, False)) \<or>
   (0 < v \<and> INT128_MAXIMUM_VALUE < v * POWERS_OF_TEN s \<and> snd (ScaleInt128 v s)) \<or>
   (v < 0 \<and> v * POWERS_OF_TEN s < INT128_MINIMUM_VALUE \<and> snd (ScaleInt128 v s))"
proof (induction v s rule: ScaleInt128.induct)
  case (1 v s)
  show ?case
  proof (cases "s > 0")
    case True
    define k where "k = min s MAX_COMPACT_PRECISION"
    have k: "0 < k" "k \<le> s" using True by (auto simp: k_def MAX_COMPACT_PRECISION_def)
    have split: "v * POWERS_OF_TEN s = v * POWERS_OF_TEN k * POWERS_OF_TEN (s - k)"
      using k POWERS_OF_TEN_split [of k s] by (simp add: mult.assoc)
    have ge1: "1 \<le> POWERS_OF_TEN (s - k)" using POWERS_OF_TEN_pos [of "s - k"] by linarith
    consider (big) "0 < v" "INT128_MAXIMUM_VALUE < v * POWERS_OF_TEN k"
      | (small) "v < 0" "v * POWERS_OF_TEN k < INT128_MINIMUM_VALUE"
      | (fits) "\<not> (v > 0 \<and> INT128_MAXIMUM_VALUE sdiv POWERS_OF_TEN k < v)"
          "\<not> (v < 0 \<and> INT128_MINIMUM_VALUE sdiv POWERS_OF_TEN k > v)"
      using scale_up_bound [of "POWERS_OF_TEN k" v] by auto
    then show ?thesis
    proof cases
      case big
      then have "snd (ScaleInt128 v s)"
        using True scale_up_bound(1) [of "POWERS_OF_TEN k" v]
        by (simp add: ScaleInt128.simps [of v s] Let_def flip: k_def)
      moreover have "INT128_MAXIMUM_VALUE < v * POWERS_OF_TEN s"
        using big(2) by (rule order_less_le_trans) (use big(1) ge1 in \<open>simp add: split\<close>)
      ultimately show ?thesis using big(1) by blast
    next
      case small
      then have "snd (ScaleInt128 v s)"
        using True scale_up_bound(2) [of "POWERS_OF_TEN k" v]
        by (simp add: ScaleInt128.simps [of v s] Let_def flip: k_def)
      moreover have "v * POWERS_OF_TEN s < INT128_MINIMUM_VALUE"
        using _ small(2) by (rule order_le_less_trans)
          (use small(1) ge1 in \<open>simp add: split\<close>)
      ultimately show ?thesis using small(1) by blast
    next
      case fits
      then have "ScaleInt128 v s = ScaleInt128 (v * POWERS_OF_TEN k) (s - k)"
        using True by (auto simp: ScaleInt128.simps [of v s] Let_def simp flip: k_def)
      moreover have "(0 < v * POWERS_OF_TEN k) = (0 < v)" "(v * POWERS_OF_TEN k < 0) = (v < 0)"
        by (auto simp: zero_less_mult_iff mult_less_0_iff)
      ultimately show ?thesis
        using "1.IH" [OF True k_def] fits split by auto
    qed
  next
    case False
    then show ?thesis by (simp add: ScaleInt128.simps [of v s])
  qed
qed

lemma ScaleInt128_fits: "in_int128 (v * POWERS_OF_TEN s) \<Longrightarrow> ScaleInt128 v s = (v * POWERS_OF_TEN s, False)"
  using ScaleInt128_spec [of v s] by (auto simp: in_int128_def)


text \<open>
  The comparison of two non-negative values \<open>a / 10 ^ s\<close> and \<open>b / 10 ^ t\<close> written \<open>a / A\<close> and
  \<open>b / B\<close>: the integral parts decide, then the cross-multiplied fractional parts.
\<close>

lemma integral_parts_decide:
  fixes a b A B :: int
  assumes "0 < A" "0 < B" "0 \<le> a" "a div A < b div B"
  shows "a * B < b * A"
proof -
  have "a < (a div A + 1) * A" using int_div_less_iff [of A a "a div A + 1"] assms by simp
  also have "\<dots> \<le> b div B * A" using assms by (intro mult_right_mono) auto
  finally have "a * B < b div B * A * B" using assms by simp
  also have "\<dots> = b div B * B * A" by simp
  also have "\<dots> \<le> b * A"
    using assms by (intro mult_right_mono) (auto simp flip: minus_mod_eq_div_mult)
  finally show ?thesis .
qed

lemma fractional_parts_decide:
  fixes a b A B :: int
  assumes "a div A = b div B"
  shows "a * B - b * A = a mod A * B - b mod B * A"
proof -
  define q x y where "q = a div A" and "x = a mod A" and "y = b mod B"
  have "a = q * A + x" "b = q * B + y" by (simp_all add: q_def x_def y_def assms [symmetric])
    (simp only: assms div_mult_mod_eq)
  then have "a * B - b * A = x * B - y * A" by (simp add: algebra_simps)
  then show ?thesis by (simp add: x_def y_def)
qed

lemma compare_fractions_exact:
  assumes sign: "if p then 0 \<le> x \<and> 0 \<le> y else x \<le> 0 \<and> y \<le> 0"
    and range: "in_int128 x" "in_int128 y" and scales: "0 \<le> s" "0 \<le> t"
  shows "compare_fractions p x y s t = sgn (x * POWERS_OF_TEN t - y * POWERS_OF_TEN s)"
proof (cases "s - t > 0")
  case True
  define D where "D = POWERS_OF_TEN (s - t)"
  have "POWERS_OF_TEN s = POWERS_OF_TEN t * D"
    using POWERS_OF_TEN_split [of t s] True scales by (simp add: D_def)
  then have "x * POWERS_OF_TEN t - y * POWERS_OF_TEN s = POWERS_OF_TEN t * (x - y * D)"
    by (simp add: algebra_simps)
  then have sgn: "sgn (x * POWERS_OF_TEN t - y * POWERS_OF_TEN s) = sgn (x - y * D)"
    by (simp add: sgn_mult)
  from ScaleInt128_spec [of y "s - t"]
  consider (exact) "ScaleInt128 y (s - t) = (y * D, False)"
    | (high) "0 < y" "x < y * D" "snd (ScaleInt128 y (s - t))"
    | (low) "y < 0" "y * D < x" "snd (ScaleInt128 y (s - t))"
    using range(1) by (fastforce simp: in_int128_def D_def)
  then show ?thesis
    unfolding sgn using True sign by cases
      (auto simp: compare_fractions_def Let_def case_prod_beta split: if_splits)
next
  case False
  define D where "D = POWERS_OF_TEN (- (s - t))"
  have "POWERS_OF_TEN t = POWERS_OF_TEN s * D"
    using POWERS_OF_TEN_split [of s t] False scales by (simp add: D_def)
  then have "x * POWERS_OF_TEN t - y * POWERS_OF_TEN s = POWERS_OF_TEN s * (x * D - y)"
    by (simp add: algebra_simps)
  then have sgn: "sgn (x * POWERS_OF_TEN t - y * POWERS_OF_TEN s) = sgn (x * D - y)"
    by (simp add: sgn_mult)
  from ScaleInt128_spec [of x "- (s - t)"]
  consider (exact) "ScaleInt128 x (- (s - t)) = (x * D, False)"
    | (high) "0 < x" "y < x * D" "snd (ScaleInt128 x (- (s - t)))"
    | (low) "x < 0" "x * D < y" "snd (ScaleInt128 x (- (s - t)))"
    using range(2) by (fastforce simp: in_int128_def D_def)
  then show ?thesis
    unfolding sgn using False sign by cases
      (auto simp: compare_fractions_def Let_def case_prod_beta split: if_splits)
qed

lemma in_int128_between: "0 \<le> x \<Longrightarrow> x \<le> y \<Longrightarrow> in_int128 y \<Longrightarrow> in_int128 x"
  "x \<le> 0 \<Longrightarrow> y \<le> x \<Longrightarrow> in_int128 y \<Longrightarrow> in_int128 x"
  by (auto simp: in_int128_def INT128_MINIMUM_VALUE_def INT128_MAXIMUM_VALUE_def)

lemma in_int128_mod:
  "0 \<le> v \<Longrightarrow> in_int128 v \<Longrightarrow> in_int128 (v mod POWERS_OF_TEN s)"
  "v < 0 \<Longrightarrow> in_int128 v \<Longrightarrow> in_int128 (- (- v mod POWERS_OF_TEN s))"
  using zmod_le_nonneg_dividend [of v "POWERS_OF_TEN s"]
    zmod_le_nonneg_dividend [of "- v" "POWERS_OF_TEN s"]
  by (auto intro: in_int128_between(1) [of "v mod POWERS_OF_TEN s" v]
      in_int128_between(2) [of "- (- v mod POWERS_OF_TEN s)" v])

text \<open>What is left of a value once its integral part is scaled back and subtracted.\<close>

lemma fractional_part:
  assumes "in_int128 v"
  shows "v - fst (ScaleInt128 (v sdiv POWERS_OF_TEN s) s)
      = (if v \<ge> 0 then v mod POWERS_OF_TEN s else - ((- v) mod POWERS_OF_TEN s))"
proof -
  have "in_int128 (v sdiv POWERS_OF_TEN s * POWERS_OF_TEN s)"
  proof (cases "v \<ge> 0")
    case True
    then show ?thesis
      by (intro in_int128_between(1) [OF _ _ assms])
        (auto simp: sdiv_nonneg zmod_le_nonneg_dividend simp flip: minus_mod_eq_div_mult)
  next
    case False
    then show ?thesis
      by (intro in_int128_between(2) [OF _ _ assms])
        (use False zmod_le_nonneg_dividend [of "- v" "POWERS_OF_TEN s"] in
          \<open>auto simp: sdiv_nonpos simp flip: minus_mod_eq_div_mult\<close>)
  qed
  then show ?thesis
    by (auto simp: ScaleInt128_fits sdiv_nonneg sdiv_nonpos simp flip: minus_mod_eq_div_mult)
qed

definition scaled_less :: "decimal \<Rightarrow> decimal \<Rightarrow> int" where
  \<comment> \<open>the sign of the difference of the rational values, over a common denominator\<close>
  "scaled_less l r = sgn (dvalue l * 10 ^ nat (scale r) - dvalue r * 10 ^ nat (scale l))"


lemma scaled_less_powers:
  "scaled_less l r = sgn (dvalue l * POWERS_OF_TEN (scale r) - dvalue r * POWERS_OF_TEN (scale l))"
  by (simp add: scaled_less_def POWERS_OF_TEN_def)

lemma CompareTo_nonneg:
  assumes range: "in_int128 (dvalue l)" "in_int128 (dvalue r)"
    and scales: "0 \<le> scale l" "0 \<le> scale r" and pp: "0 \<le> dvalue l" "0 \<le> dvalue r"
  shows "CompareTo l r = scaled_less l r"
proof -
  define A B a b where defs: "A = POWERS_OF_TEN (scale l)" "B = POWERS_OF_TEN (scale r)"
    "a = dvalue l" "b = dvalue r"
  have pos: "0 < A" "0 < B" by (simp_all add: defs)
  have d: "DownScaleInt128 a (scale l) = a div A" "DownScaleInt128 b (scale r) = b div B"
    using pp by (simp_all add: DownScaleInt128_eq sdiv_nonneg defs)
  have f: "a - fst (ScaleInt128 (a div A) (scale l)) = a mod A"
    "b - fst (ScaleInt128 (b div B) (scale r)) = b mod B"
    using fractional_part [OF range(1), of "scale l"] fractional_part [OF range(2), of "scale r"] pp
    by (simp_all add: sdiv_nonneg defs)
  show ?thesis
  proof (cases "a div A" "b div B" rule: linorder_cases)
    case less
    then show ?thesis using integral_parts_decide [OF pos _ less] pp
      by (simp add: CompareTo_def scaled_less_powers d flip: defs)
  next
    case greater
    then show ?thesis using integral_parts_decide [OF pos(2,1) _ greater] pp
      by (simp add: CompareTo_def scaled_less_powers d flip: defs)
  next
    case equal
    have "CompareTo l r = compare_fractions True (a mod A) (b mod B) (scale l) (scale r)"
      using pp equal f by (simp add: CompareTo_def d flip: defs)
    also have "\<dots> = sgn (a mod A * B - b mod B * A)"
      unfolding defs(1,2) using pp range scales
      by (intro compare_fractions_exact) (auto simp: defs in_int128_mod)
    finally show ?thesis
      using fractional_parts_decide [OF equal] by (simp add: scaled_less_powers flip: defs)
  qed
qed

lemma CompareTo_negative:
  assumes range: "in_int128 (dvalue l)" "in_int128 (dvalue r)"
    and scales: "0 \<le> scale l" "0 \<le> scale r" and nn: "dvalue l < 0" "dvalue r < 0"
  shows "CompareTo l r = scaled_less l r"
proof -
  define A B a b where defs: "A = POWERS_OF_TEN (scale l)" "B = POWERS_OF_TEN (scale r)"
    "a = - dvalue l" "b = - dvalue r"
  have val: "dvalue l = - a" "dvalue r = - b" and n: "0 \<le> a" "0 \<le> b" and pos: "0 < A" "0 < B"
    using nn by (simp_all add: defs)
  have d: "DownScaleInt128 (- a) (scale l) = - (a div A)" "DownScaleInt128 (- b) (scale r) = - (b div B)"
    using nn by (simp_all add: DownScaleInt128_eq sdiv_nonpos defs)
  have f: "- a - fst (ScaleInt128 (- (a div A)) (scale l)) = - (a mod A)"
    "- b - fst (ScaleInt128 (- (b div B)) (scale r)) = - (b mod B)"
    using fractional_part [OF range(1), of "scale l"] fractional_part [OF range(2), of "scale r"] nn
    by (simp_all add: sdiv_nonpos defs)
  show ?thesis
  proof (cases "a div A" "b div B" rule: linorder_cases)
    case less
    then show ?thesis using integral_parts_decide [OF pos n(1) less] nn
      by (simp add: CompareTo_def scaled_less_powers d val flip: defs(1,2))
  next
    case greater
    then show ?thesis using integral_parts_decide [OF pos(2,1) n(2) greater] nn
      by (simp add: CompareTo_def scaled_less_powers d val flip: defs(1,2))
  next
    case equal
    have "CompareTo l r = compare_fractions False (- (a mod A)) (- (b mod B)) (scale l) (scale r)"
      using nn equal f by (simp add: CompareTo_def d val)
    also have "\<dots> = sgn (- (a mod A) * B - - (b mod B) * A)"
      unfolding defs(1,2) using nn range scales
      by (intro compare_fractions_exact) (auto simp: defs in_int128_mod)
    also have "- (a mod A) * B - - (b mod B) * A = - a * B - - b * A"
      using fractional_parts_decide [OF equal] by (simp add: algebra_simps)
    finally show ?thesis by (simp add: scaled_less_powers val flip: defs(1,2))
  qed
qed

lemma CompareTo_scaled_less:
  assumes "in_int128 (dvalue l)" "in_int128 (dvalue r)" "0 \<le> scale l" "0 \<le> scale r"
  shows "CompareTo l r = scaled_less l r"
proof -
  have m: "0 < POWERS_OF_TEN s" for s by simp
  consider (same) "dvalue l \<ge> 0 \<longleftrightarrow> dvalue r \<ge> 0"
    | (pn) "0 \<le> dvalue l" "dvalue r < 0" | (np) "dvalue l < 0" "0 \<le> dvalue r"
    by linarith
  then show ?thesis
  proof cases
    case same
    then show ?thesis using CompareTo_nonneg CompareTo_negative assms by (metis not_le)
  next
    case pn
    have "dvalue r * POWERS_OF_TEN (scale l) < 0" using pn(2) m by (rule mult_neg_pos)
    moreover have "0 \<le> dvalue l * POWERS_OF_TEN (scale r)" using pn(1) by simp
    ultimately have "0 < dvalue l * POWERS_OF_TEN (scale r) - dvalue r * POWERS_OF_TEN (scale l)" by linarith
    then show ?thesis using pn by (simp add: CompareTo_def scaled_less_powers)
  next
    case np
    have "dvalue l * POWERS_OF_TEN (scale r) < 0" using np(1) m by (rule mult_neg_pos)
    moreover have "0 \<le> dvalue r * POWERS_OF_TEN (scale l)" using np(2) by simp
    ultimately have "dvalue l * POWERS_OF_TEN (scale r) - dvalue r * POWERS_OF_TEN (scale l) < 0" by linarith
    then show ?thesis using np by (simp add: CompareTo_def scaled_less_powers)
  qed
qed

text \<open>At one scale the comparison is that of the unscaled values, whatever their range.\<close>

lemma CompareTo_same_scale:
  assumes "scale l = scale r"
  shows "CompareTo l r = sgn (dvalue l - dvalue r)"
proof -
  have mono: "a sdiv p \<le> b sdiv p" if "a \<le> b" "0 < p" for a b p :: int
    using that zdiv_mono1 [of a b p] zdiv_mono1 [of "- b" "- a" p]
      pos_imp_zdiv_nonneg_iff [of p b] pos_imp_zdiv_nonneg_iff [of p "- a"]
    by (cases "0 \<le> a"; cases "0 \<le> b") (auto simp: sdiv_nonneg sdiv_nonpos intro: order_trans [of _ 0])
  show ?thesis
    using assms mono [of "dvalue l" "dvalue r" "POWERS_OF_TEN (scale r)"]
      mono [of "dvalue r" "dvalue l" "POWERS_OF_TEN (scale r)"]
    by (auto simp: CompareTo_def compare_fractions_def Let_def DownScaleInt128_eq
        ScaleInt128.simps [of _ 0] sgn_if)
qed

section \<open>Properties\<close>

text \<open>
  C12. The comparison of two decimals of any scales is the sign of the difference of their rational
  values: neither the truncated integral parts nor the overflow exits of the rescaling lose precision.
\<close>

theorem CompareTo_exact:
  assumes "in_int128 (dvalue l)" "in_int128 (dvalue r)" "0 \<le> scale l" "0 \<le> scale r"
  shows "CompareTo l r = sgn (dvalue l * 10 ^ nat (scale r) - dvalue r * 10 ^ nat (scale l))"
  using CompareTo_scaled_less [OF assms] by (simp add: scaled_less_def)

theorem CompareTo_exact_witness:
  "CompareTo \<lparr>precision = 5, scale = 2, dvalue = 150\<rparr> \<lparr>precision = 5, scale = 1, dvalue = 15\<rparr> = 0"
  using CompareTo_exact [of "\<lparr>precision = 5, scale = 2, dvalue = 150\<rparr>" "\<lparr>precision = 5, scale = 1, dvalue = 15\<rparr>"]
  by (simp add: in_int128_def INT128_MINIMUM_VALUE_def INT128_MAXIMUM_VALUE_def)

end
