(* ===== verification/Decimal_Bytes.thy ===== *)
theory Decimal_Bytes
  imports Decimal
begin

unbundle bit_operations_syntax

text \<open>
  The big-endian two's complement bytes of a decimal's unscaled value
  (\<^verbatim>\<open>common/data/decimal.cpp\<close>, \<open>ToUnscaledBytes\<close> and \<open>FromUnscaledBytes\<close>). The value is a \<open>128 word\<close>
  where its bytes are read. The lemmas show that the length chosen covers the value with its sign
  bit, and that reading the bytes back gives the decimal.
\<close>

section \<open>Unscaled bytes\<close>

fun clz_from :: "nat \<Rightarrow> 'a::len word \<Rightarrow> nat" where
  "clz_from 0 w = 0"
| "clz_from (Suc n) w = (if bit w n then 0 else Suc (clz_from n w))"

text \<open>\<open>__builtin_clzll\<close> on a non-zero 64-bit word is \<open>clz_from 64\<close>.\<close>

definition clz_u128 :: "128 word \<Rightarrow> nat" where
  "clz_u128 u =
     (let hi = (ucast (drop_bit 64 u) :: 64 word) in
      if hi \<noteq> 0 then clz_from 64 hi
      else let lo = (ucast u :: 64 word) in
      if lo \<noteq> 0 then clz_from 64 lo + 64 else 128)"

definition count_leading_zero_bytes :: "128 word \<Rightarrow> nat" where
  "count_leading_zero_bytes u = (if u = 0 then 16 else clz_u128 u div 8)"

fun leading_ones_from :: "nat \<Rightarrow> 128 word \<Rightarrow> nat" where
  "leading_ones_from 0 u = 0"
| "leading_ones_from (Suc i) u =
     (if drop_bit (i * 8) u AND 0xFF = 0xFF then Suc (leading_ones_from i u) else 0)"

definition count_leading_all_ones_bytes :: "128 word \<Rightarrow> nat" where
  "count_leading_all_ones_bytes u = (if u = 0 then 0 else leading_ones_from 16 u)"

definition unscaled_length :: "int \<Rightarrow> nat" where
  "unscaled_length v =
     (let u = word_of_int v;
          valid = 16 - (if v \<ge> 0 then count_leading_zero_bytes u else count_leading_all_ones_bytes u)
      in if valid = 0 then 1
         else let high = (drop_bit ((valid - 1) * 8) u AND 0x80 \<noteq> 0) in
           if (v \<ge> 0 \<and> high) \<or> (\<not> v \<ge> 0 \<and> \<not> high) then valid + 1 else valid)"

text \<open>\<open>memcpy\<close> of the low bytes of a little-endian value, reversed to big-endian.\<close>

definition ToUnscaledBytes :: "decimal \<Rightarrow> 8 word list" where
  "ToUnscaledBytes d =
     rev (map (\<lambda>i. ucast (drop_bit (8 * i) (word_of_int (dvalue d) :: 128 word)))
       [0..<unscaled_length (dvalue d)])"

fun or_bytes :: "nat \<Rightarrow> 8 word list \<Rightarrow> 128 word \<Rightarrow> 128 word" where
  "or_bytes i [] acc = acc"
| "or_bytes i (b # bs) acc = or_bytes (Suc i) bs (acc OR push_bit (8 * i) (ucast b))"

text \<open>The read of the last byte of an empty buffer is out of range: \<open>None\<close>.\<close>

definition FromUnscaledBytes :: "int \<Rightarrow> int \<Rightarrow> 8 word list \<Rightarrow> decimal option" where
  "FromUnscaledBytes p s bytes =
     (let bs = rev bytes in
      if bs = [] then None
      else let v = or_bytes 0 bs 0;
               v' = (if last bs AND 0x80 \<noteq> 0
                     then or_bytes (length bs) (replicate (16 - length bs) 0xFF) v else v)
        in Some \<lparr>precision = p, scale = s, dvalue = sint v'\<rparr>)"

lemma clz_from_zeros: "n - clz_from n w \<le> j \<Longrightarrow> j < n \<Longrightarrow> \<not> bit w j"
  by (induction n) (auto simp: less_Suc_eq split: if_splits)

lemma clz_u128_zeros: "128 - clz_u128 u \<le> j \<Longrightarrow> \<not> bit u j"
proof (cases "(ucast (drop_bit 64 u) :: 64 word) = 0")
  case False
  assume j: "128 - clz_u128 u \<le> j"
  show "\<not> bit u j"
  proof (cases "64 \<le> j \<and> j < 128")
    case True
    then have "\<not> bit (ucast (drop_bit 64 u) :: 64 word) (j - 64)"
      using j False by (intro clz_from_zeros [of 64]) (auto simp: clz_u128_def Let_def)
    then show ?thesis using True by (auto simp: bit_ucast_iff bit_drop_bit_eq)
  next
    case out: False
    have "clz_from n w \<le> n" for n and w :: "64 word" by (induction n) auto
    from this [of 64 "ucast (drop_bit 64 u)"] have "64 \<le> j"
      using j False by (simp add: clz_u128_def Let_def)
    with out show ?thesis using bit_imp_le_length [of u j] by auto
  qed
next
  case True
  assume j: "128 - clz_u128 u \<le> j"
  have hi: "\<not> bit u i" if "64 \<le> i" for i
  proof -
    have "\<not> bit (ucast (drop_bit 64 u) :: 64 word) (i - 64)" using True by simp
    then show ?thesis using that bit_imp_le_length [of u i] by (auto simp: bit_ucast_iff bit_drop_bit_eq)
  qed
  show "\<not> bit u j"
  proof (cases "j < 64")
    case jl: True
    have "\<not> bit (ucast u :: 64 word) j"
    proof (cases "(ucast u :: 64 word) = 0")
      case False
      then show ?thesis using j True jl
        by (intro clz_from_zeros [of 64]) (auto simp: clz_u128_def Let_def)
    qed simp
    then show ?thesis using jl by (simp add: bit_ucast_iff)
  qed (use hi in auto)
qed

lemma bit_FF: "bit (0xFF :: 'a::len word) i \<longleftrightarrow> i < 8 \<and> i < LENGTH('a)"
proof -
  have e: "(0xFF :: 'a word) = mask 8" by (simp add: mask_eq_exp_minus_1)
  show ?thesis unfolding e bit_mask_iff by auto
qed

lemma and_FF_eq:
  fixes w :: "128 word"
  assumes "w AND 0xFF = 0xFF" "i < 8"
  shows "bit w i"
proof -
  have "bit (w AND 0xFF) i" unfolding assms(1) bit_FF using assms(2) by simp
  then show ?thesis by (simp add: bit_and_iff)
qed

lemma and_80_iff: "w AND 0x80 \<noteq> 0 \<longleftrightarrow> bit w 7" if "8 \<le> LENGTH('a)" for w :: "'a::len word"
proof -
  have e: "(0x80 :: 'a word) = 2 ^ 7" by simp
  have "bit (0x80 :: 'a word) i \<longleftrightarrow> i = 7" for i
    unfolding e bit_exp_iff using that by auto
  then have b: "bit (w AND 0x80) i \<longleftrightarrow> bit w i \<and> i = 7" for i by (simp only: bit_and_iff)
  show ?thesis
  proof
    assume "w AND 0x80 \<noteq> 0"
    then obtain i where "bit (w AND 0x80) i" by (metis bit_eqI bit_0_eq bot_apply bot_bool_def)
    then show "bit w 7" by (simp only: b) blast
  next
    assume "bit w 7"
    then have "bit (w AND 0x80) 7" by (simp only: b)
    then show "w AND 0x80 \<noteq> 0" by (metis bit_0_eq bot_apply bot_bool_def)
  qed
qed

lemma leading_ones_from_ones:
  "8 * (m - leading_ones_from m u) \<le> j \<Longrightarrow> j < 8 * m \<Longrightarrow> bit u j"
proof (induction m)
  case (Suc m)
  show ?case
  proof (cases "j < 8 * m")
    case True
    then show ?thesis using Suc by (auto split: if_splits)
  next
    case False
    then have "drop_bit (m * 8) u AND 0xFF = 0xFF" using Suc.prems by (auto split: if_splits)
    then have "bit (drop_bit (m * 8) u) (j - 8 * m)" using Suc.prems False by (intro and_FF_eq) auto
    then show ?thesis using False by (simp add: bit_drop_bit_eq mult.commute)
  qed
qed simp

lemma sign_bit_iff: "bit (word_of_int v :: 128 word) 127 \<longleftrightarrow> v < 0" if "in_int128 v"
proof -
  have "sint (word_of_int v :: 128 word) = v"
    unfolding sint_sbintrunc' using that by (intro signed_take_bit_int_eq_self) (auto simp: in_int128_def INT128_MINIMUM_VALUE_def INT128_MAXIMUM_VALUE_def)
  moreover have "bit (word_of_int v :: 128 word) 127 \<longleftrightarrow> sint (word_of_int v :: 128 word) < 0"
    using bit_last_iff [of "word_of_int v :: 128 word"] by simp
  ultimately show ?thesis by simp
qed

text \<open>
  The length covers the value: it is between one byte and sixteen, and from its last bit on every bit
  repeats the sign.
\<close>

lemma unscaled_length_spec:
  assumes "in_int128 v"
  shows "1 \<le> unscaled_length v \<and> unscaled_length v \<le> 16 \<and>
    (\<forall>j. 8 * unscaled_length v - 1 \<le> j \<longrightarrow> j < 128 \<longrightarrow> bit (word_of_int v :: 128 word) j = (v < 0))"
proof -
  define u :: "128 word" where "u = word_of_int v"
  define k where "k = (if v \<ge> 0 then count_leading_zero_bytes u else count_leading_all_ones_bytes u)"
  define m where "m = 16 - k"
  have rest: "bit u j = (v < 0)" if "8 * m \<le> j" "j < 128" for j
  proof (cases "v \<ge> 0")
    case True
    show ?thesis
    proof (cases "u = 0")
      case False
      have "128 - clz_u128 u \<le> j"
        using that True False by (simp add: m_def k_def count_leading_zero_bytes_def)
      then show ?thesis using clz_u128_zeros True by simp
    qed (use True in simp)
  next
    case False
    then have "u \<noteq> 0" using sign_bit_iff [OF assms] by (auto simp: u_def [symmetric])
    then show ?thesis
      using leading_ones_from_ones [of 16 u j] that False
      by (simp add: m_def k_def count_leading_all_ones_bytes_def)
  qed
  have sign: "bit u 127 = (v < 0)" using sign_bit_iff [OF assms] by (simp add: u_def)
  have high: "drop_bit ((m - 1) * 8) u AND 0x80 \<noteq> 0 \<longleftrightarrow> bit u (8 * m - 1)" if "m \<noteq> 0"
    using that and_80_iff [of "drop_bit ((m - 1) * 8) u"]
    by (cases m) (simp_all add: bit_drop_bit_eq mult.commute add.commute)
  have len: "unscaled_length v = (if m = 0 then 1 else if bit u (8 * m - 1) = (v < 0) then m else m + 1)"
  proof -
    have "unscaled_length v =
        (if m = 0 then 1 else if (v \<ge> 0 \<and> drop_bit ((m - 1) * 8) u AND 0x80 \<noteq> 0) \<or>
          (\<not> v \<ge> 0 \<and> \<not> drop_bit ((m - 1) * 8) u AND 0x80 \<noteq> 0) then m + 1 else m)"
      by (simp only: unscaled_length_def u_def k_def m_def Let_def)
    then show ?thesis using high by (simp only: not_le split: if_split) auto
  qed
  have "m \<le> 16" by (simp add: m_def)
  moreover have "m = 16 \<Longrightarrow> bit u (8 * m - 1) = (v < 0)" using sign by simp
  moreover have "bit u j = (v < 0)" if "8 * unscaled_length v - 1 \<le> j" "j < 128" for j
  proof (cases "8 * m \<le> j")
    case True
    then show ?thesis using rest that by simp
  next
    case False
    have "bit u (8 * m - 1) = (v < 0)"
    proof (rule ccontr)
      assume "bit u (8 * m - 1) \<noteq> (v < 0)"
      then have "unscaled_length v = (if m = 0 then 1 else m + 1)" using len by presburger
      then show False using that False by (cases "m = 0") simp_all
    qed
    moreover from this have "unscaled_length v = m" using len False that by (cases "m = 0") simp_all
    then have "j = 8 * m - 1" using that False by simp
    ultimately show ?thesis by simp
  qed
  moreover have "1 \<le> unscaled_length v \<and> unscaled_length v \<le> 16"
    using calculation(1,2) unfolding len by (cases "m = 0"; cases "m = 16") simp_all
  ultimately show ?thesis unfolding u_def [symmetric] by blast
qed

lemma bit_or_bytes:
  "bit (or_bytes i bs acc) j \<longleftrightarrow> j < 128 \<and>
     (bit acc j \<or> (8 * i \<le> j \<and> j < 8 * (i + length bs) \<and> bit (bs ! (j div 8 - i)) (j mod 8)))"
proof (induction bs arbitrary: i acc)
  case Nil
  then show ?case by (auto dest: bit_imp_le_length)
next
  case (Cons b bs)
  have here: "bit (push_bit (8 * i) (ucast b :: 128 word)) j \<longleftrightarrow>
      j < 128 \<and> 8 * i \<le> j \<and> bit b (j - 8 * i)"
    by (simp add: bit_push_bit_iff bit_unsigned_iff) auto
  have low: "bit b (j - 8 * i) \<Longrightarrow> 8 * i \<le> j \<Longrightarrow> j < 8 * Suc i"
    using bit_imp_le_length [of b "j - 8 * i"] by auto
  have idx: "j div 8 - i = Suc (j div 8 - Suc i)" if "8 * Suc i \<le> j"
    using that div_le_mono [of "8 * Suc i" j 8] by simp
  have idx0: "j div 8 - i = 0 \<and> j mod 8 = j - 8 * i" if "8 * i \<le> j" "j < 8 * Suc i"
  proof -
    have "j div 8 = i" using that by (intro div_nat_eqI) auto
    then show ?thesis using minus_mult_div_eq_mod [of j 8] by simp
  qed
  show ?case
  proof (cases "8 * Suc i \<le> j")
    case True
    then have "\<not> bit (push_bit (8 * i) (ucast b :: 128 word)) j" using low by (auto simp: here)
    then show ?thesis using True by (simp add: Cons.IH bit_or_iff idx)
  next
    case False
    then show ?thesis using idx0 by (auto simp: Cons.IH bit_or_iff here)
  qed
qed

lemma nth_ToUnscaledBytes_bit:
  "i < unscaled_length (dvalue d) \<Longrightarrow> b < 8 \<Longrightarrow>
   bit (rev (ToUnscaledBytes d) ! i) b = bit (word_of_int (dvalue d) :: 128 word) (8 * i + b)"
  by (simp add: ToUnscaledBytes_def rev_map rev_nth bit_unsigned_iff bit_drop_bit_eq)

lemma bit_FF_mod: "bit (0xFF :: 8 word) (j mod 8)"
  unfolding bit_FF by simp

lemma bit_sign_extension:
  "n \<le> 16 \<Longrightarrow> bit (or_bytes n (replicate (16 - n) 0xFF) w) j \<longleftrightarrow> j < 128 \<and> (bit w j \<or> 8 * n \<le> j)"
  using bit_FF_mod [of j] by (auto simp: bit_or_bytes less_diff_conv2 div_less_iff_less_mult)

section \<open>Properties\<close>

text \<open>
  C32. Every decimal whose unscaled value fits 128 bits is recovered from its unscaled bytes: the bytes
  written always suffice, and the sign extension of the reader restores the value.
\<close>

theorem FromUnscaledBytes_ToUnscaledBytes:
  assumes "in_int128 (dvalue d)"
  shows "FromUnscaledBytes (precision d) (scale d) (ToUnscaledBytes d) = Some d"
proof -
  define v where "v = dvalue d"
  define u :: "128 word" where "u = word_of_int v"
  define n where "n = unscaled_length v"
  define bs where "bs = rev (ToUnscaledBytes d)"
  have n: "1 \<le> n" "n \<le> 16" and sign: "\<And>j. 8 * n - 1 \<le> j \<Longrightarrow> j < 128 \<Longrightarrow> bit u j = (v < 0)"
    using unscaled_length_spec [OF assms] by (auto simp: u_def n_def v_def)
  have len: "length bs = n" by (simp add: bs_def ToUnscaledBytes_def n_def v_def)
  have nth: "bit (bs ! i) b = bit u (8 * i + b)" if "i < n" "b < 8" for i b
    using nth_ToUnscaledBytes_bit [of i d b] that by (simp add: bs_def n_def u_def v_def)
  have "bs \<noteq> []" using len n by auto
  have low: "bit (or_bytes 0 bs 0) j \<longleftrightarrow> j < 8 * n \<and> bit u j" for j
  proof (cases "j < 8 * n")
    case True
    then have "j div 8 < n" by (simp add: div_less_iff_less_mult mult.commute)
    then have "bit (bs ! (j div 8)) (j mod 8) = bit u j"
      using nth [of "j div 8" "j mod 8"] by simp
    then show ?thesis using True n by (auto simp: bit_or_bytes len)
  qed (simp add: bit_or_bytes len)
  have "last bs AND 0x80 \<noteq> 0 \<longleftrightarrow> bit (last bs) 7" by (intro and_80_iff) simp
  also have "\<dots> \<longleftrightarrow> bit u (8 * n - 1)"
    using nth [of "n - 1" 7] n \<open>bs \<noteq> []\<close> by (simp add: last_conv_nth len right_diff_distrib')
  also have "\<dots> \<longleftrightarrow> v < 0" using sign [of "8 * n - 1"] n by simp
  finally have top: "last bs AND 0x80 \<noteq> 0 \<longleftrightarrow> v < 0" .
  have "(if v < 0 then or_bytes n (replicate (16 - n) 0xFF) (or_bytes 0 bs 0) else or_bytes 0 bs 0) = u"
    (is "?w = u")
  proof (rule bit_word_eqI)
    fix j assume "j < LENGTH(128)"
    then show "bit ?w j = bit u j"
      using n sign [of j] by (cases "j < 8 * n") (auto simp: low bit_sign_extension)
  qed
  moreover have "sint u = v"
    unfolding u_def sint_sbintrunc' v_def using assms
    by (intro signed_take_bit_int_eq_self)
      (auto simp: in_int128_def INT128_MINIMUM_VALUE_def INT128_MAXIMUM_VALUE_def)
  ultimately show ?thesis
    unfolding FromUnscaledBytes_def bs_def [symmetric] Let_def len top using \<open>bs \<noteq> []\<close>
    by (simp add: v_def)
qed

theorem FromUnscaledBytes_ToUnscaledBytes_witness:
  "FromUnscaledBytes 10 2 (ToUnscaledBytes \<lparr>precision = 10, scale = 2, dvalue = - 129\<rparr>) =
     Some \<lparr>precision = 10, scale = 2, dvalue = - 129\<rparr>"
  using FromUnscaledBytes_ToUnscaledBytes [of "\<lparr>precision = 10, scale = 2, dvalue = - 129\<rparr>"]
  by (simp add: in_int128_def INT128_MINIMUM_VALUE_def INT128_MAXIMUM_VALUE_def)

end
