(* ===== verification/Soft_Float.thy ===== *)
theory Soft_Float
  imports Prelude Complex_Main "HOL-Library.Product_Lexorder"
begin

text \<open>
  The part of IEEE 754 arithmetic the program uses: values of type \<open>float\<close> and \<open>double\<close>, their
  comparison operators, and addition, multiplication, division and conversion from integers rounded
  to nearest, ties to even. A finite value is a sign and a rational magnitude; a NaN is a sign and its
  fraction field, so that two NaNs can have different bits. On top of it,
  \<open>FieldsComparator::CompareFloatingPoint\<close>.
\<close>

datatype fp = NaN bool nat | Inf bool | Fin bool rat

record fp_format =
  fp_prec :: int
  fp_emin :: int
  fp_emax :: int

definition binary32 :: fp_format where
  "binary32 = \<lparr>fp_prec = 24, fp_emin = -126, fp_emax = 127\<rparr>"

definition binary64 :: fp_format where
  "binary64 = \<lparr>fp_prec = 53, fp_emin = -1022, fp_emax = 1023\<rparr>"

section \<open>Rounding\<close>

definition pow2 :: "int \<Rightarrow> rat" where
  "pow2 k = (if k \<ge> 0 then 2 ^ nat k else 1 / 2 ^ nat (- k))"

fun log2_floor :: "nat \<Rightarrow> nat" where
  "log2_floor n = (if n < 2 then 0 else Suc (log2_floor (n div 2)))"

declare log2_floor.simps [simp del]

text \<open>The exponent \<open>e\<close> with \<open>2 ^ e \<le> q < 2 ^ (e + 1)\<close>, for a positive \<open>q\<close>.\<close>

definition rat_exponent :: "rat \<Rightarrow> int" where
  "rat_exponent q = (case quotient_of q of (a, b) \<Rightarrow>
     (let l = int (log2_floor (nat a)) - int (log2_floor (nat b)) in if pow2 l \<le> q then l else l - 1))"

definition round_half_even :: "rat \<Rightarrow> int" where
  "round_half_even q = (let n = floor q; r = q - of_int n in
     if r < 1 / 2 then n else if r > 1 / 2 then n + 1 else if even n then n else n + 1)"

definition fp_round :: "fp_format \<Rightarrow> bool \<Rightarrow> rat \<Rightarrow> fp" where
  "fp_round f s q = (if q = 0 then Fin s 0
     else let e = max (rat_exponent q) (fp_emin f);
              ulp = pow2 (e - fp_prec f + 1);
              r = of_int (round_half_even (q / ulp)) * ulp
          in if r \<ge> pow2 (fp_emax f + 1) then Inf s else Fin s r)"

definition fp_signed :: "fp_format \<Rightarrow> bool \<Rightarrow> rat \<Rightarrow> fp" where
  \<comment> \<open>the rounding of a signed rational; \<open>z\<close> is the sign an exact zero takes\<close>
  "fp_signed f z q = (if q = 0 then Fin z 0 else fp_round f (q < 0) \<bar>q\<bar>)"

section \<open>Operations\<close>

fun fp_value :: "fp \<Rightarrow> rat" where
  "fp_value (Fin s q) = (if s then - q else q)"
| "fp_value _ = 0"

fun isnan :: "fp \<Rightarrow> bool" where
  "isnan (NaN s p) = True"
| "isnan _ = False"

fun signbit :: "fp \<Rightarrow> bool" where
  "signbit (NaN s p) = s"
| "signbit (Inf s) = s"
| "signbit (Fin s q) = s"

fun fp_eq :: "fp \<Rightarrow> fp \<Rightarrow> bool" where
  "fp_eq (Inf s) (Inf t) = (s = t)"
| "fp_eq (Fin s p) (Fin t q) = (fp_value (Fin s p) = fp_value (Fin t q))"
| "fp_eq _ _ = False"

fun fp_less :: "fp \<Rightarrow> fp \<Rightarrow> bool" where
  "fp_less (NaN _ _) _ = False"
| "fp_less _ (NaN _ _) = False"
| "fp_less (Inf s) (Inf t) = (s \<and> \<not> t)"
| "fp_less (Inf s) (Fin t q) = s"
| "fp_less (Fin s p) (Inf t) = (\<not> t)"
| "fp_less (Fin s p) (Fin t q) = (fp_value (Fin s p) < fp_value (Fin t q))"

text \<open>
  IEEE 754 leaves the NaN an operation returns to the machine. The model follows x86-64: a NaN operand,
  the first if both are, is returned with the quiet bit of its fraction set, and an invalid operation
  returns the negative NaN whose fraction is the quiet bit alone. No theorem depends on this choice.
\<close>

definition quiet_bit :: "fp_format \<Rightarrow> nat" where
  "quiet_bit f = 2 ^ nat (fp_prec f - 2)"

definition quiet_nan :: "fp_format \<Rightarrow> bool \<Rightarrow> nat \<Rightarrow> fp" where
  "quiet_nan f s p = NaN s (if p < quiet_bit f then p + quiet_bit f else p)"

definition invalid_nan :: "fp_format \<Rightarrow> fp" where
  "invalid_nan f = NaN True (quiet_bit f)"

fun fp_neg :: "fp \<Rightarrow> fp" where
  "fp_neg (NaN s p) = NaN (\<not> s) p"
| "fp_neg (Inf s) = Inf (\<not> s)"
| "fp_neg (Fin s q) = Fin (\<not> s) q"

fun fp_add :: "fp_format \<Rightarrow> fp \<Rightarrow> fp \<Rightarrow> fp" where
  "fp_add f (NaN s p) _ = quiet_nan f s p"
| "fp_add f _ (NaN s p) = quiet_nan f s p"
| "fp_add f (Inf s) (Inf t) = (if s = t then Inf s else invalid_nan f)"
| "fp_add f (Inf s) (Fin _ _) = Inf s"
| "fp_add f (Fin _ _) (Inf t) = Inf t"
| "fp_add f (Fin s p) (Fin t q) =
     fp_signed f (s \<and> t) (fp_value (Fin s p) + fp_value (Fin t q))"

fun fp_mult :: "fp_format \<Rightarrow> fp \<Rightarrow> fp \<Rightarrow> fp" where
  "fp_mult f (NaN s p) _ = quiet_nan f s p"
| "fp_mult f _ (NaN s p) = quiet_nan f s p"
| "fp_mult f (Inf s) (Inf t) = Inf (s \<noteq> t)"
| "fp_mult f (Inf s) (Fin t q) = (if q = 0 then invalid_nan f else Inf (s \<noteq> t))"
| "fp_mult f (Fin s p) (Inf t) = (if p = 0 then invalid_nan f else Inf (s \<noteq> t))"
| "fp_mult f (Fin s p) (Fin t q) = fp_round f (s \<noteq> t) (p * q)"

fun fp_div :: "fp_format \<Rightarrow> fp \<Rightarrow> fp \<Rightarrow> fp" where
  "fp_div f (NaN s p) _ = quiet_nan f s p"
| "fp_div f _ (NaN s p) = quiet_nan f s p"
| "fp_div f (Inf s) (Inf t) = invalid_nan f"
| "fp_div f (Inf s) (Fin t q) = Inf (s \<noteq> t)"
| "fp_div f (Fin s p) (Inf t) = Fin (s \<noteq> t) 0"
| "fp_div f (Fin s p) (Fin t q) =
     (if q = 0 then (if p = 0 then invalid_nan f else Inf (s \<noteq> t)) else fp_round f (s \<noteq> t) (p / q))"

definition fp_of_int :: "fp_format \<Rightarrow> int \<Rightarrow> fp" where
  "fp_of_int f i = fp_signed f False (of_int i)"

section \<open>CompareFloatingPoint\<close>

text \<open>
  The Java-compatible order \<open>-inf < -0.0 < +0.0 < +inf < NaN = NaN\<close>, from
  \<^verbatim>\<open>FieldsComparator::CompareFloatingPoint\<close>.
\<close>

definition CompareFloatingPoint :: "fp \<Rightarrow> fp \<Rightarrow> int" where
  "CompareFloatingPoint a b =
     (if isnan a \<and> isnan b then 0
      else if isnan a then 1
      else if isnan b then -1
      else if fp_eq a b then
        (if signbit a = signbit b then 0 else if signbit a then -1 else 1)
      else if fp_less a b then -1 else 1)"

text \<open>The class of a value, its rational value and its sign, in the order in which they decide.\<close>

fun fp_class :: "fp \<Rightarrow> int" where
  "fp_class (Inf s) = (if s then 0 else 2)"
| "fp_class (Fin s q) = 1"
| "fp_class (NaN s p) = 3"

definition fp_key :: "fp \<Rightarrow> int \<times> rat \<times> bool" where
  "fp_key a = (fp_class a, fp_value a, \<not> isnan a \<and> \<not> signbit a)"

lemma fp_eq_key: "\<not> isnan a \<Longrightarrow> \<not> isnan b \<Longrightarrow>
    fp_eq a b \<longleftrightarrow> fp_class a = fp_class b \<and> fp_value a = fp_value b"
  by (cases a; cases b; simp)

lemma fp_less_key: "\<not> isnan a \<Longrightarrow> \<not> isnan b \<Longrightarrow>
    fp_less a b \<longleftrightarrow> fp_class a < fp_class b \<or> fp_class a = fp_class b \<and> fp_value a < fp_value b"
  by (cases a; cases b; simp)

lemma fp_class_nan: "isnan a \<Longrightarrow> fp_class a = 3 \<and> fp_value a = 0" "\<not> isnan a \<Longrightarrow> fp_class a < 3"
  by (cases a; simp)+

lemma CompareFloatingPoint_key: "CompareFloatingPoint a b = cmp_of (fp_key a) (fp_key b)"
proof (cases "isnan a \<or> isnan b")
  case True
  then show ?thesis
    using fp_class_nan [of a] fp_class_nan [of b]
    by (cases "isnan a"; cases "isnan b"; simp add: CompareFloatingPoint_def cmp_of_def fp_key_def)
next
  case False
  then show ?thesis
    by (cases "signbit a"; cases "signbit b")
      (auto simp: CompareFloatingPoint_def cmp_of_def fp_key_def fp_eq_key fp_less_key)
qed

interpretation float_order: comparison CompareFloatingPoint
proof -
  have "CompareFloatingPoint = (\<lambda>a b. cmp_of (fp_key a) (fp_key b))"
    by (intro ext) (rule CompareFloatingPoint_key)
  then show "comparison CompareFloatingPoint"
    using linear.cmp_on [of fp_key] by simp
qed

end
