(* ===== verification/Key_Value.thy ===== *)
theory Key_Value
  imports Soft_Float Decimal "HOL-Library.List_Lexorder" "HOL-Library.Char_ord"
begin

text \<open>
  Rows and records of the merge tree: \<open>RowKind\<close> (\<^verbatim>\<open>common/types/row_kind.h\<close>), field values
  (\<^verbatim>\<open>common/data/data_define.h\<close>), rows and their getters, the key comparator
  (\<^verbatim>\<open>common/utils/fields_comparator.cpp\<close>) and \<open>KeyValue\<close> (\<^verbatim>\<open>core/key_value.h\<close>). The lemmas show the
  two encodings of a row kind round-trip and that every comparator \<open>FieldsComparator::Create\<close>
  returns is a three-way total preorder, the contract the sorted runs, the section partitioning and
  the sort-merge readers rely on. The message of an error is the format string of the source.
\<close>

section \<open>Row kinds\<close>

datatype RowKind = INSERT | UPDATE_BEFORE | UPDATE_AFTER | DELETE

fun ShortString :: "RowKind \<Rightarrow> string" where
  "ShortString INSERT = ''+I''"
| "ShortString UPDATE_BEFORE = ''-U''"
| "ShortString UPDATE_AFTER = ''+U''"
| "ShortString DELETE = ''-D''"

fun ToByteValue :: "RowKind \<Rightarrow> 8 word" where
  "ToByteValue INSERT = 0"
| "ToByteValue UPDATE_BEFORE = 1"
| "ToByteValue UPDATE_AFTER = 2"
| "ToByteValue DELETE = 3"

definition IsRetract :: "RowKind \<Rightarrow> bool" where
  "IsRetract k \<longleftrightarrow> k = UPDATE_BEFORE \<or> k = DELETE"

definition IsAdd :: "RowKind \<Rightarrow> bool" where
  "IsAdd k \<longleftrightarrow> k = INSERT \<or> k = UPDATE_AFTER"

definition FromByteValue :: "8 word \<Rightarrow> RowKind result" where
  "FromByteValue v =
     (if v = 0 then Inr INSERT
      else if v = 1 then Inr UPDATE_BEFORE
      else if v = 2 then Inr UPDATE_AFTER
      else if v = 3 then Inr DELETE
      else Inl (Invalid ''Unsupported byte value {} for row kind.''))"

definition ToAsciiUpper :: "char \<Rightarrow> char" where
  "ToAsciiUpper c =
     (if of_char c \<ge> (97 :: nat) \<and> of_char c \<le> (122 :: nat) then char_of (of_char c - (97 - 65) :: nat) else c)"

definition ToUpperCase :: "string \<Rightarrow> string" where
  "ToUpperCase s = map ToAsciiUpper s"

definition FromShortString :: "string \<Rightarrow> RowKind result" where
  "FromShortString value =
     (let upper_value = ToUpperCase value in
      if upper_value = ''+I'' then Inr INSERT
      else if upper_value = ''-U'' then Inr UPDATE_BEFORE
      else if upper_value = ''+U'' then Inr UPDATE_AFTER
      else if upper_value = ''-D'' then Inr DELETE
      else Inl (Invalid ''Unsupported short string {} for row kind.''))"

lemma IsAdd_not_IsRetract: "IsAdd k \<longleftrightarrow> \<not> IsRetract k"
  by (cases k) (simp_all add: IsAdd_def IsRetract_def)

lemma FromByteValue_ToByteValue: "FromByteValue (ToByteValue k) = Inr k"
  by (cases k) (simp_all add: FromByteValue_def)

lemma ToByteValue_FromByteValue: "FromByteValue v = Inr k \<Longrightarrow> ToByteValue k = v"
  by (auto simp: FromByteValue_def split: if_splits)

lemma FromShortString_ShortString: "FromShortString (ShortString k) = Inr k"
  by (cases k) (simp_all add: FromShortString_def ToUpperCase_def ToAsciiUpper_def)

section \<open>Field values and rows\<close>

text \<open>
  \<open>VariantType\<close>: the alternatives of the \<open>std::variant\<close> in the order of the source. Integers keep
  their width; a string is its bytes.
\<close>

type_synonym bytes = "8 word list"

record timestamp =
  millisecond :: int
  nano_of_millisecond :: int

definition timestamp_less :: "timestamp \<Rightarrow> timestamp \<Rightarrow> bool" where
  "timestamp_less a b \<longleftrightarrow>
     (if millisecond a = millisecond b then nano_of_millisecond a < nano_of_millisecond b
      else millisecond a < millisecond b)"

datatype variant =
    VNull
  | VBool bool
  | VByte "8 word"
  | VShort "16 word"
  | VInt "32 word"
  | VLong "64 word"
  | VFloat fp
  | VDouble fp
  | VString bytes
  | VBytes bytes
  | VTimestamp timestamp
  | VDecimal decimal
  | VRow RowKind "variant list"
  | VArray "variant list"
  | VMap "(variant \<times> variant) list"
  | VStringView bytes

type_synonym row = "variant list"

definition IsVariantNull :: "variant \<Rightarrow> bool" where
  "IsVariantNull v \<longleftrightarrow> v = VNull"

fun VariantStringView :: "variant \<Rightarrow> bytes" where
  "VariantStringView (VStringView b) = b"
| "VariantStringView (VBytes b) = b"
| "VariantStringView (VString b) = b"
| "VariantStringView _ = []"

text \<open>
  A row is the list of its fields. A getter applied to a field of another type or to a position past
  the end, which the source excludes by assertions, gives a fixed value, so that a comparator is a
  total function of two rows. A decimal field is the unscaled value with the precision and the scale
  of the schema, as binary and columnar rows read it.
\<close>

definition row_field :: "row \<Rightarrow> nat \<Rightarrow> variant" where
  "row_field r i = (if i < length r then r ! i else VNull)"

definition IsNullAt :: "row \<Rightarrow> nat \<Rightarrow> bool" where
  "IsNullAt r i \<longleftrightarrow> IsVariantNull (row_field r i)"

definition GetBoolean :: "row \<Rightarrow> nat \<Rightarrow> bool" where
  "GetBoolean r i = (case row_field r i of VBool b \<Rightarrow> b | _ \<Rightarrow> False)"

definition GetByte :: "row \<Rightarrow> nat \<Rightarrow> 8 word" where
  "GetByte r i = (case row_field r i of VByte b \<Rightarrow> b | _ \<Rightarrow> 0)"

definition GetShort :: "row \<Rightarrow> nat \<Rightarrow> 16 word" where
  "GetShort r i = (case row_field r i of VShort b \<Rightarrow> b | _ \<Rightarrow> 0)"

definition GetInt :: "row \<Rightarrow> nat \<Rightarrow> 32 word" where
  "GetInt r i = (case row_field r i of VInt b \<Rightarrow> b | _ \<Rightarrow> 0)"

definition GetDate :: "row \<Rightarrow> nat \<Rightarrow> 32 word" where
  "GetDate r i = GetInt r i"

definition GetLong :: "row \<Rightarrow> nat \<Rightarrow> 64 word" where
  "GetLong r i = (case row_field r i of VLong b \<Rightarrow> b | _ \<Rightarrow> 0)"

definition GetFloat :: "row \<Rightarrow> nat \<Rightarrow> fp" where
  "GetFloat r i = (case row_field r i of VFloat b \<Rightarrow> b | _ \<Rightarrow> Fin False 0)"

definition GetDouble :: "row \<Rightarrow> nat \<Rightarrow> fp" where
  "GetDouble r i = (case row_field r i of VDouble b \<Rightarrow> b | _ \<Rightarrow> Fin False 0)"

definition GetStringView :: "row \<Rightarrow> nat \<Rightarrow> bytes" where
  "GetStringView r i = VariantStringView (row_field r i)"

definition GetTimestamp :: "row \<Rightarrow> nat \<Rightarrow> timestamp" where
  "GetTimestamp r i = (case row_field r i of VTimestamp t \<Rightarrow> t | _ \<Rightarrow> \<lparr>millisecond = 0, nano_of_millisecond = 0\<rparr>)"

definition GetDecimal :: "row \<Rightarrow> nat \<Rightarrow> int \<Rightarrow> int \<Rightarrow> decimal" where
  "GetDecimal r i p s =
     \<lparr>precision = p, scale = s, dvalue = (case row_field r i of VDecimal d \<Rightarrow> dvalue d | _ \<Rightarrow> 0)\<rparr>"

section \<open>The key comparator\<close>

text \<open>
  The arrow types a schema field may have; no comparator supports the nested ones. \<open>OTHER_TYPE\<close>
  stands for every further arrow type.
\<close>

datatype arrow_type =
    BOOL | INT8 | INT16 | INT32 | INT64 | FLOAT | DOUBLE | STRING | BINARY | DATE32 | TIMESTAMP
  | DECIMAL128 int int
  | STRUCT "(string \<times> arrow_type) list" | LIST arrow_type | FIXED_SIZE_LIST arrow_type
  | MAP arrow_type arrow_type
  | OTHER_TYPE

type_synonym row_compare = "row \<Rightarrow> row \<Rightarrow> int"

fun CompareField :: "nat \<Rightarrow> arrow_type \<Rightarrow> row_compare result" where
  "CompareField i BOOL = Inr (\<lambda>l r. let lvalue = GetBoolean l i; rvalue = GetBoolean r i in
     if lvalue = rvalue then 0 else if lvalue < rvalue then -1 else 1)"
| "CompareField i INT8 = Inr (\<lambda>l r. let lvalue = sint (GetByte l i); rvalue = sint (GetByte r i) in
     if lvalue = rvalue then 0 else if lvalue < rvalue then -1 else 1)"
| "CompareField i INT16 = Inr (\<lambda>l r. let lvalue = sint (GetShort l i); rvalue = sint (GetShort r i) in
     if lvalue = rvalue then 0 else if lvalue < rvalue then -1 else 1)"
| "CompareField i DATE32 = Inr (\<lambda>l r. let lvalue = sint (GetDate l i); rvalue = sint (GetDate r i) in
     if lvalue = rvalue then 0 else if lvalue < rvalue then -1 else 1)"
| "CompareField i INT32 = Inr (\<lambda>l r. let lvalue = sint (GetInt l i); rvalue = sint (GetInt r i) in
     if lvalue = rvalue then 0 else if lvalue < rvalue then -1 else 1)"
| "CompareField i INT64 = Inr (\<lambda>l r. let lvalue = sint (GetLong l i); rvalue = sint (GetLong r i) in
     if lvalue = rvalue then 0 else if lvalue < rvalue then -1 else 1)"
| "CompareField i FLOAT = Inr (\<lambda>l r. CompareFloatingPoint (GetFloat l i) (GetFloat r i))"
| "CompareField i DOUBLE = Inr (\<lambda>l r. CompareFloatingPoint (GetDouble l i) (GetDouble r i))"
| "CompareField i STRING = Inr (\<lambda>l r. let c = cmp_of (GetStringView l i) (GetStringView r i) in
     if c = 0 then 0 else if c > 0 then 1 else -1)"
| "CompareField i BINARY = Inr (\<lambda>l r. let c = cmp_of (GetStringView l i) (GetStringView r i) in
     if c = 0 then 0 else if c > 0 then 1 else -1)"
| "CompareField i TIMESTAMP = Inr (\<lambda>l r. let lvalue = GetTimestamp l i; rvalue = GetTimestamp r i in
     if lvalue = rvalue then 0 else if timestamp_less lvalue rvalue then -1 else 1)"
| "CompareField i (DECIMAL128 p s) = Inr (\<lambda>l r.
     let c = CompareTo (GetDecimal l i p s) (GetDecimal r i p s) in
     if c = 0 then 0 else if c > 0 then 1 else -1)"
| "CompareField i _ = Inl (NotImplemented ''Do not support comparing {} type in idx {}'')"

record FieldsComparator =
  is_ascending_order :: bool
  sort_fields :: "nat list"
  comparators :: "row_compare list"

text \<open>
  The read of a field type past the end of the schema, undefined in the source, is an error.
\<close>

definition FieldsComparator_Create :: "arrow_type list \<Rightarrow> nat list \<Rightarrow> bool \<Rightarrow> FieldsComparator result" where
  "FieldsComparator_Create types sort_idx asc =
     rbind (rmap (\<lambda>i. if i < length types then CompareField i (types ! i)
                      else Inl (Invalid ''sort field out of range'')) sort_idx)
       (\<lambda>cs. Inr \<lparr>is_ascending_order = asc, sort_fields = sort_idx, comparators = cs\<rparr>)"

definition FieldsComparator_CreateAll :: "arrow_type list \<Rightarrow> bool \<Rightarrow> FieldsComparator result" where
  "FieldsComparator_CreateAll types asc = FieldsComparator_Create types [0..<length types] asc"

fun compare_fields :: "bool \<Rightarrow> nat list \<Rightarrow> row_compare list \<Rightarrow> row \<Rightarrow> row \<Rightarrow> int" where
  "compare_fields asc (i # is) (c # cs) l r =
     (let lhs_null = IsNullAt l i; rhs_null = IsNullAt r i in
      if lhs_null \<and> rhs_null then compare_fields asc is cs l r
      else if lhs_null then -1
      else if rhs_null then 1
      else let comp' = c l r in
        if comp' \<noteq> 0 then (if asc then comp' else - comp') else compare_fields asc is cs l r)"
| "compare_fields asc _ _ l r = 0"

definition FieldsComparator_CompareTo :: "FieldsComparator \<Rightarrow> row_compare" where
  "FieldsComparator_CompareTo fc l r =
     compare_fields (is_ascending_order fc) (sort_fields fc) (comparators fc) l r"

text \<open>
  Each field comparison is a three-way comparison, and so is the lexicographic loop over the fields
  with nulls first.
\<close>

lemma cmp_of_sign: "(let c = cmp_of x y in if c = 0 then 0 else if c > 0 then 1 else - 1) = cmp_of x y"
  by (simp add: cmp_of_def)

lemma timestamp_compare:
  "(if a = b then 0 else if timestamp_less a b then -1 else 1) =
   (if cmp_of (millisecond a) (millisecond b) = 0 then cmp_of (nano_of_millisecond a) (nano_of_millisecond b)
    else cmp_of (millisecond a) (millisecond b))"
  by (cases a; cases b) (auto simp: timestamp_less_def cmp_of_def)

lemma decimal_compare:
  "(let c = CompareTo (GetDecimal l i p s) (GetDecimal r i p s) in
    if c = 0 then 0 else if c > 0 then 1 else - 1) =
   cmp_of (dvalue (GetDecimal l i p s)) (dvalue (GetDecimal r i p s))"
  by (simp add: CompareTo_same_scale GetDecimal_def cmp_of_def sgn_if)

lemma timestamp_comparison:
  "comparison (\<lambda>l r. if GetTimestamp l i = GetTimestamp r i then 0
     else if timestamp_less (GetTimestamp l i) (GetTimestamp r i) then -1 else 1)"
  unfolding timestamp_compare by (rule comparison.cmp_lexicographic) (rule linear.cmp_on)+

lemma CompareField_comparison:
  assumes "CompareField i t = Inr c"
  shows "comparison c"
  using assms
proof (cases t)
  case (DECIMAL128 p s)
  then show ?thesis using assms linear.cmp_on [of "\<lambda>r. dvalue (GetDecimal r i p s)"]
    by (auto simp only: CompareField.simps decimal_compare sum.inject)
next
  case STRING
  then show ?thesis using assms linear.cmp_on [of "\<lambda>r. GetStringView r i"]
    by (auto simp only: CompareField.simps cmp_of_sign sum.inject)
next
  case BINARY
  then show ?thesis using assms linear.cmp_on [of "\<lambda>r. GetStringView r i"]
    by (auto simp only: CompareField.simps cmp_of_sign sum.inject)
next
  case TIMESTAMP
  then show ?thesis using assms timestamp_comparison [of i] by (auto simp: Let_def)
qed (auto simp: Let_def cmp_of_def [symmetric] intro: linear.cmp_on float_order.cmp_on)

lemma nulls_first_comparison:
  assumes "comparison c" "comparison d"
  shows "comparison (\<lambda>l r. if P l \<and> P r then d l r else if P l then -1 else if P r then 1
    else if c l r \<noteq> 0 then c l r else d l r)" (is "comparison ?e")
proof -
  have cd: "comparison (\<lambda>l r. if c l r = 0 then d l r else c l r)" (is "comparison ?b")
    by (rule comparison.cmp_lexicographic) (fact assms)+
  have e: "?e = (\<lambda>l r. if P l \<and> P r then d l r else if P l then -1 else if P r then 1 else ?b l r)"
    by (intro ext) simp
  show ?thesis unfolding e
  proof (standard, goal_cases)
    case (1 x)
    show ?case using comparison.cmp_refl [OF assms(2), of x] comparison.cmp_refl [OF cd, of x] by simp
  next
    case (2 x y)
    show ?case using comparison.cmp_flip [OF assms(2), of x y] comparison.cmp_flip [OF cd, of x y]
      by (cases "P x"; cases "P y") simp_all
  next
    case (3 x y z)
    then show ?case
      using comparison.cmp_trans [OF assms(2), of x y z] comparison.cmp_trans [OF cd, of x y z]
      by (cases "P x"; cases "P y"; cases "P z") simp_all
  qed
qed

lemma compare_fields_none: "compare_fields asc [] cs = (\<lambda>l r. 0)" "compare_fields asc is [] = (\<lambda>l r. 0)"
  by (intro ext, simp) (cases "is"; intro ext; simp)

lemma compare_fields_comparison:
  "\<forall>c \<in> set cs. comparison c \<Longrightarrow> comparison (compare_fields asc is cs)"
proof (induction "is" cs rule: list_induct2')
  case (4 i "is" c cs)
  define c' where "c' = (\<lambda>l r. if asc then c l r else - c l r)"
  have c': "comparison c'"
    using 4 comparison.cmp_negated [of c] by (cases asc) (simp_all add: c'_def)
  have "compare_fields asc (i # is) (c # cs) =
    (\<lambda>l r. if IsNullAt l i \<and> IsNullAt r i then compare_fields asc is cs l r
      else if IsNullAt l i then -1 else if IsNullAt r i then 1
      else if c' l r \<noteq> 0 then c' l r else compare_fields asc is cs l r)"
    by (intro ext) (simp add: Let_def c'_def)
  then show ?case using nulls_first_comparison [OF c', of "compare_fields asc is cs"] 4 by simp
qed (simp_all add: comparison_const compare_fields_none)

lemma rmap_set: "rmap f xs = Inr ys \<Longrightarrow> y \<in> set ys \<Longrightarrow> \<exists>x \<in> set xs. f x = Inr y"
  by (induction xs arbitrary: ys) (auto simp: result_simps)

lemma FieldsComparator_comparison:
  assumes "FieldsComparator_Create types sort_idx asc = Inr fc"
  shows "comparison (FieldsComparator_CompareTo fc)"
proof -
  have "comparison c" if "c \<in> set (comparators fc)" for c
    using assms that
    by (auto simp: FieldsComparator_Create_def result_simps dest!: rmap_set
        split: if_splits intro: CompareField_comparison)
  then show ?thesis
    using compare_fields_comparison [of "comparators fc"] by (simp add: FieldsComparator_CompareTo_def [abs_def])
qed

text \<open>
  The comparator of a schema, for the interpretations of \<open>comparison\<close>: the one \<open>Create\<close> returns, or,
  where it returns an error, the comparator of no fields.
\<close>

definition schema_comparator :: "arrow_type list \<Rightarrow> nat list \<Rightarrow> bool \<Rightarrow> FieldsComparator" where
  "schema_comparator types sort_idx asc =
     (case FieldsComparator_Create types sort_idx asc of
        Inr fc \<Rightarrow> fc
      | Inl _ \<Rightarrow> \<lparr>is_ascending_order = asc, sort_fields = [], comparators = []\<rparr>)"

interpretation key_order: comparison "FieldsComparator_CompareTo (schema_comparator types sort_idx asc)"
  for types sort_idx asc
proof (cases "FieldsComparator_Create types sort_idx asc")
  case (Inr fc)
  then show "comparison (FieldsComparator_CompareTo (schema_comparator types sort_idx asc))"
    by (simp add: schema_comparator_def FieldsComparator_comparison)
next
  case (Inl e)
  then show "comparison (FieldsComparator_CompareTo (schema_comparator types sort_idx asc))"
    by (simp add: schema_comparator_def FieldsComparator_CompareTo_def [abs_def] comparison_const
        compare_fields_none)
qed

text \<open>The interface the merge tree relies on: a comparison of key rows.\<close>

locale key_comparator = comparison key_cmp for key_cmp :: row_compare

interpretation schema_keys: key_comparator "FieldsComparator_CompareTo (schema_comparator types sort_idx asc)"
  for types sort_idx asc
  by (simp add: key_comparator_def key_order.comparison_axioms)

lemma FieldsComparator_key_comparator:
  "FieldsComparator_Create types sort_idx asc = Inr fc \<Longrightarrow> key_comparator (FieldsComparator_CompareTo fc)"
  by (simp add: key_comparator_def FieldsComparator_comparison)

section \<open>Records\<close>

text \<open>
  \<open>KeyValue\<close>; the level and the sequence number are \<open>-1\<close> where unknown.
\<close>

record key_value =
  value_kind :: RowKind
  sequence_number :: int
  kv_level :: int
  kv_key :: row
  kv_value :: row

definition UNKNOWN_LEVEL :: int where
  "UNKNOWN_LEVEL = -1"

definition UNKNOWN_SEQUENCE :: int where
  "UNKNOWN_SEQUENCE = -1"

section \<open>Properties\<close>

text \<open>
  C8. Every comparator that \<open>FieldsComparator::Create\<close> returns, ascending or descending, over any
  supported field types, is a three-way total preorder on rows: reflexive, antisymmetric in sign and
  transitive, with nulls first and NaN largest. Sorting, merging and interval partitioning rely on it.
\<close>

theorem comparator_total_preorder:
  assumes "FieldsComparator_Create types sort_idx asc = Inr fc"
  shows "comparison (FieldsComparator_CompareTo fc)"
  by (rule FieldsComparator_comparison [OF assms])

theorem comparator_total_preorder_witness:
  "\<exists>fc. FieldsComparator_Create [INT32, DOUBLE, DECIMAL128 10 2] [2, 0] False = Inr fc \<and>
     comparison (FieldsComparator_CompareTo fc)"
  using comparator_total_preorder [of "[INT32, DOUBLE, DECIMAL128 10 2]" "[2, 0]" False]
  by (simp add: FieldsComparator_Create_def)

text \<open>
  C36. The byte and the short string of a row kind identify it: both are read back to the same kind, and
  a byte that is read at all is the byte of the kind read.
\<close>

theorem row_kind_roundtrip:
  "FromByteValue (ToByteValue k) = Inr k \<and> FromShortString (ShortString k) = Inr k \<and>
   (FromByteValue v = Inr k' \<longleftrightarrow> v = ToByteValue k')"
  using FromByteValue_ToByteValue FromShortString_ShortString ToByteValue_FromByteValue by auto

end
