(* ===== verification/Ranges.thy ===== *)
theory Ranges
  imports Prelude
begin

text \<open>
  Closed ranges of row ids (\<^verbatim>\<open>common/utils/range.cpp\<close>) and the index of sorted ranges with its binary
  search (\<^verbatim>\<open>common/utils/row_range_index.cpp\<close>). Each operation is shown to compute the corresponding operation on
  sets of row ids and to return sorted, disjoint ranges.
\<close>

section \<open>Ranges\<close>

record Range =
  range_from :: int
  range_to :: int

abbreviation mk_range :: "int \<Rightarrow> int \<Rightarrow> Range" where
  "mk_range a b \<equiv> \<lparr>range_from = a, range_to = b\<rparr>"

definition Count :: "Range \<Rightarrow> int" where
  "Count r = wrap64 (wrap64 (range_to r - range_from r) + 1)"

fun merge_loop :: "bool \<Rightarrow> Range \<Rightarrow> Range list \<Rightarrow> Range list" where
  "merge_loop adjacent current [] = [current]"
| "merge_loop adjacent current (next' # rest) =
     (if wrap64 (range_to current + (if adjacent then 1 else 0)) \<ge> range_from next'
      then merge_loop adjacent (mk_range (range_from current) (max (range_to current) (range_to next'))) rest
      else current # merge_loop adjacent next' rest)"

definition SortAndMergeOverlap :: "Range list \<Rightarrow> bool \<Rightarrow> Range list" where
  "SortAndMergeOverlap ranges adjacent =
     (if ranges = [] \<or> length ranges = 1 then ranges
      else let sorted_ranges = stable_sort (\<lambda>l r. range_from l < range_from r) ranges
           in merge_loop adjacent (hd sorted_ranges) (tl sorted_ranges))"

definition Intersection :: "Range \<Rightarrow> Range \<Rightarrow> Range option" where
  "Intersection l r =
     (let start = max (range_from l) (range_from r); end' = min (range_to l) (range_to r)
      in if start > end' then None else Some (mk_range start end'))"

definition HasIntersection :: "Range \<Rightarrow> Range \<Rightarrow> bool" where
  "HasIntersection l r \<longleftrightarrow> max (range_from l) (range_from r) \<le> min (range_to l) (range_to r)"

definition option_list :: "'a option \<Rightarrow> 'a list" where
  "option_list x = (case x of None \<Rightarrow> [] | Some y \<Rightarrow> [y])"

fun Range_And :: "Range list \<Rightarrow> Range list \<Rightarrow> Range list" where
  "Range_And (lhs # ls) (rhs # rs) =
     option_list (Intersection lhs rhs) @
     (if range_to lhs \<le> range_to rhs then Range_And ls (rhs # rs) else Range_And (lhs # ls) rs)"
| "Range_And _ _ = []"

fun exclude_loop :: "int \<Rightarrow> int \<Rightarrow> Range list \<Rightarrow> Range list" where
  "exclude_loop to current [] = (if current \<le> to then [mk_range current to] else [])"
| "exclude_loop to current (e # es) =
     (case Intersection (mk_range current to) e of
        None \<Rightarrow> exclude_loop to current es
      | Some x \<Rightarrow>
          (if current < range_from x then [mk_range current (wrap64 (range_from x - 1))] else []) @
          (let current' = wrap64 (range_to x + 1) in if current' > to then [] else exclude_loop to current' es))"

definition Exclude :: "Range \<Rightarrow> Range list \<Rightarrow> Range list" where
  "Exclude r ranges =
     (if ranges = [] then [r]
      else exclude_loop (range_to r) (range_from r) (stable_sort (\<lambda>a b. range_from a < range_from b) ranges))"

text \<open>The row ids of a range, of a list of ranges, and the invariant of a list of ranges in order.\<close>

definition ids :: "Range \<Rightarrow> int set" where
  "ids r = {range_from r .. range_to r}"

definition all_ids :: "Range list \<Rightarrow> int set" where
  "all_ids rs = (\<Union>r \<in> set rs. ids r)"

definition range_ok :: "Range \<Rightarrow> bool" where
  "range_ok r \<longleftrightarrow> range_from r \<le> range_to r"

text \<open>
  A range of \<open>int64_t\<close> bounds; when the code adds one to the upper bound, a range that does not end at
  the last \<open>int64_t\<close>.
\<close>

definition range_fits :: "bool \<Rightarrow> Range \<Rightarrow> bool" where
  "range_fits adjacent r \<longleftrightarrow>
     INT64_MIN \<le> range_from r \<and> range_to r \<le> INT64_MAX \<and> (adjacent \<longrightarrow> range_to r < INT64_MAX)"

definition apart :: "int \<Rightarrow> Range list \<Rightarrow> bool" where
  "apart gap rs \<longleftrightarrow> (\<forall>r \<in> set rs. range_ok r) \<and> sorted_wrt (\<lambda>a b. range_to a + gap < range_from b) rs"

lemma all_ids_simps [simp]:
  "all_ids [] = {}" "all_ids (r # rs) = ids r \<union> all_ids rs" "all_ids (xs @ ys) = all_ids xs \<union> all_ids ys"
  by (auto simp: all_ids_def)

lemma apart_Nil [simp]: "apart g []"
  by (simp add: apart_def)

lemma apart_Cons [simp]:
  "apart g (r # rs) \<longleftrightarrow> range_ok r \<and> (\<forall>x \<in> set rs. range_to r + g < range_from x) \<and> apart g rs"
  by (auto simp: apart_def)

interpretation by_from: strict_weak "\<lambda>a b. range_from a < range_from b"
  by standard auto

lemmas sorted_by_from = by_from.sorted_stable_sort

lemma wrap64_next:
  "range_ok r \<Longrightarrow> range_fits adj r \<Longrightarrow>
   wrap64 (range_to r + (if adj then 1 else 0)) = range_to r + (if adj then 1 else 0)"
  by (intro wrap64_id) (auto simp: range_ok_def range_fits_def)

lemma range_fits_merge:
  assumes "range_ok c" "range_fits adj c" "range_fits adj n"
  shows "range_ok (mk_range (range_from c) (max (range_to c) (range_to n)))"
    "range_fits adj (mk_range (range_from c) (max (range_to c) (range_to n)))"
  using assms by (auto simp: range_ok_def range_fits_def)

lemma merge_loop_ids:
  assumes "sorted_wrt (\<lambda>a b. range_from a \<le> range_from b) (c # rs)"
    "\<forall>r \<in> set (c # rs). range_ok r \<and> range_fits adj r"
  shows "all_ids (merge_loop adj c rs) = all_ids (c # rs)"
  using assms
proof (induction rs arbitrary: c)
  case (Cons n rs)
  let ?m = "mk_range (range_from c) (max (range_to c) (range_to n))"
  have w: "wrap64 (range_to c + (if adj then 1 else 0)) = range_to c + (if adj then 1 else 0)"
    using Cons.prems(2) by (intro wrap64_next) auto
  show ?case
  proof (cases "range_from n \<le> range_to c + (if adj then 1 else 0)")
    case True
    have "all_ids (merge_loop adj ?m rs) = all_ids (?m # rs)"
      using Cons.prems by (intro Cons.IH) (auto intro: range_fits_merge)
    moreover have "ids ?m = ids c \<union> ids n"
    proof -
      have "range_from c \<le> range_from n" "range_from n \<le> range_to c + 1" "range_ok c" "range_ok n"
        using True Cons.prems by (simp_all split: if_splits)
      then show ?thesis by (auto simp: ids_def range_ok_def max_def)
    qed
    ultimately show ?thesis using True w by (simp add: Un_assoc)
  next
    case False
    then show ?thesis using Cons w by simp
  qed
qed simp

lemma merge_loop_bounds:
  assumes "sorted_wrt (\<lambda>a b. range_from a \<le> range_from b) (c # rs)" "r \<in> set (merge_loop adj c rs)"
  shows "range_from c \<le> range_from r"
  using assms
proof (induction rs arbitrary: c)
  case (Cons n rs)
  show ?case
  proof (cases "range_from n \<le> wrap64 (range_to c + (if adj then 1 else 0))")
    case True
    then show ?thesis
      using Cons.IH [of "mk_range (range_from c) (max (range_to c) (range_to n))"] Cons.prems by simp
  next
    case False
    then show ?thesis using Cons.IH [of n] Cons.prems by auto
  qed
qed simp

lemma merge_loop_apart:
  assumes "sorted_wrt (\<lambda>a b. range_from a \<le> range_from b) (c # rs)"
    "\<forall>r \<in> set (c # rs). range_ok r \<and> range_fits adj r"
  shows "apart (if adj then 1 else 0) (merge_loop adj c rs)"
  using assms
proof (induction rs arbitrary: c)
  case (Cons n rs)
  have w: "wrap64 (range_to c + (if adj then 1 else 0)) = range_to c + (if adj then 1 else 0)"
    using Cons.prems(2) by (intro wrap64_next) auto
  show ?case
  proof (cases "range_from n \<le> range_to c + (if adj then 1 else 0)")
    case True
    have "apart (if adj then 1 else 0) (merge_loop adj (mk_range (range_from c) (max (range_to c) (range_to n))) rs)"
      using Cons.prems by (intro Cons.IH) (auto intro: range_fits_merge)
    then show ?thesis using True w by simp
  next
    case False
    have "apart (if adj then 1 else 0) (merge_loop adj n rs)" using Cons.prems by (intro Cons.IH) auto
    moreover have "range_from n \<le> range_from r" if "r \<in> set (merge_loop adj n rs)" for r
      using that Cons.prems by (intro merge_loop_bounds) auto
    ultimately show ?thesis using False Cons.prems w by fastforce
  qed
qed simp

lemma SortAndMergeOverlap_ids:
  assumes "\<forall>r \<in> set rs. range_ok r \<and> range_fits adj r"
  shows "all_ids (SortAndMergeOverlap rs adj) = all_ids rs"
proof (cases "rs = [] \<or> length rs = 1")
  case False
  let ?s = "stable_sort (\<lambda>l r. range_from l < range_from r) rs"
  have ne: "?s \<noteq> []" using False by (metis length_0_conv length_stable_sort)
  have "all_ids (merge_loop adj (hd ?s) (tl ?s)) = all_ids (hd ?s # tl ?s)"
    using ne sorted_by_from [of rs] assms by (intro merge_loop_ids) (simp_all add: not_less)
  then show ?thesis using False ne by (simp add: SortAndMergeOverlap_def Let_def all_ids_def)
qed (simp add: SortAndMergeOverlap_def)

lemma SortAndMergeOverlap_apart:
  assumes "\<forall>r \<in> set rs. range_ok r \<and> range_fits adj r"
  shows "apart (if adj then 1 else 0) (SortAndMergeOverlap rs adj)"
proof (cases "rs = [] \<or> length rs = 1")
  case True
  then show ?thesis using assms by (cases rs) (auto simp: SortAndMergeOverlap_def)
next
  case False
  let ?s = "stable_sort (\<lambda>l r. range_from l < range_from r) rs"
  have ne: "?s \<noteq> []" using False by (metis length_0_conv length_stable_sort)
  have "apart (if adj then 1 else 0) (merge_loop adj (hd ?s) (tl ?s))"
    using ne sorted_by_from [of rs] assms by (intro merge_loop_apart) (simp_all add: not_less)
  then show ?thesis using False by (simp add: SortAndMergeOverlap_def Let_def)
qed

lemma Intersection_ids: "all_ids (option_list (Intersection l r)) = ids l \<inter> ids r"
  by (auto simp: Intersection_def option_list_def Let_def ids_def)

lemma Intersection_Some:
  "Intersection l r = Some x \<longleftrightarrow>
   range_from x = max (range_from l) (range_from r) \<and> range_to x = min (range_to l) (range_to r) \<and> range_ok x"
  by (cases x) (auto simp: Intersection_def Let_def range_ok_def)

lemma Range_And_member:
  "x \<in> set (Range_And ls rs) \<Longrightarrow> \<exists>l \<in> set ls. \<exists>r \<in> set rs. Intersection l r = Some x"
  by (induction ls rs rule: Range_And.induct) (auto simp: option_list_def split: option.splits if_splits)

lemma Range_And_ids:
  "apart 0 ls \<Longrightarrow> apart 0 rs \<Longrightarrow> all_ids (Range_And ls rs) = all_ids ls \<inter> all_ids rs"
proof (induction ls rs rule: Range_And.induct)
  case (1 l ls r rs)
  have past: "ids x \<inter> all_ids ys = {}" if "range_to x \<le> range_to y" "apart 0 (y # ys)" for x y ys
    using that by (fastforce simp: ids_def all_ids_def)
  show ?case
  proof (cases "range_to l \<le> range_to r")
    case True
    then show ?thesis using 1 past [of l r rs] by (auto simp: Intersection_ids)
  next
    case False
    then show ?thesis using 1 past [of r l ls] by (auto simp: Intersection_ids)
  qed
qed simp_all

lemma Range_And_apart: "apart 0 ls \<Longrightarrow> apart 0 rs \<Longrightarrow> apart 0 (Range_And ls rs)"
proof (induction ls rs rule: Range_And.induct)
  case (1 l ls r rs)
  define rest where "rest = (if range_to l \<le> range_to r then Range_And ls (r # rs) else Range_And (l # ls) rs)"
  have ap: "apart 0 rest" using 1 by (simp add: rest_def)
  have after: "range_to x < range_from y" if x: "Intersection l r = Some x" and y: "y \<in> set rest" for x y
  proof (cases "range_to l \<le> range_to r")
    case True
    then obtain l' r' where "l' \<in> set ls" "Intersection l' r' = Some y"
      using y Range_And_member [of y ls "r # rs"] by (auto simp: rest_def)
    then show ?thesis using x 1(3) by (fastforce simp: Intersection_Some)
  next
    case False
    then obtain l' r' where "r' \<in> set rs" "Intersection l' r' = Some y"
      using y Range_And_member [of y "l # ls" rs] by (auto simp: rest_def)
    then show ?thesis using x 1(4) by (fastforce simp: Intersection_Some)
  qed
  have "apart 0 (option_list (Intersection l r) @ rest)"
  proof (cases "Intersection l r")
    case (Some x)
    then have "range_ok x" by (simp add: Intersection_Some)
    then show ?thesis using ap after [OF Some] Some by (simp add: option_list_def)
  qed (simp add: option_list_def ap)
  then show ?case by (simp add: rest_def)
qed simp_all

lemma exclude_loop_Some:
  assumes "Intersection (mk_range cur to) e = Some x" "INT64_MIN \<le> cur" "to < INT64_MAX"
  shows "exclude_loop to cur (e # es) =
      (if cur < range_from x then [mk_range cur (range_from x - 1)] else []) @
      (if range_to x + 1 > to then [] else exclude_loop to (range_to x + 1) es)"
    "INT64_MIN \<le> range_to x + 1" "cur \<le> range_from x" "range_from x \<le> range_to x"
proof -
  have x: "cur \<le> range_from x" "range_from x \<le> range_to x" "range_to x \<le> to"
    using assms(1) by (auto simp: Intersection_Some range_ok_def)
  have "wrap64 (range_to x + 1) = range_to x + 1" using x assms by (intro wrap64_id) simp_all
  moreover have "wrap64 (range_from x - 1) = range_from x - 1" if "cur < range_from x"
    using x assms that by (intro wrap64_id) simp_all
  ultimately show "exclude_loop to cur (e # es) =
      (if cur < range_from x then [mk_range cur (range_from x - 1)] else []) @
      (if range_to x + 1 > to then [] else exclude_loop to (range_to x + 1) es)"
    using assms(1) by (simp add: Let_def)
  show "INT64_MIN \<le> range_to x + 1" "cur \<le> range_from x" "range_from x \<le> range_to x" using x assms by simp_all
qed

lemma exclude_loop_from:
  "INT64_MIN \<le> cur \<Longrightarrow> to < INT64_MAX \<Longrightarrow> x \<in> set (exclude_loop to cur es) \<Longrightarrow> cur \<le> range_from x"
proof (induction es arbitrary: cur)
  case (Cons e es)
  show ?case
  proof (cases "Intersection (mk_range cur to) e")
    case None
    then show ?thesis using Cons by simp
  next
    case (Some y)
    note step = exclude_loop_Some [OF Some Cons.prems(1,2)]
    have "range_to y + 1 \<le> range_from x" if "x \<in> set (exclude_loop to (range_to y + 1) es)"
      using Cons.IH [OF step(2) Cons.prems(2) that] .
    then show ?thesis using Cons.prems(3) [unfolded step(1)] step(3,4) by (auto split: if_splits)
  qed
qed (simp split: if_splits)

lemma exclude_loop_ids:
  assumes "sorted_wrt (\<lambda>a b. range_from a \<le> range_from b) es" "\<forall>e \<in> set es. range_ok e" "cur \<le> to"
    "INT64_MIN \<le> cur" "to < INT64_MAX"
  shows "all_ids (exclude_loop to cur es) = {cur .. to} - all_ids es"
  using assms
proof (induction es arbitrary: cur)
  case (Cons e es)
  show ?case
  proof (cases "Intersection (mk_range cur to) e")
    case None
    then have "{cur .. to} \<inter> ids e = {}"
      using Intersection_ids [of "mk_range cur to" e] by (simp add: option_list_def ids_def)
    then show ?thesis using None Cons by auto
  next
    case (Some x)
    define before where "before = (if cur < range_from x then [mk_range cur (range_from x - 1)] else [])"
    define after where "after = (if range_to x + 1 > to then [] else exclude_loop to (range_to x + 1) es)"
    have x: "range_from x = max cur (range_from e)" "range_to x = min to (range_to e)" "range_ok x"
      using Some by (simp_all add: Intersection_Some)
    have later: "i \<notin> all_ids es" if "i < range_from e" for i
      using Cons.prems(1) that by (fastforce simp: all_ids_def ids_def)
    have "all_ids before = {cur ..< range_from x}" by (auto simp: before_def ids_def)
    moreover have "all_ids after = {range_to x + 1 .. to} - all_ids es"
      using Cons.IH [of "range_to x + 1"] Cons.prems exclude_loop_Some(2) [OF Some Cons.prems(4,5)]
      by (auto simp: after_def)
    moreover have "{cur ..< range_from x} \<union> ({range_to x + 1 .. to} - all_ids es) = {cur .. to} - (ids e \<union> all_ids es)"
      using x later Cons.prems by (auto simp: ids_def range_ok_def)
    moreover have "exclude_loop to cur (e # es) = before @ after"
      unfolding before_def after_def by (rule exclude_loop_Some [OF Some Cons.prems(4,5)])
    ultimately show ?thesis by simp
  qed
qed (auto simp: ids_def)

lemma exclude_loop_apart:
  "cur \<le> to \<Longrightarrow> INT64_MIN \<le> cur \<Longrightarrow> to < INT64_MAX \<Longrightarrow> \<forall>e \<in> set es. range_ok e \<Longrightarrow>
   apart 0 (exclude_loop to cur es)"
proof (induction es arbitrary: cur)
  case (Cons e es)
  show ?case
  proof (cases "Intersection (mk_range cur to) e")
    case None
    then show ?thesis using Cons by simp
  next
    case (Some x)
    note step = exclude_loop_Some [OF Some Cons.prems(2,3)]
    have "range_to x + 1 \<le> range_from y" if "y \<in> set (exclude_loop to (range_to x + 1) es)" for y
      using step(2) Cons.prems(3) that by (rule exclude_loop_from)
    moreover have "range_to x < to \<Longrightarrow> apart 0 (exclude_loop to (range_to x + 1) es)"
      using Cons step(2) by simp
    ultimately show ?thesis unfolding step(1) using step(4) by (fastforce simp: range_ok_def)
  qed
qed (simp add: range_ok_def)

lemma Exclude_ids:
  assumes "range_ok r" "range_fits True r" "\<forall>e \<in> set es. range_ok e"
  shows "all_ids (Exclude r es) = ids r - all_ids es"
proof -
  let ?s = "stable_sort (\<lambda>a b. range_from a < range_from b) es"
  have "all_ids (exclude_loop (range_to r) (range_from r) ?s) = {range_from r .. range_to r} - all_ids ?s"
    using assms sorted_by_from [of es] by (intro exclude_loop_ids) (simp_all add: not_less range_ok_def range_fits_def)
  then show ?thesis by (simp add: Exclude_def ids_def all_ids_def)
qed

lemma Exclude_apart:
  "range_ok r \<Longrightarrow> range_fits True r \<Longrightarrow> \<forall>e \<in> set es. range_ok e \<Longrightarrow> apart 0 (Exclude r es)"
  by (simp add: Exclude_def exclude_loop_apart range_ok_def range_fits_def)

section \<open>The index of row ranges\<close>

record RowRangeIndex =
  index_ranges :: "Range list"
  index_starts :: "int list"
  index_ends :: "int list"

definition RowRangeIndex_Create :: "Range list \<Rightarrow> bool \<Rightarrow> RowRangeIndex result" where
  "RowRangeIndex_Create ranges merge_adjacent =
     (let rs = SortAndMergeOverlap ranges merge_adjacent
      in Inr \<lparr>index_ranges = rs, index_starts = map range_from rs, index_ends = map range_to rs\<rparr>)"

function lower_bound_loop :: "int list \<Rightarrow> int \<Rightarrow> nat \<Rightarrow> nat \<Rightarrow> nat" where
  "lower_bound_loop ends target left right =
     (if left < right
      then let mid = left + (right - left) div 2 in
        if ends ! mid < target then lower_bound_loop ends target (mid + 1) right
        else lower_bound_loop ends target left mid
      else left)"
  by pat_completeness auto
termination by (relation "measure (\<lambda>(_, _, left, right). right - left)") auto

declare lower_bound_loop.simps [simp del]

definition LowerBound :: "RowRangeIndex \<Rightarrow> int \<Rightarrow> nat" where
  "LowerBound idx target = lower_bound_loop (index_ends idx) target 0 (length (index_ends idx))"

definition Intersects :: "RowRangeIndex \<Rightarrow> int \<Rightarrow> int \<Rightarrow> bool" where
  "Intersects idx start end' =
     (let candidate = LowerBound idx start
      in candidate < length (index_starts idx) \<and> index_starts idx ! candidate \<le> end')"

definition Index_Contains :: "RowRangeIndex \<Rightarrow> Range \<Rightarrow> bool" where
  "Index_Contains idx r =
     (let candidate = LowerBound idx (range_from r)
      in candidate < length (index_ranges idx) \<and> range_from (index_ranges idx ! candidate) \<le> range_from r \<and>
         range_to (index_ranges idx ! candidate) \<ge> range_to r)"

definition ContainsExactly :: "RowRangeIndex \<Rightarrow> Range \<Rightarrow> bool" where
  "ContainsExactly idx r =
     (let candidate = LowerBound idx (range_from r)
      in candidate < length (index_ranges idx) \<and> index_ranges idx ! candidate = r)"

definition clip :: "int \<Rightarrow> int \<Rightarrow> Range \<Rightarrow> Range" where
  "clip start end' r = mk_range (max start (range_from r)) (min end' (range_to r))"

definition IntersectedRanges :: "RowRangeIndex \<Rightarrow> int \<Rightarrow> int \<Rightarrow> Range list" where
  "IntersectedRanges idx start end' =
     (let rs = index_ranges idx; left = LowerBound idx start in
      if left \<ge> length rs then []
      else let right = (let r = LowerBound idx end' in if r \<ge> length rs then length rs - 1 else r) in
        if index_starts idx ! left > end' then []
        else [clip start end' (rs ! left)] @ map (\<lambda>i. rs ! i) [left + 1..<right] @
             (if right \<noteq> left \<and> range_from (rs ! right) \<le> end' then [clip start end' (rs ! right)] else []))"

text \<open>The binary search finds the first end that is not below the target.\<close>

lemma lower_bound_loop_spec:
  assumes "sorted ends" "left \<le> right" "right \<le> length ends"
    "\<forall>i < left. ends ! i < target" "\<forall>i < length ends. right \<le> i \<longrightarrow> target \<le> ends ! i"
  shows "let k = lower_bound_loop ends target left right in
    k \<le> length ends \<and> (\<forall>i < k. ends ! i < target) \<and> (\<forall>i < length ends. k \<le> i \<longrightarrow> target \<le> ends ! i)"
  using assms
proof (induction ends target left right rule: lower_bound_loop.induct)
  case (1 ends target left right)
  let ?mid = "left + (right - left) div 2"
  show ?case
  proof (cases "left < right")
    case True
    then have mid: "left \<le> ?mid" "?mid < right" by auto
    show ?thesis
    proof (cases "ends ! ?mid < target")
      case below: True
      have "ends ! i < target" if "i < ?mid + 1" for i
        using sorted_nth_mono [OF \<open>sorted ends\<close>, of i ?mid] that below mid 1(5) by simp
      then show ?thesis
        using 1(1) [OF True refl below] 1(3-) mid True below
        by (simp add: lower_bound_loop.simps [of ends target left right] Let_def)
    next
      case above: False
      have "target \<le> ends ! i" if "i < length ends" "?mid \<le> i" for i
        using sorted_nth_mono [OF \<open>sorted ends\<close>, of ?mid i] that above by simp
      then show ?thesis
        using 1(2) [OF True refl above] 1(3-) mid True above
        by (simp add: lower_bound_loop.simps [of ends target left right] Let_def)
    qed
  next
    case False
    have "lower_bound_loop ends target left right = left" using False by (subst lower_bound_loop.simps) simp
    moreover have "left = right" using False 1(4) by simp
    ultimately show ?thesis unfolding Let_def using 1(5-7) by metis
  qed
qed

lemma apart_sorted_ends: "apart 0 rs \<Longrightarrow> sorted (map range_to rs)"
  by (induction rs) (fastforce simp: range_ok_def apart_def)+

definition index_ok :: "RowRangeIndex \<Rightarrow> bool" where
  "index_ok idx \<longleftrightarrow> apart 0 (index_ranges idx) \<and> index_starts idx = map range_from (index_ranges idx) \<and>
     index_ends idx = map range_to (index_ranges idx)"

lemma LowerBound_spec:
  assumes "index_ok idx"
  shows "LowerBound idx t \<le> length (index_ranges idx)"
    "i < LowerBound idx t \<Longrightarrow> range_to (index_ranges idx ! i) < t"
    "i < length (index_ranges idx) \<Longrightarrow> LowerBound idx t \<le> i \<Longrightarrow> t \<le> range_to (index_ranges idx ! i)"
proof -
  have "sorted (index_ends idx)" using assms by (simp add: index_ok_def apart_sorted_ends)
  from lower_bound_loop_spec [OF this, of 0 "length (index_ends idx)" t]
  have k: "LowerBound idx t \<le> length (index_ends idx) \<and> (\<forall>i < LowerBound idx t. index_ends idx ! i < t) \<and>
    (\<forall>i < length (index_ends idx). LowerBound idx t \<le> i \<longrightarrow> t \<le> index_ends idx ! i)"
    by (simp add: LowerBound_def Let_def)
  show "LowerBound idx t \<le> length (index_ranges idx)" using k assms by (simp add: index_ok_def)
  show "i < LowerBound idx t \<Longrightarrow> range_to (index_ranges idx ! i) < t" using k assms by (auto simp: index_ok_def)
  show "i < length (index_ranges idx) \<Longrightarrow> LowerBound idx t \<le> i \<Longrightarrow> t \<le> range_to (index_ranges idx ! i)"
    using k assms by (auto simp: index_ok_def)
qed

lemma apart_gap_mono: "apart g rs \<Longrightarrow> h \<le> g \<Longrightarrow> apart h rs"
  unfolding apart_def by (auto elim: sorted_wrt_mono_rel [rotated])

lemma RowRangeIndex_Create_ok:
  assumes "\<forall>r \<in> set rs. range_ok r \<and> range_fits adj r" "RowRangeIndex_Create rs adj = Inr idx"
  shows "index_ok idx"
  using assms SortAndMergeOverlap_apart [of rs adj] apart_gap_mono [of _ "SortAndMergeOverlap rs adj" 0]
  by (auto simp: RowRangeIndex_Create_def index_ok_def Let_def split: if_splits)

lemma apart_nth:
  "apart 0 rs \<Longrightarrow> i < j \<Longrightarrow> j < length rs \<Longrightarrow> range_to (rs ! i) < range_from (rs ! j)"
  using sorted_wrt_nth_mono [of "\<lambda>a b. range_to a + 0 < range_from b" rs i j] by (simp add: apart_def)

lemma apart_ok: "apart 0 rs \<Longrightarrow> i < length rs \<Longrightarrow> range_from (rs ! i) \<le> range_to (rs ! i)"
  by (simp add: apart_def range_ok_def)

lemma Intersects_iff:
  assumes "index_ok idx" "s \<le> e"
  shows "Intersects idx s e \<longleftrightarrow> all_ids (index_ranges idx) \<inter> {s .. e} \<noteq> {}"
proof -
  let ?rs = "index_ranges idx" and ?k = "LowerBound idx s"
  have ap: "apart 0 ?rs" using assms by (simp add: index_ok_def)
  note lb = LowerBound_spec [OF assms(1), where t = s]
  have "\<exists>i \<in> all_ids ?rs. s \<le> i \<and> i \<le> e" if k: "?k < length ?rs" "range_from (?rs ! ?k) \<le> e"
  proof -
    have "max s (range_from (?rs ! ?k)) \<in> ids (?rs ! ?k)"
      using lb(3) [of ?k] k apart_ok [OF ap, of ?k] by (simp add: ids_def)
    then have "max s (range_from (?rs ! ?k)) \<in> all_ids ?rs" using k by (auto simp: all_ids_def)
    then show ?thesis using k assms(2) by (intro bexI [of _ "max s (range_from (?rs ! ?k))"]) simp_all
  qed
  moreover have "?k < length ?rs \<and> range_from (?rs ! ?k) \<le> e" if i: "i \<in> all_ids ?rs" "s \<le> i" "i \<le> e" for i
  proof -
    obtain j where j: "j < length ?rs" "i \<in> ids (?rs ! j)" using i by (auto simp: all_ids_def in_set_conv_nth)
    then have "?k \<le> j" using lb(2) [of j] i by (force simp: ids_def not_less)
    then show ?thesis
      using j i apart_nth [OF ap, of ?k j] apart_ok [OF ap, of ?k] by (cases "?k = j") (auto simp: ids_def)
  qed
  moreover have "Intersects idx s e \<longleftrightarrow> ?k < length ?rs \<and> range_from (?rs ! ?k) \<le> e"
    using assms by (auto simp: Intersects_def Let_def index_ok_def)
  ultimately show ?thesis by (auto simp: Int_def)
qed

text \<open>
  The intersected ranges are the non-empty intersections with every range of the index, in order:
  the binary searches skip only ranges with an empty one, and the ranges strictly between need no
  clipping.
\<close>

abbreviation meet :: "int \<Rightarrow> int \<Rightarrow> Range \<Rightarrow> Range list" where
  "meet s e r \<equiv> option_list (Intersection (mk_range s e) r)"

lemma meet_none: "range_to r < s \<or> e < range_from r \<Longrightarrow> meet s e r = []"
  by (auto simp: option_list_def Intersection_def Let_def)

lemma meet_inside: "s \<le> range_from r \<Longrightarrow> range_to r \<le> e \<Longrightarrow> range_ok r \<Longrightarrow> meet s e r = [r]"
  by (auto simp: option_list_def Intersection_def Let_def range_ok_def)

lemma meet_clip: "s \<le> range_to r \<Longrightarrow> range_from r \<le> e \<Longrightarrow> s \<le> e \<Longrightarrow> range_ok r \<Longrightarrow> meet s e r = [clip s e r]"
  by (auto simp: option_list_def Intersection_def Let_def range_ok_def clip_def)

lemma concat_map_upt_none: "(\<And>i. a \<le> i \<Longrightarrow> i < b \<Longrightarrow> f i = []) \<Longrightarrow> concat (map f [a..<b]) = []"
  by simp

lemma concat_map_upt_single:
  "(\<And>i. a \<le> i \<Longrightarrow> i < b \<Longrightarrow> f i = [g i]) \<Longrightarrow> concat (map f [a..<b]) = map g [a..<b]"
proof -
  assume "\<And>i. a \<le> i \<Longrightarrow> i < b \<Longrightarrow> f i = [g i]"
  then have "map f [a..<b] = map (\<lambda>i. [g i]) [a..<b]" by (intro map_cong) auto
  then show ?thesis by (simp only: concat_map_singleton)
qed

lemma upt_split_at: "i \<le> j \<Longrightarrow> j \<le> k \<Longrightarrow> [i..<k] = [i..<j] @ [j..<k]"
  using upt_add_eq_append [of i j "k - j"] by simp

lemma upt_split_two:
  assumes "l \<le> r" "r < n"
  shows "[0..<n] = [0..<l] @ [l] @ [l + 1..<r] @ (if r \<noteq> l then [r] else []) @ [r + 1..<n]"
proof -
  have "[0..<n] = [0..<l] @ [l..<n]" using assms by (intro upt_split_at) auto
  moreover have "[l..<n] = l # [l + 1..<n]" using assms by (simp add: upt_conv_Cons)
  moreover have "[l + 1..<n] = [l + 1..<r] @ r # [r + 1..<n]" if "r \<noteq> l"
    using assms that upt_split_at [of "l + 1" r n] by (simp add: upt_conv_Cons)
  ultimately show ?thesis using assms by auto
qed

lemma IntersectedRanges_eq:
  assumes "index_ok idx" "s \<le> e"
  shows "IntersectedRanges idx s e = concat (map (meet s e) (index_ranges idx))"
proof -
  let ?rs = "index_ranges idx" and ?l = "LowerBound idx s" and ?n = "length (index_ranges idx)"
  define r where "r = (if LowerBound idx e \<ge> ?n then ?n - 1 else LowerBound idx e)"
  have ap: "apart 0 ?rs" using assms by (simp add: index_ok_def)
  have ok: "range_ok (?rs ! i)" if "i < ?n" for i using apart_ok [OF ap that] by (simp add: range_ok_def)
  note lbs = LowerBound_spec [OF assms(1), where t = s] and lbe = LowerBound_spec [OF assms(1), where t = e]
  have nth: "concat (map (meet s e) ?rs) = concat (map (\<lambda>i. meet s e (?rs ! i)) [0..<?n])"
    by (subst (1) map_nth [symmetric]) (simp add: comp_def)
  have low: "meet s e (?rs ! i) = []" if "i < ?l" for i using lbs(2) that by (simp add: meet_none)
  consider (past) "?l \<ge> ?n" | (right) "?l < ?n" "range_from (?rs ! ?l) > e"
    | (hit) "?l < ?n" "range_from (?rs ! ?l) \<le> e" by linarith
  then show ?thesis
  proof cases
    case past
    then have "concat (map (\<lambda>i. meet s e (?rs ! i)) [0..<?n]) = []" using low by (intro concat_map_upt_none) simp
    then show ?thesis unfolding nth using past by (simp add: IntersectedRanges_def Let_def)
  next
    case right
    have "meet s e (?rs ! i) = []" if "i < ?n" for i
    proof (cases "i < ?l")
      case False
      then have "e < range_from (?rs ! i)"
        using right apart_nth [OF ap, of ?l i] apart_ok [OF ap, of ?l] that by (cases "i = ?l") simp_all
      then show ?thesis by (simp add: meet_none)
    qed (rule low)
    then have "concat (map (\<lambda>i. meet s e (?rs ! i)) [0..<?n]) = []" by (intro concat_map_upt_none)
    then show ?thesis unfolding nth using right assms(1) by (simp add: IntersectedRanges_def Let_def index_ok_def)
  next
    case hit
    have lr: "?l \<le> r"
    proof (cases "LowerBound idx e \<ge> ?n")
      case False
      have "\<not> LowerBound idx e < ?l"
      proof
        assume "LowerBound idx e < ?l"
        then show False using False lbs(2) [of "LowerBound idx e"] lbe(3) [of "LowerBound idx e"] assms(2) by simp
      qed
      then show ?thesis using False by (simp add: r_def)
    qed (use hit in \<open>simp add: r_def\<close>)
    have rn: "r < ?n" using hit by (auto simp: r_def)
    have here: "meet s e (?rs ! ?l) = [clip s e (?rs ! ?l)]"
      using lbs(3) [of ?l] hit ok assms(2) by (intro meet_clip) auto
    have between: "concat (map (\<lambda>i. meet s e (?rs ! i)) [?l + 1..<r]) = map (\<lambda>i. ?rs ! i) [?l + 1..<r]"
    proof (rule concat_map_upt_single)
      fix i assume i: "?l + 1 \<le> i" "i < r"
      have "r \<le> LowerBound idx e" unfolding r_def by (cases "LowerBound idx e \<ge> ?n") simp_all
      then have "range_to (?rs ! i) < e" using lbe(2) i by simp
      moreover have "range_to (?rs ! ?l) < range_from (?rs ! i)" using apart_nth [OF ap] i rn by simp
      moreover have "s \<le> range_to (?rs ! ?l)" using lbs(3) hit by simp
      moreover have "range_ok (?rs ! i)" using ok i rn by simp
      ultimately show "meet s e (?rs ! i) = [?rs ! i]" by (simp add: meet_inside)
    qed
    have last: "(if r \<noteq> ?l then meet s e (?rs ! r) else []) =
      (if r \<noteq> ?l \<and> range_from (?rs ! r) \<le> e then [clip s e (?rs ! r)] else [])"
    proof (cases "range_from (?rs ! r) \<le> e")
      case True
      then have "meet s e (?rs ! r) = [clip s e (?rs ! r)]"
        using lbs(3) [of r] lr rn ok assms(2) by (intro meet_clip) simp_all
      then show ?thesis using True by simp
    next
      case False
      then show ?thesis using meet_none [of "?rs ! r" s e] by simp
    qed
    have after: "concat (map (\<lambda>i. meet s e (?rs ! i)) [r + 1..<?n]) = []"
    proof (rule concat_map_upt_none)
      fix i assume i: "r + 1 \<le> i" "i < ?n"
      have "LowerBound idx e \<le> r"
      proof (cases "LowerBound idx e \<ge> ?n")
        case True
        then have "r = ?n - 1" by (simp add: r_def)
        then show ?thesis using i by linarith
      qed (simp add: r_def)
      then have "e \<le> range_to (?rs ! r)" using lbe(3) [of r] rn by simp
      moreover have "range_to (?rs ! r) < range_from (?rs ! i)"
        by (rule apart_nth [OF ap]) (use i in simp_all)
      ultimately show "meet s e (?rs ! i) = []" by (simp add: meet_none)
    qed
    have "concat (map (meet s e) ?rs) =
      concat (map (\<lambda>i. meet s e (?rs ! i)) [0..<?l]) @ meet s e (?rs ! ?l) @
      concat (map (\<lambda>i. meet s e (?rs ! i)) [?l + 1..<r]) @ (if r \<noteq> ?l then meet s e (?rs ! r) else []) @
      concat (map (\<lambda>i. meet s e (?rs ! i)) [r + 1..<?n])"
      unfolding nth upt_split_two [OF lr rn] by simp
    also have "concat (map (\<lambda>i. meet s e (?rs ! i)) [0..<?l]) = []" using low by (intro concat_map_upt_none)
    finally have "concat (map (meet s e) ?rs) = [clip s e (?rs ! ?l)] @ map (\<lambda>i. ?rs ! i) [?l + 1..<r] @
      (if r \<noteq> ?l \<and> range_from (?rs ! r) \<le> e then [clip s e (?rs ! r)] else [])"
      unfolding here between last after by (simp only: append_Nil append_Nil2)
    moreover have "\<not> index_starts idx ! ?l > e" "\<not> ?n \<le> ?l"
      using hit assms(1) by (simp_all add: index_ok_def not_le)
    ultimately show ?thesis
      unfolding IntersectedRanges_def Let_def r_def [symmetric] by (simp only: if_False)
  qed
qed

section \<open>Ranges that end at the last int64\<close>

text \<open>
  What the bound of the theorems below excludes: the sum of one and the last \<open>int64_t\<close> wraps, two overlapping
  ranges that end there are not merged, and excluding the tail of a range leaves a range that starts at the
  first \<open>int64_t\<close>.
\<close>

lemma merge_at_int64_max:
  "SortAndMergeOverlap [mk_range 0 INT64_MAX, mk_range 5 INT64_MAX] True = [mk_range 0 INT64_MAX, mk_range 5 INT64_MAX]"
  by (simp add: SortAndMergeOverlap_def Let_def wrap64_def INT64_MAX_def)

lemma exclude_at_int64_max:
  "Exclude (mk_range 0 INT64_MAX) [mk_range 5 INT64_MAX] = [mk_range 0 4, mk_range INT64_MIN INT64_MAX]"
  by (simp add: Exclude_def Intersection_def Let_def wrap64_def INT64_MIN_def INT64_MAX_def)

section \<open>Properties\<close>

text \<open>
  C29. Merging ranges of \<open>int64_t\<close> bounds keeps exactly the row ids of the input and returns ranges in
  order that do not overlap; with \<open>adjacent\<close> set no two of them touch. With \<open>adjacent\<close> the ranges must
  not end at the last \<open>int64_t\<close>: the code adds one to the end of a range before it compares.
\<close>

theorem SortAndMergeOverlap_correct:
  assumes "\<forall>r \<in> set rs. range_ok r \<and> range_fits adj r"
  shows "all_ids (SortAndMergeOverlap rs adj) = all_ids rs \<and> apart (if adj then 1 else 0) (SortAndMergeOverlap rs adj)"
  using SortAndMergeOverlap_ids [OF assms] SortAndMergeOverlap_apart [OF assms] by blast

theorem SortAndMergeOverlap_correct_witness:
  "all_ids (SortAndMergeOverlap [mk_range 4 6, mk_range 1 3] True) = all_ids [mk_range 4 6, mk_range 1 3] \<and>
   apart 1 (SortAndMergeOverlap [mk_range 4 6, mk_range 1 3] True)"
  using SortAndMergeOverlap_correct [of "[mk_range 4 6, mk_range 1 3]" True]
  by (simp add: range_ok_def range_fits_def INT64_MIN_def INT64_MAX_def)

text \<open>
  C28. The two set operations on ranges: the intersection of two lists of disjoint ranges in order, and
  the exclusion of arbitrary ranges from one, hold exactly the row ids of the set operation and are
  again disjoint and in order. The range that ids are excluded from must not end at the last \<open>int64_t\<close>,
  since the code steps to the id after an excluded part.
\<close>

theorem range_set_operations:
  assumes "apart 0 ls" "apart 0 rs" "range_ok r" "range_fits True r" "\<forall>e \<in> set es. range_ok e"
  shows "all_ids (Range_And ls rs) = all_ids ls \<inter> all_ids rs \<and> apart 0 (Range_And ls rs) \<and>
    all_ids (Exclude r es) = ids r - all_ids es \<and> apart 0 (Exclude r es)"
  using assms by (simp add: Range_And_ids Range_And_apart Exclude_ids Exclude_apart)

theorem range_set_operations_witness:
  "all_ids (Range_And [mk_range 1 5] [mk_range 3 9]) = all_ids [mk_range 1 5] \<inter> all_ids [mk_range 3 9] \<and>
   apart 0 (Range_And [mk_range 1 5] [mk_range 3 9]) \<and>
   all_ids (Exclude (mk_range 0 9) [mk_range 7 8, mk_range 2 3]) = ids (mk_range 0 9) - all_ids [mk_range 7 8, mk_range 2 3] \<and>
   apart 0 (Exclude (mk_range 0 9) [mk_range 7 8, mk_range 2 3])"
  using range_set_operations [of "[mk_range 1 5]" "[mk_range 3 9]" "mk_range 0 9" "[mk_range 7 8, mk_range 2 3]"]
  by (simp add: range_ok_def range_fits_def INT64_MIN_def INT64_MAX_def)

text \<open>
  C25. A query of the index built from any ranges with the interval from \<open>s\<close> to \<open>e\<close>: the two binary
  searches find exactly the ranges that meet the interval, clipped to it and in order, and
  \<open>Intersects\<close> tells whether there is one. As for merging, the ranges have \<open>int64_t\<close> bounds and, when
  adjacent ranges are merged, end before the last \<open>int64_t\<close>.
\<close>

theorem row_range_index_query:
  assumes "\<forall>r \<in> set rs. range_ok r \<and> range_fits adj r" "RowRangeIndex_Create rs adj = Inr idx" "s \<le> e"
  shows "IntersectedRanges idx s e = concat (map (meet s e) (index_ranges idx)) \<and>
    (Intersects idx s e \<longleftrightarrow> all_ids rs \<inter> {s .. e} \<noteq> {})"
proof -
  have ok: "index_ok idx" using RowRangeIndex_Create_ok [OF assms(1,2)] .
  have "index_ranges idx = SortAndMergeOverlap rs adj"
    using assms(2) by (auto simp: RowRangeIndex_Create_def Let_def)
  then have ids: "all_ids (index_ranges idx) = all_ids rs" by (simp only: SortAndMergeOverlap_ids [OF assms(1)])
  show ?thesis using IntersectedRanges_eq [OF ok assms(3)] Intersects_iff [OF ok assms(3), unfolded ids] by (rule conjI)
qed

theorem row_range_index_query_witness:
  "\<exists>idx. RowRangeIndex_Create [mk_range 4 6, mk_range 1 2] True = Inr idx \<and>
     IntersectedRanges idx 2 4 = concat (map (meet 2 4) (index_ranges idx)) \<and>
     (Intersects idx 2 4 \<longleftrightarrow> all_ids [mk_range 4 6, mk_range 1 2] \<inter> {2 .. 4} \<noteq> {})"
proof -
  obtain idx where idx: "RowRangeIndex_Create [mk_range 4 6, mk_range 1 2] True = Inr idx"
    by (simp only: RowRangeIndex_Create_def Let_def)
  have "\<forall>r \<in> set [mk_range 4 6, mk_range 1 2]. range_ok r \<and> range_fits True r"
    by (simp add: range_ok_def range_fits_def INT64_MIN_def INT64_MAX_def)
  from row_range_index_query [OF this idx, of 2 4] idx show ?thesis by (intro exI [of _ idx] conjI) simp_all
qed

end
