(* ===== verification/Grouping.thy ===== *)
theory Grouping
  imports Prelude "HOL-Library.Sublist"
begin

text \<open>
  Grouping of values by their intervals: \<open>RangeHelper<T>\<close> (\<^verbatim>\<open>common/utils/range_helper.h\<close>), bin packing
  (\<^verbatim>\<open>common/utils/bin_packing.h\<close>) and the coalescing of byte ranges for reads
  (\<^verbatim>\<open>common/utils/byte_range_combiner.cpp\<close>). The lemmas show that nothing is lost or duplicated, that
  groups do not overlap and that size limits hold.
\<close>

section \<open>Grouping overlapping values\<close>

text \<open>
  \<open>RangeHelper<T>\<close> with its two fallible functions as parameters. The second sort restores the input
  order inside a group.
\<close>

fun all_same_loop :: "('a \<Rightarrow> int result) \<Rightarrow> ('a \<Rightarrow> int result) \<Rightarrow> int \<Rightarrow> int \<Rightarrow> 'a list \<Rightarrow> bool result" where
  "all_same_loop start_func end_func first_start first_end [] = Inr True"
| "all_same_loop start_func end_func first_start first_end (x # xs) =
     rbind (start_func x) (\<lambda>current_start. rbind (end_func x) (\<lambda>current_end.
       if current_start \<noteq> first_start \<or> current_end \<noteq> first_end then Inr False
       else all_same_loop start_func end_func first_start first_end xs))"

definition AreAllRangesSame :: "('a \<Rightarrow> int result) \<Rightarrow> ('a \<Rightarrow> int result) \<Rightarrow> 'a list \<Rightarrow> bool result" where
  "AreAllRangesSame start_func end_func ranges =
     (case ranges of [] \<Rightarrow> Inr True
      | first # rest \<Rightarrow> rbind (start_func first) (\<lambda>first_start. rbind (end_func first) (\<lambda>first_end.
          all_same_loop start_func end_func first_start first_end rest)))"

record 'a IndexedValue =
  iv_value :: 'a
  original_idx :: nat
  iv_start :: int
  iv_end :: int

fun index_values :: "('a \<Rightarrow> int result) \<Rightarrow> ('a \<Rightarrow> int result) \<Rightarrow> nat \<Rightarrow> 'a list \<Rightarrow> 'a IndexedValue list result" where
  "index_values start_func end_func i [] = Inr []"
| "index_values start_func end_func i (x # xs) =
     rbind (start_func x) (\<lambda>start. rbind (end_func x) (\<lambda>end'.
       rbind (index_values start_func end_func (Suc i) xs) (\<lambda>rest.
         Inr (\<lparr>iv_value = x, original_idx = i, iv_start = start, iv_end = end'\<rparr> # rest))))"

fun group_loop :: "'a IndexedValue list \<Rightarrow> int \<Rightarrow> 'a IndexedValue list \<Rightarrow> 'a IndexedValue list list" where
  "group_loop current_group current_end [] = [current_group]"
| "group_loop current_group current_end (c # cs) =
     (if iv_start c \<le> current_end
      then group_loop (current_group @ [c]) (if iv_end c > current_end then iv_end c else current_end) cs
      else current_group # group_loop [c] (iv_end c) cs)"

definition iv_less :: "'a IndexedValue \<Rightarrow> 'a IndexedValue \<Rightarrow> bool" where
  "iv_less r1 r2 \<longleftrightarrow> (if iv_start r1 \<noteq> iv_start r2 then iv_start r1 < iv_start r2 else iv_end r1 < iv_end r2)"

definition restore_order :: "'a IndexedValue list \<Rightarrow> 'a list" where
  "restore_order g = map iv_value (stable_sort (\<lambda>a b. original_idx a < original_idx b) g)"

definition MergeOverlappingRanges ::
  "('a \<Rightarrow> int result) \<Rightarrow> ('a \<Rightarrow> int result) \<Rightarrow> 'a list \<Rightarrow> 'a list list result" where
  "MergeOverlappingRanges start_func end_func ranges =
     (if ranges = [] then Inr []
      else rbind (index_values start_func end_func 0 ranges) (\<lambda>ivs.
        let index_ranges = stable_sort iv_less ivs;
            groups = group_loop [hd index_ranges] (iv_end (hd index_ranges)) (tl index_ranges)
        in Inr (map restore_order groups)))"

lemma index_values_facts:
  assumes "index_values sf ef i xs = Inr ivs"
  shows "map iv_value ivs = xs \<and> (\<forall>v \<in> set ivs. sf (iv_value v) = Inr (iv_start v) \<and> ef (iv_value v) = Inr (iv_end v))"
  using assms by (induction xs arbitrary: i ivs) (auto simp: result_simps)

lemma index_values_idx: "index_values sf ef i xs = Inr ivs \<Longrightarrow> map original_idx ivs = [i..<i + length xs]"
proof (induction xs arbitrary: i ivs)
  case (Cons x xs)
  have "[i..<i + length (x # xs)] = i # [Suc i..<Suc i + length xs]" by (simp add: upt_conv_Cons del: upt_Suc)
  then show ?case using Cons by (auto simp: result_simps)
qed simp

interpretation iv_order: strict_weak iv_less
  by standard (auto simp: iv_less_def split: if_splits)

lemma concat_group_loop: "concat (group_loop g e cs) = g @ cs"
  by (induction cs arbitrary: g e) auto

lemma group_loop_nonempty: "g \<noteq> [] \<Longrightarrow> [] \<notin> set (group_loop g e cs)"
  by (induction cs arbitrary: g e) auto

definition before_all :: "'a IndexedValue list \<Rightarrow> 'a IndexedValue list \<Rightarrow> bool" where
  "before_all g h \<longleftrightarrow> (\<forall>x \<in> set g. \<forall>y \<in> set h. iv_end x < iv_start y)"

lemma group_loop_separated:
  assumes "sorted_wrt (\<lambda>a b. iv_start a \<le> iv_start b) cs" "\<forall>x \<in> set g. iv_end x \<le> e"
  shows "sorted_wrt before_all (group_loop g e cs)"
  using assms
proof (induction cs arbitrary: g e)
  case (Cons c cs)
  show ?case
  proof (cases "iv_start c \<le> e")
    case True
    then show ?thesis using Cons.prems by (fastforce intro!: Cons.IH)
  next
    case False
    have "before_all g h" if "h \<in> set (group_loop [c] (iv_end c) cs)" for h
      unfolding before_all_def
    proof (intro ballI)
      fix x y assume "x \<in> set g" "y \<in> set h"
      moreover have "set h \<subseteq> set (c # cs)" using that concat_group_loop [of "[c]" "iv_end c" cs]
        by (metis UN_upper append_Cons append_Nil set_concat)
      ultimately show "iv_end x < iv_start y" using False Cons.prems by fastforce
    qed
    moreover have "sorted_wrt before_all (group_loop [c] (iv_end c) cs)" using Cons by simp
    ultimately show ?thesis using False by simp
  qed
qed simp

text \<open>
  A set is connected by a relation when any two members are joined by steps of the relation inside
  the set. Two closed intervals meet when one starts inside the other.
\<close>

definition connected :: "('a \<Rightarrow> 'a \<Rightarrow> bool) \<Rightarrow> 'a set \<Rightarrow> bool" where
  "connected R S \<longleftrightarrow> (\<forall>x \<in> S. \<forall>y \<in> S. (\<lambda>a b. a \<in> S \<and> b \<in> S \<and> R a b)\<^sup>*\<^sup>* x y)"

definition starts_inside :: "int \<Rightarrow> int \<Rightarrow> int \<Rightarrow> bool" where
  "starts_inside s e s' \<longleftrightarrow> s \<le> s' \<and> s' \<le> e"

definition iv_meet :: "'a IndexedValue \<Rightarrow> 'a IndexedValue \<Rightarrow> bool" where
  "iv_meet a b \<longleftrightarrow> starts_inside (iv_start a) (iv_end a) (iv_start b) \<or> starts_inside (iv_start b) (iv_end b) (iv_start a)"

definition ranges_meet :: "('a \<Rightarrow> int result) \<Rightarrow> ('a \<Rightarrow> int result) \<Rightarrow> 'a \<Rightarrow> 'a \<Rightarrow> bool" where
  "ranges_meet start_func end_func x y \<longleftrightarrow>
     (case (start_func x, end_func x, start_func y, end_func y) of
        (Inr s, Inr e, Inr s', Inr e') \<Rightarrow> starts_inside s e s' \<or> starts_inside s' e' s
      | _ \<Rightarrow> False)"

lemma connected_singleton: "connected R {x}"
  by (simp add: connected_def)

lemma connected_insert:
  assumes "connected R S" "x \<in> S" "R x c" "R c x"
  shows "connected R (insert c S)"
proof -
  let ?T = "\<lambda>a b. a \<in> insert c S \<and> b \<in> insert c S \<and> R a b"
  have old: "?T\<^sup>*\<^sup>* a b" if "a \<in> S" "b \<in> S" for a b
  proof -
    have "(\<lambda>a b. a \<in> S \<and> b \<in> S \<and> R a b)\<^sup>*\<^sup>* a b" using assms(1) that by (simp add: connected_def)
    then show ?thesis by (rule rtranclp_mono [THEN predicate2D, rotated]) blast
  qed
  have "?T\<^sup>*\<^sup>* a c" if "a \<in> S" for a
    using old [OF that assms(2)] by (rule rtranclp.rtrancl_into_rtrancl) (use assms in simp)
  moreover have "?T\<^sup>*\<^sup>* c a" if "a \<in> S" for a
    by (rule converse_rtranclp_into_rtranclp [OF _ old [OF assms(2) that]]) (use assms in simp)
  ultimately show ?thesis using old by (auto simp: connected_def)
qed

lemma connected_image:
  assumes "connected R S" "\<And>a b. a \<in> S \<Longrightarrow> b \<in> S \<Longrightarrow> R a b \<Longrightarrow> R' (f a) (f b)"
  shows "connected R' (f ` S)"
proof -
  let ?T = "\<lambda>a b. a \<in> f ` S \<and> b \<in> f ` S \<and> R' a b"
  have "?T\<^sup>*\<^sup>* (f x) (f y)" if "(\<lambda>a b. a \<in> S \<and> b \<in> S \<and> R a b)\<^sup>*\<^sup>* x y" for x y
    using that
  proof (induction rule: rtranclp_induct)
    case (step y z)
    then have "?T (f y) (f z)" using assms(2) by blast
    then show ?case using step.IH by (rule rtranclp.rtrancl_into_rtrancl [rotated])
  qed simp
  then show ?thesis using assms(1) by (auto simp: connected_def)
qed

lemma group_loop_connected:
  assumes "sorted_wrt (\<lambda>a b. iv_start a \<le> iv_start b) (g @ cs)" "connected iv_meet (set g)" "e \<in> iv_end ` set g"
    "h \<in> set (group_loop g e cs)"
  shows "connected iv_meet (set h)"
  using assms
proof (induction cs arbitrary: g e)
  case (Cons c cs)
  show ?case
  proof (cases "iv_start c \<le> e")
    case True
    obtain x where x: "x \<in> set g" "iv_end x = e" using Cons.prems(3) by auto
    then have "iv_start x \<le> iv_start c" using Cons.prems(1) by (simp add: sorted_wrt_append)
    then have "iv_meet x c" "iv_meet c x" using x True by (simp_all add: iv_meet_def starts_inside_def)
    then have "connected iv_meet (set (g @ [c]))" using connected_insert [OF Cons.prems(2) x(1)] by simp
    then show ?thesis
      using Cons.prems x True by (intro Cons.IH [of "g @ [c]" "if iv_end c > e then iv_end c else e"]) auto
  next
    case False
    have "sorted_wrt (\<lambda>a b. iv_start a \<le> iv_start b) ([c] @ cs)" using Cons.prems(1) by (simp add: sorted_wrt_append)
    then have "h \<in> set (group_loop [c] (iv_end c) cs) \<Longrightarrow> ?thesis"
      by (rule Cons.IH) (simp_all add: connected_singleton)
    then show ?thesis using False Cons.prems(2,4) by auto
  qed
qed simp

text \<open>Sorting a group by the original position gives the group as a subsequence of the input.\<close>

interpretation by_idx: strict_weak "\<lambda>a b. original_idx a < original_idx b"
  by standard auto

lemma by_position:
  assumes "sorted (map original_idx ivs)" "distinct (map original_idx ivs)" "distinct g" "set g \<subseteq> set ivs"
  shows "stable_sort (\<lambda>a b. original_idx a < original_idx b) g = filter (\<lambda>v. v \<in> set g) ivs" (is "?s = ?f")
proof -
  have inj: "inj_on original_idx (set ivs)" using assms(2) by (simp add: distinct_map)
  have sets: "set ?s = set g" "set ?f = set g" using assms(4) by auto
  have d: "distinct ?s" using assms(3) by (metis mset_eq_imp_distinct_iff mset_stable_sort)
  have "sorted (map original_idx ?s)"
    using by_idx.sorted_stable_sort [of g] by (simp add: sorted_map not_less)
  moreover have "distinct (map original_idx ?s)"
    using d inj assms(4) sets(1) by (simp add: distinct_map inj_on_subset)
  moreover have "sorted (map original_idx ?f)" "distinct (map original_idx ?f)"
    using assms(1,2) by (simp_all add: sorted_filter distinct_map_filter)
  moreover have "set (map original_idx ?s) = set (map original_idx ?f)" using sets by simp
  ultimately have "map original_idx ?s = map original_idx ?f" by (rule sorted_distinct_set_unique)
  then show ?thesis using inj assms(4) sets by (intro map_inj_on [of original_idx]) (auto intro: inj_on_subset)
qed

lemma restore_order_subseq:
  assumes "sorted (map original_idx ivs)" "distinct (map original_idx ivs)" "distinct g" "set g \<subseteq> set ivs"
  shows "subseq (restore_order g) (map iv_value ivs)"
  unfolding restore_order_def by_position [OF assms] by (rule subseq_map) simp

lemma set_restore_order [simp]: "set (restore_order g) = iv_value ` set g"
  by (simp add: restore_order_def)

lemma restore_order_Nil [simp]: "restore_order g = [] \<longleftrightarrow> g = []"
  by (metis image_is_empty set_empty set_restore_order)

lemma mset_concat_restore_order: "mset (concat (map restore_order gs)) = image_mset iv_value (mset (concat gs))"
  by (induction gs) (simp_all add: restore_order_def)

lemma group_subseq:
  assumes "index_values sf ef 0 xs = Inr ivs" "mset (concat groups) = mset ivs" "g \<in> set groups"
  shows "subseq (restore_order g) xs"
proof -
  note idx = index_values_idx [OF assms(1)]
  have "distinct ivs" using idx by (metis distinct_map distinct_upt)
  then have "distinct (concat groups)" using assms(2) mset_eq_imp_distinct_iff by blast
  then have "distinct g" using assms(3) by (simp add: distinct_concat_iff)
  moreover have "set g \<subseteq> set ivs" using assms(2,3) by (metis UN_upper set_concat set_mset_mset)
  ultimately have "subseq (restore_order g) (map iv_value ivs)" using idx by (intro restore_order_subseq) simp_all
  then show ?thesis using index_values_facts [OF assms(1)] by simp
qed

text \<open>The groups as the function builds them: the sorted values cut where a gap appears.\<close>

lemma MergeOverlappingRanges_cases:
  assumes "MergeOverlappingRanges sf ef xs = Inr gs"
  obtains ivs groups where "map iv_value ivs = xs" "gs = map restore_order groups"
    "mset (concat groups) = mset ivs" "[] \<notin> set groups" "sorted_wrt before_all groups"
    "\<And>v. v \<in> set ivs \<Longrightarrow> sf (iv_value v) = Inr (iv_start v) \<and> ef (iv_value v) = Inr (iv_end v)"
    "\<And>g. g \<in> set groups \<Longrightarrow> connected iv_meet (set g)"
    "\<And>g. g \<in> set groups \<Longrightarrow> subseq (restore_order g) xs"
proof (cases "xs = []")
  case True
  then show thesis using that [of "[]" "[]"] assms by (simp add: MergeOverlappingRanges_def)
next
  case False
  then obtain ivs where ivs: "index_values sf ef 0 xs = Inr ivs"
    using assms by (auto simp: MergeOverlappingRanges_def result_simps)
  note facts = index_values_facts [OF ivs]
  define srt where "srt = stable_sort iv_less ivs"
  define groups where "groups = group_loop [hd srt] (iv_end (hd srt)) (tl srt)"
  have ne: "srt \<noteq> []" using False facts by (auto simp: srt_def dest: arg_cong [where f = length])
  have sorted: "sorted_wrt (\<lambda>a b. iv_start a \<le> iv_start b) srt"
    using iv_order.sorted_stable_sort [of ivs]
    unfolding srt_def by (rule sorted_wrt_mono_rel [rotated]) (auto simp: iv_less_def split: if_splits)
  then have "sorted_wrt before_all groups"
    unfolding groups_def using ne by (intro group_loop_separated) (cases srt; simp)+
  moreover have conc: "concat groups = srt" using ne by (simp add: groups_def concat_group_loop)
  moreover have "connected iv_meet (set g)" if "g \<in> set groups" for g
    by (rule group_loop_connected [OF _ _ _ that [unfolded groups_def]])
      (use ne sorted in \<open>simp_all add: connected_singleton\<close>)
  moreover have "subseq (restore_order g) xs" if "g \<in> set groups" for g
    using group_subseq [OF ivs, of groups] conc that by (simp add: srt_def)
  moreover have "[] \<notin> set groups" by (simp add: groups_def group_loop_nonempty)
  moreover have "gs = map restore_order groups"
    using assms ivs False by (simp add: MergeOverlappingRanges_def Let_def srt_def groups_def)
  ultimately show thesis using that [of ivs groups] facts by (simp add: srt_def)
qed

lemma MergeOverlappingRanges_groups:
  assumes "MergeOverlappingRanges sf ef xs = Inr gs"
  shows "mset (concat gs) = mset xs" "[] \<notin> set gs"
    "sorted_wrt (\<lambda>g h. \<forall>x \<in> set g. \<forall>y \<in> set h. \<exists>e s. ef x = Inr e \<and> sf y = Inr s \<and> e < s) gs"
    "\<forall>g \<in> set gs. connected (ranges_meet sf ef) (set g) \<and> subseq g xs"
proof -
  obtain ivs groups where f: "map iv_value ivs = xs" "gs = map restore_order groups"
    "mset (concat groups) = mset ivs" "[] \<notin> set groups" "sorted_wrt before_all groups"
    and ends: "\<And>v. v \<in> set ivs \<Longrightarrow> sf (iv_value v) = Inr (iv_start v) \<and> ef (iv_value v) = Inr (iv_end v)"
    and conn: "\<And>g. g \<in> set groups \<Longrightarrow> connected iv_meet (set g)"
    and seq: "\<And>g. g \<in> set groups \<Longrightarrow> subseq (restore_order g) xs"
    using MergeOverlappingRanges_cases [OF assms] by metis
  show "mset (concat gs) = mset xs" using f by (simp add: mset_concat_restore_order) (metis mset_map)
  show "[] \<notin> set gs" using f(2,4) restore_order_Nil by (metis imageE list.set_map)
  have sub: "set g \<subseteq> set ivs" if "g \<in> set groups" for g
    using that f(3) by (metis UN_upper set_concat set_mset_mset)
  have "connected (ranges_meet sf ef) (iv_value ` set g)" if g: "g \<in> set groups" for g
    using conn [OF g]
  proof (rule connected_image)
    fix a b assume ab: "a \<in> set g" "b \<in> set g" "iv_meet a b"
    then have "a \<in> set ivs" "b \<in> set ivs" using sub [OF g] by auto
    then show "ranges_meet sf ef (iv_value a) (iv_value b)"
      using ends [of a] ends [of b] ab(3) by (simp add: ranges_meet_def iv_meet_def)
  qed
  then show "\<forall>g \<in> set gs. connected (ranges_meet sf ef) (set g) \<and> subseq g xs" using seq by (auto simp: f(2))
  show "sorted_wrt (\<lambda>g h. \<forall>x \<in> set g. \<forall>y \<in> set h. \<exists>e s. ef x = Inr e \<and> sf y = Inr s \<and> e < s) gs"
    unfolding f(2) sorted_wrt_map
  proof (rule sorted_wrt_mono_rel [OF _ f(5)], intro ballI)
    fix g h x y assume gh: "g \<in> set groups" "h \<in> set groups" "before_all g h"
      and xy: "x \<in> set (restore_order g)" "y \<in> set (restore_order h)"
    obtain v w where "v \<in> set g" "w \<in> set h" "x = iv_value v" "y = iv_value w" using xy by auto
    moreover from this have "v \<in> set ivs" "w \<in> set ivs" using sub gh by auto
    ultimately show "\<exists>e s. ef x = Inr e \<and> sf y = Inr s \<and> e < s"
      using ends gh(3) by (auto simp: before_all_def)
  qed
qed

section \<open>Bin packing\<close>

fun pack_loop :: "('a \<Rightarrow> int) \<Rightarrow> int \<Rightarrow> 'a list \<Rightarrow> int \<Rightarrow> 'a list \<Rightarrow> 'a list list" where
  "pack_loop weight_func target bin_items bin_weight [] = (if bin_items \<noteq> [] then [bin_items] else [])"
| "pack_loop weight_func target bin_items bin_weight (item # items) =
     (let weight = weight_func item in
      if wrap64 (bin_weight + weight) > target \<and> bin_items \<noteq> []
      then bin_items # pack_loop weight_func target [item] (wrap64 (0 + weight)) items
      else pack_loop weight_func target (bin_items @ [item]) (wrap64 (bin_weight + weight)) items)"

definition PackForOrdered :: "'a list \<Rightarrow> ('a \<Rightarrow> int) \<Rightarrow> int \<Rightarrow> 'a list list" where
  "PackForOrdered items weight_func target = pack_loop weight_func target [] 0 items"

lemma pack_loop_concat: "concat (pack_loop w t b bw items) = b @ items"
  by (induction items arbitrary: b bw) (auto simp: Let_def)

lemma pack_loop_nonempty: "[] \<notin> set (pack_loop w t b bw items)"
  by (induction items arbitrary: b bw) (auto simp: Let_def)

text \<open>Weights that are not negative and whose total is an \<open>int64_t\<close>: no sum of the loop wraps.\<close>

definition packable :: "('a \<Rightarrow> int) \<Rightarrow> 'a list \<Rightarrow> int \<Rightarrow> 'a list \<Rightarrow> bool" where
  "packable w b bw items \<longleftrightarrow> (\<forall>x \<in> set (b @ items). 0 \<le> w x) \<and> bw = sum_list (map w b) \<and>
     bw + sum_list (map w items) \<le> INT64_MAX"

lemma packable_step:
  assumes "packable w b bw (x # xs)"
  shows "packable w [x] (w x) xs" "packable w (b @ [x]) (bw + w x) xs"
    "pack_loop w t b bw (x # xs) =
      (if bw + w x > t \<and> b \<noteq> [] then b # pack_loop w t [x] (w x) xs else pack_loop w t (b @ [x]) (bw + w x) xs)"
proof -
  have p: "0 \<le> w x" "0 \<le> bw" "0 \<le> sum_list (map w xs)" "bw + w x + sum_list (map w xs) \<le> INT64_MAX"
    using assms by (auto simp: packable_def intro!: sum_list_nonneg)
  then have "wrap64 (bw + w x) = bw + w x" "wrap64 (w x) = w x"
    by (simp_all add: wrap64_id INT64_MIN_def)
  then show "pack_loop w t b bw (x # xs) =
      (if bw + w x > t \<and> b \<noteq> [] then b # pack_loop w t [x] (w x) xs else pack_loop w t (b @ [x]) (bw + w x) xs)"
    by (simp add: Let_def)
  show "packable w [x] (w x) xs" "packable w (b @ [x]) (bw + w x) xs"
    using assms p by (auto simp: packable_def)
qed

text \<open>A bin over the target holds one item, and no two neighbouring bins would fit into one.\<close>

lemma pack_loop_limit:
  assumes "packable w b bw items" "length b \<le> 1 \<or> bw \<le> t" "bin \<in> set (pack_loop w t b bw items)"
  shows "length bin \<le> 1 \<or> sum_list (map w bin) \<le> t"
  using assms
proof (induction items arbitrary: b bw)
  case (Cons x xs)
  note step = packable_step [OF Cons.prems(1)]
  show ?case
  proof (cases "bw + w x > t \<and> b \<noteq> []")
    case True
    then have "bin = b \<or> bin \<in> set (pack_loop w t [x] (w x) xs)" using Cons.prems(3) [unfolded step(3)] by simp
    then show ?thesis using Cons.prems(1,2) Cons.IH [OF step(1)] by (auto simp: packable_def)
  next
    case False
    then have "bin \<in> set (pack_loop w t (b @ [x]) (bw + w x) xs)" using Cons.prems(3) [unfolded step(3)] by auto
    then show ?thesis using False by (intro Cons.IH [OF step(2)]) auto
  qed
qed (auto simp: packable_def split: if_splits)

lemma pack_loop_tight:
  assumes "packable w b bw items"
  shows "successively (\<lambda>g h. sum_list (map w g) + w (hd h) > t) (pack_loop w t b bw items)"
proof -
  have head: "pack_loop w t b bw xs = c # cs \<Longrightarrow> b \<noteq> [] \<Longrightarrow> hd c = hd b" for b bw xs c cs
    by (induction xs arbitrary: b bw) (auto simp: Let_def split: if_splits)
  show ?thesis using assms
  proof (induction items arbitrary: b bw)
    case (Cons x xs)
    note step = packable_step [OF Cons.prems(1)]
    show ?case
    proof (cases "bw + w x > t \<and> b \<noteq> []")
      case True
      have "bw = sum_list (map w b)" using Cons.prems by (simp add: packable_def)
      then show ?thesis unfolding step(3) using True Cons.IH [OF step(1)] head [of "[x]" "w x" xs]
        by (cases "pack_loop w t [x] (w x) xs") auto
    next
      case False
      then show ?thesis unfolding step(3) using Cons.IH [OF step(2)] by auto
    qed
  qed simp
qed

lemma PackForOrdered_concat: "concat (PackForOrdered items w t) = items"
  by (simp add: PackForOrdered_def pack_loop_concat)

section \<open>Coalescing byte ranges\<close>

text \<open>
  Offsets and lengths are \<open>uint64_t\<close>. The bound tested first keeps every end below \<open>2\<^sup>6\<^sup>3\<close>, so that only
  the addition of the hole limit can wrap, which is written out.
\<close>

record ByteRange =
  br_offset :: nat
  br_length :: nat

abbreviation mk_bytes :: "nat \<Rightarrow> nat \<Rightarrow> ByteRange" where
  "mk_bytes o' l \<equiv> \<lparr>br_offset = o', br_length = l\<rparr>"

definition br_end :: "ByteRange \<Rightarrow> nat" where
  "br_end r = br_offset r + br_length r"

definition br_Contains :: "ByteRange \<Rightarrow> ByteRange \<Rightarrow> bool" where
  "br_Contains a b \<longleftrightarrow> br_offset a \<le> br_offset b \<and> br_end b \<le> br_end a"

definition kMaxRangeValue :: nat where
  "kMaxRangeValue = 2 ^ 63 - 1"

function split_range :: "nat \<Rightarrow> nat \<Rightarrow> nat \<Rightarrow> ByteRange list" where
  "split_range limit range_start range_end =
     (if limit > 0 \<and> range_end - range_start > limit
      then mk_bytes range_start limit # split_range limit (range_start + limit) range_end
      else if range_end > range_start then [mk_bytes range_start (range_end - range_start)] else [])"
  by pat_completeness auto
termination by (relation "measure (\<lambda>(_, s, e). e - s)") auto

declare split_range.simps [simp del]

definition br_less :: "ByteRange \<Rightarrow> ByteRange \<Rightarrow> bool" where
  "br_less a b \<longleftrightarrow> (if br_offset a \<noteq> br_offset b then br_offset a < br_offset b else br_length a > br_length b)"

text \<open>The loop over the sorted ranges that drops a range inside the last one kept.\<close>

fun unique_loop :: "ByteRange list \<Rightarrow> ByteRange list \<Rightarrow> ByteRange list" where
  "unique_loop kept [] = kept"
| "unique_loop kept (r # rs) =
     (if kept = [] \<or> \<not> br_Contains (last kept) r then unique_loop (kept @ [r]) rs else unique_loop kept rs)"

fun coalesce_loop :: "nat \<Rightarrow> nat \<Rightarrow> nat \<Rightarrow> nat \<Rightarrow> ByteRange list \<Rightarrow> ByteRange list" where
  "coalesce_loop hole limit cstart cend [] = [mk_bytes cstart (cend - cstart)]"
| "coalesce_loop hole limit cstart cend (r # rs) =
     (if br_end r - cstart > limit \<or> br_offset r > (cend + hole) mod 2 ^ 64
      then mk_bytes cstart (cend - cstart) # coalesce_loop hole limit (br_offset r) (br_end r) rs
      else coalesce_loop hole limit cstart (br_end r) rs)"

fun out_of_order :: "ByteRange list \<Rightarrow> bool" where
  "out_of_order (a # b # rs) \<longleftrightarrow> br_offset a \<ge> br_offset b \<or> br_Contains a b \<or> out_of_order (b # rs)"
| "out_of_order _ \<longleftrightarrow> False"

definition CoalesceByteRanges :: "ByteRange list \<Rightarrow> nat \<Rightarrow> nat \<Rightarrow> ByteRange list result" where
  "CoalesceByteRanges ranges hole limit =
     (if limit \<le> hole then Inl (Invalid ''range size limit {} should be larger than hole size limit {}'')
      else if ranges = [] then Inr ranges
      else if \<exists>r \<in> set ranges. br_offset r > kMaxRangeValue \<or> br_length r > kMaxRangeValue \<or> br_end r > kMaxRangeValue
      then Inl (Invalid ''byte range (offset={}, length={}) exceeds the int64 bound'')
      else let adjusted = concat (map (\<lambda>r. split_range limit (br_offset r) (br_end r)) ranges);
               sorted' = stable_sort br_less (filter (\<lambda>r. br_length r \<noteq> 0) adjusted);
               unique_ranges = unique_loop [] sorted'
        in if unique_ranges = [] then Inr []
           else if out_of_order unique_ranges then Inl (Invalid ''Byte ranges must be non-overlapping and sorted.'')
           else Inr (coalesce_loop hole limit (br_offset (hd unique_ranges)) (br_end (hd unique_ranges)) (tl unique_ranges)))"

definition br_bytes :: "ByteRange \<Rightarrow> nat set" where
  "br_bytes r = {br_offset r ..< br_end r}"

definition increasing :: "ByteRange list \<Rightarrow> bool" where
  "increasing rs \<longleftrightarrow> sorted_wrt (\<lambda>a b. br_offset a < br_offset b \<and> br_end a < br_end b) rs"

lemma br_end_mk [simp]: "br_end (mk_bytes a l) = a + l"
  by (simp add: br_end_def)

lemma split_range_covers:
  "0 < limit \<Longrightarrow> (\<Union>p \<in> set (split_range limit s e). br_bytes p) = {s ..< e}"
proof (induction limit s e rule: split_range.induct)
  case (1 limit s e)
  show ?case
  proof (cases "e - s > limit")
    case True
    then have "{s ..< e} = {s ..< s + limit} \<union> {s + limit ..< e}" by auto
    then show ?thesis using True 1 by (simp add: split_range.simps [of limit s e] br_bytes_def)
  next
    case False
    then show ?thesis by (auto simp: split_range.simps [of limit s e] br_bytes_def)
  qed
qed

lemma split_range_size:
  "p \<in> set (split_range limit s e) \<Longrightarrow> 0 < limit \<Longrightarrow> 0 < br_length p \<and> br_length p \<le> limit"
proof (induction limit s e rule: split_range.induct)
  case (1 limit s e)
  then show ?case
    by (cases "e - s > limit") (auto simp: split_range.simps [of limit s e] split: if_splits)
qed

interpretation br_order: strict_weak br_less
  by standard (auto simp: br_less_def split: if_splits)

lemma unique_loop_spec:
  assumes "sorted_wrt (\<lambda>a b. \<not> br_less b a) rs" "increasing kept" "\<forall>k \<in> set kept. \<forall>r \<in> set rs. \<not> br_less r k"
  shows "increasing (unique_loop kept rs) \<and> set (unique_loop kept rs) \<subseteq> set kept \<union> set rs \<and>
    (\<forall>r \<in> set kept \<union> set rs. \<exists>u \<in> set (unique_loop kept rs). br_Contains u r)"
  using assms
proof (induction rs arbitrary: kept)
  case Nil
  then show ?case by (auto simp: br_Contains_def)
next
  case (Cons r rs)
  show ?case
  proof (cases "kept = [] \<or> \<not> br_Contains (last kept) r")
    case True
    have "br_offset k < br_offset r \<and> br_end k < br_end r" if "k \<in> set kept" for k
    proof -
      have "kept \<noteq> []" using that by auto
      then have l: "\<not> br_Contains (last kept) r" "\<not> br_less r (last kept)" using True Cons.prems by auto
      have "k = last kept \<or> br_offset k < br_offset (last kept) \<and> br_end k < br_end (last kept)"
        using sorted_wrt_last [OF Cons.prems(2) [unfolded increasing_def] that] by blast
      then show ?thesis using l by (auto simp: br_Contains_def br_less_def br_end_def split: if_splits)
    qed
    then have "increasing (kept @ [r])" using Cons.prems(2) by (simp add: increasing_def sorted_wrt_append)
    then show ?thesis using True Cons.IH [of "kept @ [r]"] Cons.prems by auto
  next
    case False
    then have "last kept \<in> set kept" by simp
    have IH: "increasing (unique_loop kept rs)" "set (unique_loop kept rs) \<subseteq> set kept \<union> set rs"
      "\<forall>x \<in> set kept \<union> set rs. \<exists>u \<in> set (unique_loop kept rs). br_Contains u x"
      using Cons.IH [of kept] Cons.prems by simp_all
    obtain u where u: "u \<in> set (unique_loop kept rs)" "br_Contains u (last kept)"
      using IH(3) \<open>last kept \<in> set kept\<close> by blast
    then have "br_Contains u r" using False by (auto simp: br_Contains_def)
    moreover have "unique_loop kept (r # rs) = unique_loop kept rs" using False by simp
    ultimately show ?thesis using IH u(1) by auto
  qed
qed

lemma increasing_in_order: "increasing rs \<Longrightarrow> \<not> out_of_order rs"
  by (induction rs rule: out_of_order.induct) (auto simp: increasing_def br_Contains_def)

lemma coalesce_loop_spec:
  assumes "increasing rs" "cstart < cend" "cend - cstart \<le> limit"
    "\<forall>r \<in> set rs. cstart < br_offset r \<and> cend < br_end r \<and> br_length r \<le> limit \<and> 0 < br_length r"
  shows "(\<forall>o' \<in> set (coalesce_loop hole limit cstart cend rs). cstart \<le> br_offset o' \<and> br_length o' \<le> limit) \<and>
    sorted_wrt (\<lambda>a b. br_offset a < br_offset b) (coalesce_loop hole limit cstart cend rs) \<and>
    (\<forall>r \<in> set (mk_bytes cstart (cend - cstart) # rs). \<exists>o' \<in> set (coalesce_loop hole limit cstart cend rs). br_Contains o' r)"
  using assms
proof (induction rs arbitrary: cstart cend)
  case Nil
  then show ?case by (simp add: br_Contains_def)
next
  case (Cons r rs)
  have inc: "increasing rs" "\<forall>x \<in> set rs. br_offset r < br_offset x \<and> br_end r < br_end x"
    using Cons.prems(1) by (auto simp: increasing_def)
  show ?case
  proof (cases "br_end r - cstart > limit \<or> br_offset r > (cend + hole) mod 2 ^ 64")
    case True
    have self: "mk_bytes (br_offset r) (br_end r - br_offset r) = r" by (cases r) (simp add: br_end_def)
    have r: "cstart < br_offset r" "br_offset r < br_end r" "br_end r - br_offset r \<le> limit"
      using Cons.prems(4) by (auto simp: br_end_def)
    define out where "out = coalesce_loop hole limit (br_offset r) (br_end r) rs"
    have later: "\<forall>x \<in> set rs. br_offset r < br_offset x \<and> br_end r < br_end x \<and> br_length x \<le> limit \<and> 0 < br_length x"
      using inc(2) Cons.prems(4) by simp
    note step = Cons.IH [OF inc(1) r(2,3) later, unfolded self, folded out_def]
    note IH = step [THEN conjunct1] step [THEN conjunct2, THEN conjunct1] step [THEN conjunct2, THEN conjunct2]
    have eq: "coalesce_loop hole limit cstart cend (r # rs) = mk_bytes cstart (cend - cstart) # out"
      using True by (simp add: out_def)
    have "\<forall>o' \<in> set out. cstart < br_offset o'" using IH(1) r(1) by (meson less_le_trans)
    moreover have "br_Contains (mk_bytes cstart (cend - cstart)) (mk_bytes cstart (cend - cstart))"
      by (simp add: br_Contains_def)
    ultimately show ?thesis unfolding eq using IH Cons.prems(3) by (simp del: coalesce_loop.simps) (meson less_imp_le)
  next
    case False
    then have r: "cstart < br_offset r" "cend < br_end r" "br_end r - cstart \<le> limit"
      using Cons.prems(4) by auto
    define out where "out = coalesce_loop hole limit cstart (br_end r) rs"
    have later: "\<forall>x \<in> set rs. cstart < br_offset x \<and> br_end r < br_end x \<and> br_length x \<le> limit \<and> 0 < br_length x"
      using inc(2) Cons.prems(4) by simp
    have "cstart < br_end r" using r Cons.prems(2) by simp
    note step = Cons.IH [OF inc(1) this r(3) later, folded out_def]
    note IH = step [THEN conjunct1] step [THEN conjunct2, THEN conjunct1] step [THEN conjunct2, THEN conjunct2]
    have eq: "coalesce_loop hole limit cstart cend (r # rs) = out" using False by (simp add: out_def)
    obtain o' where o': "o' \<in> set out" "br_Contains o' (mk_bytes cstart (br_end r - cstart))" using IH(3) by auto
    then have "br_Contains o' (mk_bytes cstart (cend - cstart))" "br_Contains o' r"
      using r Cons.prems(2) by (auto simp: br_Contains_def br_end_def)
    then show ?thesis unfolding eq using IH o'(1) by auto
  qed
qed

text \<open>What the split, the sort and the removal of contained ranges hand to the coalescing loop.\<close>

definition adjusted_ranges :: "nat \<Rightarrow> ByteRange list \<Rightarrow> ByteRange list" where
  "adjusted_ranges limit ranges = concat (map (\<lambda>r. split_range limit (br_offset r) (br_end r)) ranges)"

lemma CoalesceByteRanges_spec:
  assumes "hole < limit" "\<forall>r \<in> set ranges. br_end r \<le> kMaxRangeValue"
  obtains out where "CoalesceByteRanges ranges hole limit = Inr out"
    "\<forall>o' \<in> set out. br_length o' \<le> limit" "sorted_wrt (\<lambda>a b. br_offset a < br_offset b) out"
    "\<forall>p \<in> set (adjusted_ranges limit ranges). \<exists>o' \<in> set out. br_Contains o' p"
proof (cases "ranges = []")
  case True
  then show ?thesis using that [of "[]"] assms by (simp add: CoalesceByteRanges_def adjusted_ranges_def)
next
  case False
  define adj where "adj = adjusted_ranges limit ranges"
  define srt where "srt = stable_sort br_less (filter (\<lambda>r. br_length r \<noteq> 0) adj)"
  define u where "u = unique_loop [] srt"
  have size: "0 < br_length p \<and> br_length p \<le> limit" if "p \<in> set adj" for p
    using that assms(1) by (auto simp: adj_def adjusted_ranges_def dest: split_range_size)
  then have all: "filter (\<lambda>r. br_length r \<noteq> 0) adj = adj" by (auto simp: filter_id_conv)
  then have srt: "srt = stable_sort br_less adj" by (simp only: srt_def)
  have u: "increasing u" "set u \<subseteq> set adj" "\<forall>p \<in> set adj. \<exists>x \<in> set u. br_Contains x p"
    using unique_loop_spec [of srt "[]"] br_order.sorted_stable_sort [of adj]
    unfolding u_def srt by (simp_all add: increasing_def)
  have bounds: "\<not> (\<exists>r \<in> set ranges. br_offset r > kMaxRangeValue \<or> br_length r > kMaxRangeValue \<or> br_end r > kMaxRangeValue)"
    using assms(2) by (auto simp: br_end_def)
  show ?thesis
  proof (cases u)
    case Nil
    then have "CoalesceByteRanges ranges hole limit = Inr []"
      using False bounds assms(1)
      by (simp add: CoalesceByteRanges_def Let_def u_def srt_def adj_def adjusted_ranges_def)
    then show ?thesis using that [of "[]"] u Nil by (auto simp: adj_def)
  next
    case (Cons f rs)
    define out where "out = coalesce_loop hole limit (br_offset f) (br_end f) rs"
    have eq: "CoalesceByteRanges ranges hole limit = Inr out"
      using False bounds assms(1) increasing_in_order [OF u(1)] Cons
      by (simp add: CoalesceByteRanges_def Let_def u_def srt_def adj_def adjusted_ranges_def out_def)
    have self: "mk_bytes (br_offset f) (br_end f - br_offset f) = f" by (cases f) (simp add: br_end_def)
    have f: "br_offset f < br_end f" "br_end f - br_offset f \<le> limit" "increasing rs"
      "\<forall>r \<in> set rs. br_offset f < br_offset r \<and> br_end f < br_end r \<and> br_length r \<le> limit \<and> 0 < br_length r"
      using u(1,2) size Cons by (auto simp: increasing_def br_end_def)
    have spec: "\<forall>o' \<in> set out. br_length o' \<le> limit" "sorted_wrt (\<lambda>a b. br_offset a < br_offset b) out"
      "\<forall>x \<in> set u. \<exists>o' \<in> set out. br_Contains o' x"
      using coalesce_loop_spec [OF f(3,1,2,4), of hole] unfolding self out_def Cons by simp_all
    have "\<forall>p \<in> set adj. \<exists>o' \<in> set out. br_Contains o' p"
      using u(3) spec(3) unfolding br_Contains_def by (meson order_trans)
    then show ?thesis using that eq spec by (simp add: adj_def)
  qed
qed

section \<open>Properties\<close>

text \<open>
  C26. Merging overlapping values loses and invents nothing, returns no empty group, and separates the
  groups: every value of a group ends before every value of a later group starts. A group is no larger
  than it must be: any two of its values are joined by a chain of values of the group each of which meets the
  next. Inside a group the values stand in the order of the input.
\<close>

theorem MergeOverlappingRanges_correct:
  assumes "MergeOverlappingRanges sf ef xs = Inr gs"
  shows "mset (concat gs) = mset xs \<and> [] \<notin> set gs \<and>
    sorted_wrt (\<lambda>g h. \<forall>x \<in> set g. \<forall>y \<in> set h. \<exists>e s. ef x = Inr e \<and> sf y = Inr s \<and> e < s) gs \<and>
    (\<forall>g \<in> set gs. connected (ranges_meet sf ef) (set g) \<and> subseq g xs)"
  using MergeOverlappingRanges_groups [OF assms] by blast

theorem MergeOverlappingRanges_correct_witness:
  "\<exists>gs. MergeOverlappingRanges (\<lambda>p. Inr (fst p)) (\<lambda>p. Inr (snd p)) [(5, 9), (1, 3), (2, 4)] = Inr gs \<and>
     mset (concat gs) = mset [(5, 9), (1, 3), (2, 4)] \<and> [] \<notin> set gs \<and>
     (\<forall>g \<in> set gs. connected (ranges_meet (\<lambda>p. Inr (fst p)) (\<lambda>p. Inr (snd p))) (set g) \<and> subseq g [(5, 9), (1, 3), (2, 4)])"
proof -
  obtain gs where "MergeOverlappingRanges (\<lambda>p. Inr (fst p)) (\<lambda>p. Inr (snd p)) [(5, 9), (1, 3), (2, 4)] = Inr gs"
    by (simp add: MergeOverlappingRanges_def Let_def)
  then show ?thesis using MergeOverlappingRanges_correct by blast
qed

text \<open>
  C35. For weights that are not negative and whose total is an \<open>int64_t\<close>, packing in order keeps every item
  in its place, makes no empty bin, lets only a bin of one item pass the target weight, and closes a bin only
  when the next item would not have fitted.
\<close>

theorem PackForOrdered_correct:
  assumes "\<forall>x \<in> set items. 0 \<le> w x" "sum_list (map w items) \<le> INT64_MAX"
  shows "concat (PackForOrdered items w t) = items \<and> [] \<notin> set (PackForOrdered items w t) \<and>
   (\<forall>bin \<in> set (PackForOrdered items w t). length bin \<le> 1 \<or> sum_list (map w bin) \<le> t) \<and>
   successively (\<lambda>g h. sum_list (map w g) + w (hd h) > t) (PackForOrdered items w t)"
proof -
  have "packable w [] 0 items" using assms by (simp add: packable_def)
  then show ?thesis unfolding PackForOrdered_def
    using pack_loop_limit [of w "[]" 0 items t] pack_loop_tight [of w "[]" 0 items t]
    by (auto simp: pack_loop_concat pack_loop_nonempty)
qed

theorem PackForOrdered_correct_witness:
  "PackForOrdered [3, 4, 9, 1] (\<lambda>x. x) 7 = [[3, 4], [9], [1 :: int]] \<and>
   list_all (\<lambda>bin. length bin \<le> 1 \<or> sum_list bin \<le> 7) (PackForOrdered [3, 4, 9, 1] (\<lambda>x. x) (7 :: int))"
  using PackForOrdered_correct [of "[3, 4, 9, 1]" "\<lambda>x. x" 7]
  by (simp add: PackForOrdered_def list_all_iff INT64_MAX_def wrap64_def)

text \<open>
  C27. For a hole limit below the size limit and ranges within the bound, coalescing always succeeds;
  no read is longer than the limit, the reads are in strict order of their offsets, and every range
  that fits the limit lies inside a single read, while a longer one is split into pieces that do.
\<close>

theorem CoalesceByteRanges_correct:
  assumes "hole < limit" "\<forall>r \<in> set ranges. br_end r \<le> kMaxRangeValue"
  shows "\<exists>out. CoalesceByteRanges ranges hole limit = Inr out \<and>
    (\<forall>o' \<in> set out. br_length o' \<le> limit) \<and> sorted_wrt (\<lambda>a b. br_offset a < br_offset b) out \<and>
    (\<forall>r \<in> set ranges. br_bytes r \<subseteq> (\<Union>o' \<in> set out. br_bytes o')) \<and>
    (\<forall>r \<in> set ranges. 0 < br_length r \<and> br_length r \<le> limit \<longrightarrow> (\<exists>o' \<in> set out. br_Contains o' r))"
proof -
  obtain out where out: "CoalesceByteRanges ranges hole limit = Inr out"
    "\<forall>o' \<in> set out. br_length o' \<le> limit" "sorted_wrt (\<lambda>a b. br_offset a < br_offset b) out"
    "\<forall>p \<in> set (adjusted_ranges limit ranges). \<exists>o' \<in> set out. br_Contains o' p"
    using CoalesceByteRanges_spec [OF assms] .
  have piece: "\<exists>o' \<in> set out. br_Contains o' p"
    if "r \<in> set ranges" "p \<in> set (split_range limit (br_offset r) (br_end r))" for r p
    using out(4) that by (auto simp: adjusted_ranges_def)
  have "br_bytes r \<subseteq> (\<Union>o' \<in> set out. br_bytes o')" if r: "r \<in> set ranges" for r
  proof
    fix b assume "b \<in> br_bytes r"
    then have "b \<in> (\<Union>p \<in> set (split_range limit (br_offset r) (br_end r)). br_bytes p)"
      using assms(1) by (simp add: split_range_covers br_bytes_def [of r])
    then obtain p where p: "p \<in> set (split_range limit (br_offset r) (br_end r))" "b \<in> br_bytes p" by blast
    then obtain o' where "o' \<in> set out" "br_Contains o' p" using piece r by blast
    moreover from this have "b \<in> br_bytes o'" using p(2) by (simp add: br_Contains_def br_bytes_def)
    ultimately show "b \<in> (\<Union>o' \<in> set out. br_bytes o')" by blast
  qed
  moreover have "\<exists>o' \<in> set out. br_Contains o' r" if "r \<in> set ranges" "0 < br_length r" "br_length r \<le> limit" for r
    using piece [of r r] that by (cases r) (simp add: split_range.simps [of limit] br_end_def)
  ultimately show ?thesis using out by blast
qed

theorem CoalesceByteRanges_correct_witness:
  "\<exists>out. CoalesceByteRanges [mk_bytes 0 10, mk_bytes 12 5] 4 100 = Inr out \<and>
     list_all (\<lambda>o'. br_length o' \<le> 100) out \<and> (\<exists>o' \<in> set out. br_Contains o' (mk_bytes 12 5))"
  using CoalesceByteRanges_correct [of 4 100 "[mk_bytes 0 10, mk_bytes 12 5]"]
  by (auto simp: kMaxRangeValue_def list_all_iff)

end
