(* ===== verification/Levels.thy ===== *)
theory Levels
  imports Data_File "HOL-Library.Product_Lexorder"
begin

text \<open>
  The levels of a merge tree: \<open>SortedRun\<close> (\<^verbatim>\<open>core/mergetree/sorted_run.h\<close>), \<open>LevelSortedRun\<close>
  (\<^verbatim>\<open>core/mergetree/level_sorted_run.h\<close>) and \<open>Levels\<close> (\<^verbatim>\<open>core/mergetree/levels.cpp\<close>). Level 0 is a
  \<open>std::set\<close> of files ordered by age, every other level one sorted run. The lemmas show that
  \<open>Create\<close> and \<open>Update\<close> establish and keep the invariant (files on the level they carry, runs with
  disjoint increasing key intervals, sizes summed correctly) and that no file is lost or duplicated.
  The comparator is the argument \<open>cmp\<close>; \<open>std::sort\<close> is a stable sort, which agrees with any other sort
  on every list that forms a valid run.
\<close>

section \<open>Sorted runs\<close>

record sorted_run =
  run_files :: "data_file_meta list"
  total_size :: int

definition SortedRun_of :: "data_file_meta list \<Rightarrow> sorted_run" where
  "SortedRun_of fs = \<lparr>run_files = fs, total_size = foldl (\<lambda>s f. s + file_size f) 0 fs\<rparr>"

definition SortedRun_Empty :: sorted_run where
  "SortedRun_Empty = SortedRun_of []"

definition FromSingle :: "data_file_meta \<Rightarrow> sorted_run" where
  "FromSingle f = SortedRun_of [f]"

definition FromSorted :: "data_file_meta list \<Rightarrow> sorted_run" where
  "FromSorted fs = SortedRun_of fs"

fun valid_files :: "row_compare \<Rightarrow> data_file_meta list \<Rightarrow> bool" where
  "valid_files cmp (a # b # fs) \<longleftrightarrow> \<not> cmp (min_key b) (max_key a) \<le> 0 \<and> valid_files cmp (b # fs)"
| "valid_files cmp _ \<longleftrightarrow> True"

definition IsValid :: "row_compare \<Rightarrow> sorted_run \<Rightarrow> bool" where
  "IsValid cmp run = valid_files cmp (run_files run)"

definition FromUnsorted :: "row_compare \<Rightarrow> data_file_meta list \<Rightarrow> sorted_run result" where
  "FromUnsorted cmp metas =
     (let run = SortedRun_of (stable_sort (\<lambda>m1 m2. cmp (min_key m1) (min_key m2) < 0) metas)
      in if \<not> IsValid cmp run then Inl (Invalid ''from unsorted validate failed'') else Inr run)"

definition IsEmpty :: "sorted_run \<Rightarrow> bool" where
  "IsEmpty run \<longleftrightarrow> run_files run = []"

record level_sorted_run =
  run_level :: int
  lrun :: sorted_run

section \<open>Levels\<close>

definition Level0_less :: "data_file_meta \<Rightarrow> data_file_meta \<Rightarrow> bool" where
  "Level0_less a b =
     (if max_sequence_number a \<noteq> max_sequence_number b then max_sequence_number a > max_sequence_number b
      else if min_sequence_number a \<noteq> min_sequence_number b then min_sequence_number a < min_sequence_number b
      else if creation_time a \<noteq> creation_time b then timestamp_less (creation_time a) (creation_time b)
      else file_name a < file_name b)"

text \<open>\<open>insert\<close> and \<open>erase\<close> of the ordered set; an equivalent element blocks an insertion.\<close>

fun level0_insert :: "data_file_meta \<Rightarrow> data_file_meta list \<Rightarrow> data_file_meta list" where
  "level0_insert f [] = [f]"
| "level0_insert f (x # xs) =
     (if Level0_less f x then f # x # xs else if Level0_less x f then x # level0_insert f xs else x # xs)"

definition level0_erase :: "data_file_meta \<Rightarrow> data_file_meta list \<Rightarrow> data_file_meta list" where
  "level0_erase f xs = filter (\<lambda>x. Level0_less f x \<or> Level0_less x f) xs"

record levels_state =
  level0 :: "data_file_meta list"
  levels :: "sorted_run list"
  drop_file_callbacks :: "nat option list"

definition GroupByLevel :: "data_file_meta list \<Rightarrow> (int \<times> data_file_meta list) list" where
  "GroupByLevel fs = map (\<lambda>l. (l, filter (\<lambda>f. level f = l) fs)) (sort (remdups (map level fs)))"

definition NumberOfLevels :: "levels_state \<Rightarrow> int" where
  "NumberOfLevels L = int (length (levels L)) + 1"

definition MaxLevel :: "levels_state \<Rightarrow> int" where
  "MaxLevel L = int (length (levels L))"

definition RunOfLevel :: "int \<Rightarrow> sorted_run list \<Rightarrow> sorted_run result" where
  "RunOfLevel l runs =
     (if l \<le> 0 then Inl (Invalid ''Level0 does not have one single sorted run.'')
      else Inr (runs ! nat (l - 1)))"

fun erase_by_name :: "string \<Rightarrow> data_file_meta list \<Rightarrow> data_file_meta list" where
  "erase_by_name n [] = []"
| "erase_by_name n (f # fs) = (if n = file_name f then fs else f # erase_by_name n fs)"

definition UpdateLevel ::
  "int \<Rightarrow> data_file_meta list \<Rightarrow> data_file_meta list \<Rightarrow> row_compare \<Rightarrow> levels_state \<Rightarrow> levels_state result" where
  "UpdateLevel l before after cmp L =
     (if before = [] \<and> after = [] then Inr L
      else if l = 0 then Inr (L\<lparr>level0 := fold level0_insert after (fold level0_erase before (level0 L))\<rparr>)
      else rbind (RunOfLevel l (levels L)) (\<lambda>run.
        let files = fold (\<lambda>b. erase_by_name (file_name b)) before (run_files run) @ after in
        rbind (FromUnsorted cmp files) (\<lambda>run'. Inr (L\<lparr>levels := (levels L)[nat (l - 1) := run']\<rparr>))))"

text \<open>
  \<open>Create\<close>. The highest level of the files determines the number of levels when it is larger than the
  number asked for.
\<close>

definition highest_level :: "data_file_meta list \<Rightarrow> int" where
  "highest_level fs = foldl (\<lambda>n f. if level f > n then level f else n) (-1) fs"

definition total_file_num :: "levels_state \<Rightarrow> nat" where
  "total_file_num L = foldl (\<lambda>n run. n + length (run_files run)) (length (level0 L)) (levels L)"

definition Levels_Create :: "row_compare \<Rightarrow> data_file_meta list \<Rightarrow> int \<Rightarrow> levels_state result" where
  "Levels_Create cmp input_files num_levels =
     (let restored = max (highest_level input_files + 1) num_levels in
      if restored \<le> 1 then Inl (Invalid ''Number of levels must be at least 2.'')
      else rbind (rfold (\<lambda>L (l, files). UpdateLevel l [] files cmp L)
          \<lparr>level0 = [], levels = replicate (nat (restored - 1)) SortedRun_Empty, drop_file_callbacks = []\<rparr>
          (GroupByLevel input_files)) (\<lambda>L.
        if total_file_num L \<noteq> length input_files
        then Inl (Invalid ''Number of files stored in Levels does not equal to the size of inputFiles. This is unexpected.'')
        else Inr L))"

definition NumberOfSortedRuns :: "levels_state \<Rightarrow> int" where
  "NumberOfSortedRuns L = foldl (\<lambda>n run. if \<not> IsEmpty run then n + 1 else n) (int (length (level0 L))) (levels L)"

definition AddDropFileCallback :: "levels_state \<Rightarrow> nat option \<Rightarrow> levels_state" where
  "AddDropFileCallback L cb = L\<lparr>drop_file_callbacks := drop_file_callbacks L @ [cb]\<rparr>"

definition RemoveDropFileCallback :: "levels_state \<Rightarrow> nat option \<Rightarrow> levels_state" where
  "RemoveDropFileCallback L cb = L\<lparr>drop_file_callbacks := filter (\<lambda>c. c \<noteq> cb) (drop_file_callbacks L)\<rparr>"

definition AddLevel0File :: "levels_state \<Rightarrow> data_file_meta \<Rightarrow> levels_state result" where
  "AddLevel0File L f =
     (if level f \<noteq> 0 then Inl (Invalid ''must add level0 file in AddLevel0File'')
      else Inr (L\<lparr>level0 := level0_insert f (level0 L)\<rparr>))"

fun highest_nonempty :: "nat \<Rightarrow> sorted_run list \<Rightarrow> int option" where
  "highest_nonempty 0 runs = None"
| "highest_nonempty (Suc i) runs = (if \<not> IsEmpty (runs ! i) then Some (int i + 1) else highest_nonempty i runs)"

definition NonEmptyHighestLevel :: "levels_state \<Rightarrow> int" where
  "NonEmptyHighestLevel L =
     (case highest_nonempty (length (levels L)) (levels L) of
        Some l \<Rightarrow> l
      | None \<Rightarrow> if level0 L = [] then -1 else 0)"

definition TotalFileSize :: "levels_state \<Rightarrow> int" where
  "TotalFileSize L = foldl (\<lambda>s run. s + total_size run) (foldl (\<lambda>s f. s + file_size f) 0 (level0 L)) (levels L)"

fun level_runs_from :: "int \<Rightarrow> sorted_run list \<Rightarrow> level_sorted_run list" where
  "level_runs_from l [] = []"
| "level_runs_from l (run # runs) =
     (if \<not> IsEmpty run then [\<lparr>run_level = l, lrun = run\<rparr>] else []) @ level_runs_from (l + 1) runs"

definition LevelSortedRuns :: "levels_state \<Rightarrow> level_sorted_run list" where
  "LevelSortedRuns L =
     map (\<lambda>f. \<lparr>run_level = 0, lrun = FromSingle f\<rparr>) (level0 L) @ level_runs_from 1 (levels L)"

definition AllFiles :: "levels_state \<Rightarrow> data_file_meta list" where
  "AllFiles L = concat (map (\<lambda>r. run_files (lrun r)) (LevelSortedRuns L))"

text \<open>
  \<open>Update\<close>. The loop stops at the first level that fails and leaves the levels before it updated, so
  the state is returned beside the status, together with the notifications sent to the callbacks.
\<close>

fun update_levels ::
  "row_compare \<Rightarrow> data_file_meta list \<Rightarrow> data_file_meta list \<Rightarrow> int list \<Rightarrow> levels_state \<Rightarrow> levels_state \<times> unit result" where
  "update_levels cmp before after [] L = (L, Inr ())"
| "update_levels cmp before after (i # is) L =
     (case UpdateLevel i (filter (\<lambda>f. level f = i) before) (filter (\<lambda>f. level f = i) after) cmp L of
        Inl e \<Rightarrow> (L, Inl e)
      | Inr L' \<Rightarrow> update_levels cmp before after is L')"

definition dropped_files :: "data_file_meta list \<Rightarrow> data_file_meta list \<Rightarrow> string list" where
  "dropped_files before after =
     filter (\<lambda>n. n \<notin> set (map file_name after)) (sort (remdups (map file_name before)))"

definition notifications :: "nat option list \<Rightarrow> string list \<Rightarrow> (nat \<times> string) list" where
  "notifications cbs dropped =
     concat (map (\<lambda>cb. case cb of None \<Rightarrow> [] | Some c \<Rightarrow> map (\<lambda>n. (c, n)) dropped) cbs)"

definition Update ::
  "row_compare \<Rightarrow> levels_state \<Rightarrow> data_file_meta list \<Rightarrow> data_file_meta list \<Rightarrow>
   levels_state \<times> (nat \<times> string) list result" where
  "Update cmp L before after =
     (case update_levels cmp before after [0..NumberOfLevels L - 1] L of
        (L', Inl e) \<Rightarrow> (L', Inl e)
      | (L', Inr _) \<Rightarrow> (L', Inr (notifications (drop_file_callbacks L') (dropped_files before after))))"

section \<open>Level 0\<close>

definition level0_key :: "data_file_meta \<Rightarrow> int \<times> int \<times> int \<times> int \<times> string" where
  "level0_key f = (- max_sequence_number f, min_sequence_number f, millisecond (creation_time f),
     nano_of_millisecond (creation_time f), file_name f)"

lemma Level0_less_key: "Level0_less a b \<longleftrightarrow> level0_key a < level0_key b"
proof -
  have "creation_time a = creation_time b \<longleftrightarrow> millisecond (creation_time a) = millisecond (creation_time b) \<and>
    nano_of_millisecond (creation_time a) = nano_of_millisecond (creation_time b)"
    by (cases "creation_time a"; cases "creation_time b") simp
  then show ?thesis by (auto simp: Level0_less_def level0_key_def timestamp_less_def)
qed

lemma level0_key_name: "level0_key a = level0_key b \<Longrightarrow> file_name a = file_name b"
  by (simp add: level0_key_def)

lemma set_level0_insert_subset: "set (level0_insert f xs) \<subseteq> insert f (set xs)"
  by (induction xs) auto

lemma mset_level0_insert: "mset (level0_insert f xs) \<subseteq># add_mset f (mset xs)"
  by (induction xs) (auto simp: add_mset_commute)

lemma sorted_level0_insert: "sorted_wrt Level0_less xs \<Longrightarrow> sorted_wrt Level0_less (level0_insert f xs)"
proof (induction xs)
  case (Cons x xs)
  have "Level0_less x y" if "Level0_less x f" "y \<in> set (level0_insert f xs)" for y
    using that set_level0_insert_subset [of f xs] Cons.prems by auto
  then show ?case using Cons by (auto simp: Level0_less_key)
qed simp

lemma set_level0_insert: "level0_key f \<notin> level0_key ` set xs \<Longrightarrow> set (level0_insert f xs) = insert f (set xs)"
proof (induction xs)
  case (Cons x xs)
  then have "Level0_less f x \<or> Level0_less x f" by (auto simp: Level0_less_key neq_iff)
  then show ?case using Cons by auto
qed simp

lemma set_level0_erase: "set (level0_erase f xs) = {x \<in> set xs. level0_key x \<noteq> level0_key f}"
  by (auto simp: level0_erase_def Level0_less_key neq_iff)

lemma sorted_level0_erase: "sorted_wrt Level0_less xs \<Longrightarrow> sorted_wrt Level0_less (level0_erase f xs)"
  by (simp add: level0_erase_def sorted_wrt_filter)

lemma sorted_level0_folds:
  "sorted_wrt Level0_less xs \<Longrightarrow> sorted_wrt Level0_less (fold level0_insert after (fold level0_erase before xs))"
proof -
  assume "sorted_wrt Level0_less xs"
  then have "sorted_wrt Level0_less (fold level0_erase before xs)"
    by (induction before arbitrary: xs) (simp_all add: sorted_level0_erase)
  then show ?thesis by (induction after arbitrary: before xs rule: rev_induct) (simp_all add: sorted_level0_insert)
qed

lemma set_fold_level0_insert_subset: "set (fold level0_insert after xs) \<subseteq> set after \<union> set xs"
proof (induction after arbitrary: xs)
  case (Cons f after)
  show ?case using Cons.IH [of "level0_insert f xs"] set_level0_insert_subset [of f xs] by auto
qed simp

lemma mset_fold_level0_insert: "mset (fold level0_insert after xs) \<subseteq># mset after + mset xs"
proof (induction after arbitrary: xs)
  case (Cons f after)
  show ?case
    using Cons.IH [of "level0_insert f xs"] mset_level0_insert [of f xs]
    by (simp add: subset_mset.order_trans subset_mset.add_left_mono flip: union_mset_add_mset_right)
qed simp

lemma set_fold_level0_erase: "set (fold level0_erase before xs) = {x \<in> set xs. level0_key x \<notin> level0_key ` set before}"
  by (induction before arbitrary: xs) (auto simp: set_level0_erase)

lemma set_fold_level0_insert:
  "inj_on level0_key (set after \<union> set xs) \<Longrightarrow> distinct after \<Longrightarrow> set after \<inter> set xs = {} \<Longrightarrow>
   set (fold level0_insert after xs) = set after \<union> set xs"
proof (induction after arbitrary: xs)
  case (Cons f after)
  have "level0_key f \<notin> level0_key ` set xs" using Cons.prems by (auto simp: inj_on_def)
  then have "set (level0_insert f xs) = insert f (set xs)" by (rule set_level0_insert)
  then show ?case using Cons.prems Cons.IH [of "level0_insert f xs"] by auto
qed simp

lemma sorted_level0_distinct: "sorted_wrt Level0_less xs \<Longrightarrow> distinct xs"
  by (induction xs) (auto simp: Level0_less_key)

section \<open>Erasing by name\<close>

lemma set_erase_by_name:
  "distinct (map file_name xs) \<Longrightarrow> set (erase_by_name n xs) = {x \<in> set xs. file_name x \<noteq> n}"
  by (induction xs) (auto simp: image_iff)

lemma distinct_erase_by_name: "distinct (map file_name xs) \<Longrightarrow> distinct (map file_name (erase_by_name n xs))"
  by (induction xs) (auto simp: set_erase_by_name)

lemma set_erase_by_name_subset: "set (erase_by_name n xs) \<subseteq> set xs"
  by (induction xs) auto

lemma fold_erase_subset: "set (fold (\<lambda>b. erase_by_name (file_name b)) before xs) \<subseteq> set xs"
proof (induction before arbitrary: xs)
  case (Cons b before)
  show ?case using Cons.IH [of "erase_by_name (file_name b) xs"] set_erase_by_name_subset by fastforce
qed simp

lemma fold_erase_by_name:
  "distinct (map file_name xs) \<Longrightarrow>
   set (fold (\<lambda>b. erase_by_name (file_name b)) before xs) = {x \<in> set xs. file_name x \<notin> file_name ` set before} \<and>
   distinct (map file_name (fold (\<lambda>b. erase_by_name (file_name b)) before xs))"
proof (induction before arbitrary: xs)
  case (Cons b before)
  show ?case
    using Cons.IH [of "erase_by_name (file_name b) xs"] Cons.prems
    by (auto simp: set_erase_by_name distinct_erase_by_name)
qed simp

section \<open>The invariant\<close>

text \<open>
  A run is in order when every file lies after the one before it, carries the level of the run, and the
  size is the sum of the file sizes. \<open>at_level\<close> names the files of one level.
\<close>

definition run_ok :: "row_compare \<Rightarrow> int \<Rightarrow> sorted_run \<Rightarrow> bool" where
  "run_ok cmp l run \<longleftrightarrow> IsValid cmp run \<and> (\<forall>f \<in> set (run_files run). level f = l) \<and>
     total_size run = (\<Sum>f \<leftarrow> run_files run. file_size f)"

definition levels_ok :: "row_compare \<Rightarrow> levels_state \<Rightarrow> bool" where
  "levels_ok cmp L \<longleftrightarrow> sorted_wrt Level0_less (level0 L) \<and> (\<forall>f \<in> set (level0 L). level f = 0) \<and>
     (\<forall>i < length (levels L). run_ok cmp (int i + 1) (levels L ! i))"

definition at_level :: "levels_state \<Rightarrow> int \<Rightarrow> data_file_meta list" where
  "at_level L l = (if l = 0 then level0 L else run_files (levels L ! nat (l - 1)))"

lemma foldl_sum: "foldl (\<lambda>s x. s + g x) a xs = a + (\<Sum>x \<leftarrow> xs. g x)" for a :: "'b::monoid_add"
  by (induction xs arbitrary: a) (simp_all add: add.assoc)

lemma SortedRun_of_simps [simp]:
  "run_files (SortedRun_of fs) = fs" "total_size (SortedRun_of fs) = (\<Sum>f \<leftarrow> fs. file_size f)"
  by (simp_all add: SortedRun_of_def foldl_sum)

lemma FromUnsorted_Inr:
  "FromUnsorted cmp fs = Inr run \<Longrightarrow> IsValid cmp run \<and> mset (run_files run) = mset fs \<and>
   total_size run = (\<Sum>f \<leftarrow> run_files run. file_size f)"
  by (auto simp: FromUnsorted_def Let_def split: if_splits)

lemma UpdateLevel_frame:
  assumes "UpdateLevel l before after cmp L = Inr L'" "0 \<le> l"
  shows "length (levels L') = length (levels L) \<and> drop_file_callbacks L' = drop_file_callbacks L \<and>
    (\<forall>k. 0 \<le> k \<longrightarrow> k \<noteq> l \<longrightarrow> at_level L' k = at_level L k)"
  using assms
  by (auto simp: UpdateLevel_def RunOfLevel_def result_simps Let_def at_level_def nth_list_update split: if_splits)

lemma UpdateLevel_pos:
  "0 < l \<Longrightarrow> before \<noteq> [] \<or> after \<noteq> [] \<Longrightarrow> UpdateLevel l before after cmp L =
     rbind (FromUnsorted cmp (fold (\<lambda>b. erase_by_name (file_name b)) before (at_level L l) @ after))
       (\<lambda>run. Inr (L\<lparr>levels := (levels L)[nat (l - 1) := run]\<rparr>))"
  by (auto simp: UpdateLevel_def RunOfLevel_def Let_def at_level_def)

lemma UpdateLevel_at:
  assumes "UpdateLevel l before after cmp L = Inr L'" "0 \<le> l" "l \<le> int (length (levels L))"
    "before \<noteq> [] \<or> after \<noteq> []"
  shows "l = 0 \<and> at_level L' l = fold level0_insert after (fold level0_erase before (at_level L l)) \<or>
    0 < l \<and> IsValid cmp (levels L' ! nat (l - 1)) \<and>
      total_size (levels L' ! nat (l - 1)) = (\<Sum>f \<leftarrow> at_level L' l. file_size f) \<and>
      mset (at_level L' l) = mset (fold (\<lambda>b. erase_by_name (file_name b)) before (at_level L l) @ after)"
proof (cases "l = 0")
  case True
  then show ?thesis using assms by (auto simp: UpdateLevel_def at_level_def)
next
  case False
  have idx: "nat (l - 1) < length (levels L)" using assms(2,3) False by simp
  let ?fs = "fold (\<lambda>b. erase_by_name (file_name b)) before (at_level L l) @ after"
  have "rbind (FromUnsorted cmp ?fs) (\<lambda>run. Inr (L\<lparr>levels := (levels L)[nat (l - 1) := run]\<rparr>)) = Inr L'"
    using assms(1) UpdateLevel_pos [of l before after cmp L] assms(2,4) False by simp
  then obtain run where run: "FromUnsorted cmp ?fs = Inr run" "L' = L\<lparr>levels := (levels L)[nat (l - 1) := run]\<rparr>"
    by (auto simp: rbind_eq_Inr)
  then have "levels L' ! nat (l - 1) = run" "at_level L' l = run_files run"
    using False idx by (simp_all add: at_level_def)
  then show ?thesis using FromUnsorted_Inr [OF run(1)] False assms(2) by simp
qed

lemma UpdateLevel_ok:
  assumes "UpdateLevel l before after cmp L = Inr L'" "0 \<le> l" "l \<le> int (length (levels L))"
    "levels_ok cmp L" "\<forall>f \<in> set after. level f = l"
  shows "levels_ok cmp L'"
proof (cases "before = [] \<and> after = []")
  case True
  then show ?thesis using assms by (simp add: UpdateLevel_def)
next
  case False
  note frame = UpdateLevel_frame [OF assms(1,2)] and at = UpdateLevel_at [OF assms(1-3)]
  have files: "\<forall>f \<in> set (at_level L k). level f = k" if "0 \<le> k" "k \<le> int (length (levels L))" for k
    using assms(4) that by (auto simp: levels_ok_def run_ok_def at_level_def dest!: spec [of _ "nat (k - 1)"])
  have "sorted_wrt Level0_less (level0 L') \<and> (\<forall>f \<in> set (level0 L'). level f = 0)"
  proof (cases "l = 0")
    case True
    then have eq: "level0 L' = fold level0_insert after (fold level0_erase before (level0 L))"
      using at False by (auto simp: at_level_def)
    have "set (level0 L') \<subseteq> set after \<union> set (level0 L)"
      unfolding eq using set_fold_level0_insert_subset [of after] set_fold_level0_erase [of before] by fastforce
    then show ?thesis using assms(4,5) True sorted_level0_folds eq by (auto simp: levels_ok_def)
  next
    case False
    then show ?thesis using frame assms(4) by (force simp: at_level_def levels_ok_def)
  qed
  moreover have "run_ok cmp (int i + 1) (levels L' ! i)" if i: "i < length (levels L')" for i
  proof (cases "int i + 1 = l")
    case True
    then have "mset (at_level L' l) = mset (fold (\<lambda>b. erase_by_name (file_name b)) before (at_level L l) @ after)"
      using at False by auto
    then have "set (at_level L' l) \<subseteq> set (at_level L l) \<union> set after"
      using fold_erase_subset [of before "at_level L l"] by (metis Un_mono order_refl set_append set_mset_mset)
    then show ?thesis using at False True files [of l] assms(2,3,5) by (auto simp: run_ok_def at_level_def)
  next
    case other: False
    then have "run_files (levels L' ! i) = run_files (levels L ! i)"
      using frame [THEN conjunct2, THEN conjunct2, rule_format, of "int i + 1"] by (simp add: at_level_def)
    moreover have "levels L' ! i = levels L ! i"
      using assms(1,2) other i
      by (auto simp: UpdateLevel_def RunOfLevel_def result_simps Let_def nth_list_update split: if_splits)
    ultimately show ?thesis using assms(4) i frame by (simp add: levels_ok_def)
  qed
  ultimately show ?thesis by (simp add: levels_ok_def)
qed

section \<open>All files\<close>

lemma level_runs_files: "concat (map (\<lambda>r. run_files (lrun r)) (level_runs_from l runs)) = concat (map run_files runs)"
  by (induction runs arbitrary: l) (auto simp: IsEmpty_def)

lemma AllFiles_eq: "AllFiles L = level0 L @ concat (map run_files (levels L))"
proof -
  have "concat (map (\<lambda>f. [f]) xs) = xs" for xs :: "data_file_meta list" by (induction xs) auto
  then show ?thesis by (simp add: AllFiles_def LevelSortedRuns_def level_runs_files FromSingle_def comp_def)
qed

lemma total_file_num_eq: "total_file_num L = length (AllFiles L)"
  by (simp add: total_file_num_def AllFiles_eq foldl_sum length_concat comp_def)

lemma set_AllFiles: "set (AllFiles L) = (\<Union>l \<in> {0..int (length (levels L))}. set (at_level L l))"
proof -
  have "set (at_level L l) \<subseteq> set (AllFiles L)" if "l \<in> {0..int (length (levels L))}" for l
    using that by (auto simp: AllFiles_eq at_level_def intro!: bexI [of _ "levels L ! nat (l - 1)"] split: if_splits)
  moreover have "f \<in> (\<Union>l \<in> {0..int (length (levels L))}. set (at_level L l))" if f: "f \<in> set (AllFiles L)" for f
  proof (cases "f \<in> set (level0 L)")
    case False
    then obtain run where "run \<in> set (levels L)" "f \<in> set (run_files run)" using f by (auto simp: AllFiles_eq)
    then obtain i where "i < length (levels L)" "f \<in> set (run_files (levels L ! i))" by (auto simp: in_set_conv_nth)
    then have "f \<in> set (at_level L (int i + 1))" "int i + 1 \<in> {0..int (length (levels L))}" by (simp_all add: at_level_def)
    then show ?thesis by blast
  qed (auto simp: at_level_def intro!: bexI [of _ 0])
  ultimately show ?thesis by blast
qed

lemma at_level_level:
  "levels_ok cmp L \<Longrightarrow> 0 \<le> l \<Longrightarrow> l \<le> int (length (levels L)) \<Longrightarrow> f \<in> set (at_level L l) \<Longrightarrow> level f = l"
  by (auto simp: levels_ok_def run_ok_def at_level_def split: if_splits dest!: spec [of _ "nat (l - 1)"])

lemma count_concat_runs:
  assumes "\<forall>i < length runs. \<forall>f \<in> set (run_files (runs ! i)). level f = k + int i"
  shows "count (mset (concat (map run_files runs))) f =
    (if k \<le> level f \<and> level f < k + int (length runs) then count (mset (run_files (runs ! nat (level f - k)))) f else 0)"
  using assms
proof (induction runs arbitrary: k)
  case (Cons run runs)
  have h: "\<forall>f \<in> set (run_files run). level f = k" using Cons.prems by fastforce
  have "\<forall>i < length runs. \<forall>f \<in> set (run_files (runs ! i)). level f = (k + 1) + int i" using Cons.prems by fastforce
  note IH = Cons.IH [OF this]
  have zero: "level f \<noteq> k \<Longrightarrow> count (mset (run_files run)) f = 0" using h by (auto simp: count_eq_zero_iff)
  have "nat (level f - k) = Suc (nat (level f - (k + 1)))" if "k < level f" using that by simp
  then show ?case using zero by (cases "level f = k") (auto simp: IH nth_Cons')
qed auto

lemma count_AllFiles:
  assumes "levels_ok cmp L"
  shows "count (mset (AllFiles L)) f =
    (if 0 \<le> level f \<and> level f \<le> int (length (levels L)) then count (mset (at_level L (level f))) f else 0)"
proof -
  have "\<forall>i < length (levels L). \<forall>f \<in> set (run_files (levels L ! i)). level f = 1 + int i"
    using assms by (auto simp: levels_ok_def run_ok_def)
  note runs = count_concat_runs [OF this, of f]
  have "level f \<noteq> 0 \<Longrightarrow> count (mset (level0 L)) f = 0"
    using assms by (auto simp: levels_ok_def count_eq_zero_iff)
  then show ?thesis using runs by (auto simp: AllFiles_eq at_level_def)
qed

section \<open>Create\<close>

lemma create_loop:
  assumes "rfold (\<lambda>L (l, files). UpdateLevel l [] files cmp L) L
      (map (\<lambda>l. (l, filter (\<lambda>f. level f = l) input)) ls) = Inr L'"
    "distinct ls" "\<forall>l \<in> set ls. l \<le> int (length (levels L)) \<and> filter (\<lambda>f. level f = l) input \<noteq> []"
    "levels_ok cmp L" "\<forall>l \<in> set ls. 0 \<le> l \<longrightarrow> at_level L l = []"
  shows "levels_ok cmp L' \<and> length (levels L') = length (levels L) \<and>
    (\<forall>l \<ge> 0. mset (at_level L' l) \<subseteq># (if l \<in> set ls then mset (filter (\<lambda>f. level f = l) input) else mset (at_level L l)))"
  using assms
proof (induction ls arbitrary: L)
  case (Cons l ls)
  let ?fs = "filter (\<lambda>f. level f = l) input"
  obtain M where M: "UpdateLevel l [] ?fs cmp L = Inr M"
    and rest: "rfold (\<lambda>L (l, files). UpdateLevel l [] files cmp L) M
      (map (\<lambda>l. (l, filter (\<lambda>f. level f = l) input)) ls) = Inr L'"
    using Cons.prems(1) by (auto simp: rbind_eq_Inr)
  have l: "0 \<le> l" "l \<le> int (length (levels L))" "?fs \<noteq> []" "at_level L l = []"
    using M Cons.prems(3,5) by (auto simp: UpdateLevel_def RunOfLevel_def split: if_splits)
  note frame = UpdateLevel_frame [OF M l(1)]
  have ok: "levels_ok cmp M" using UpdateLevel_ok [OF M l(1,2) Cons.prems(4)] by simp
  have here: "mset (at_level M l) \<subseteq># mset ?fs"
    using UpdateLevel_at [OF M l(1,2)] l(3,4) mset_fold_level0_insert [of ?fs "[]"] by auto
  have other: "at_level M k = at_level L k" if "0 \<le> k" "k \<noteq> l" for k using frame that by simp
  have "levels_ok cmp L' \<and> length (levels L') = length (levels M) \<and>
    (\<forall>k \<ge> 0. mset (at_level L' k) \<subseteq># (if k \<in> set ls then mset (filter (\<lambda>f. level f = k) input) else mset (at_level M k)))"
  proof (rule Cons.IH [OF rest _ _ ok])
    show "\<forall>k \<in> set ls. 0 \<le> k \<longrightarrow> at_level M k = []" using other Cons.prems(2,5) by fastforce
  qed (use Cons.prems frame in auto)
  then show ?case using frame here other Cons.prems(2) by (auto split: if_splits)
qed simp

lemma highest_level_ge: "f \<in> set fs \<Longrightarrow> level f \<le> highest_level fs"
proof -
  have "n \<le> foldl (\<lambda>n f. if level f > n then level f else n) n fs \<and>
    (\<forall>f \<in> set fs. level f \<le> foldl (\<lambda>n f. if level f > n then level f else n) n fs)" for n
  proof (induction fs arbitrary: n)
    case (Cons g fs)
    show ?case using Cons.IH [of "if level g > n then level g else n"] by (auto split: if_splits)
  qed simp
  then show "f \<in> set fs \<Longrightarrow> level f \<le> highest_level fs" by (simp add: highest_level_def)
qed

lemma Levels_Create_correct:
  assumes "Levels_Create cmp input n = Inr L"
  shows "levels_ok cmp L \<and> mset (AllFiles L) = mset input \<and>
    NumberOfLevels L = max (highest_level input + 1) n \<and> 2 \<le> NumberOfLevels L"
proof -
  define r where "r = max (highest_level input + 1) n"
  define L0 where "L0 = \<lparr>level0 = [], levels = replicate (nat (r - 1)) SortedRun_Empty, drop_file_callbacks = []\<rparr>"
  define ls where "ls = sort (remdups (map level input))"
  have r: "1 < r" using assms by (auto simp: Levels_Create_def Let_def r_def split: if_splits)
  have loop: "rfold (\<lambda>L (l, files). UpdateLevel l [] files cmp L) L0
      (map (\<lambda>l. (l, filter (\<lambda>f. level f = l) input)) ls) = Inr L"
    and num: "total_file_num L = length input"
    using assms r
    by (auto simp: Levels_Create_def Let_def r_def [symmetric] L0_def [symmetric] GroupByLevel_def ls_def rbind_eq_Inr split: if_splits)
  have empty: "at_level L0 l = []" if "0 \<le> l" "l \<le> int (length (levels L0))" for l
    using that by (auto simp: at_level_def L0_def SortedRun_Empty_def nth_replicate split: if_splits)
  have ok0: "levels_ok cmp L0" by (simp add: levels_ok_def L0_def run_ok_def SortedRun_Empty_def IsValid_def)
  have lv: "l \<le> int (length (levels L0)) \<and> filter (\<lambda>f. level f = l) input \<noteq> []" if l: "l \<in> set ls" for l
  proof -
    obtain f where f: "f \<in> set input" "level f = l" using l by (auto simp: ls_def)
    then have "l \<le> r - 1" using highest_level_ge [of f input] by (simp add: r_def)
    then show ?thesis using f r by (auto simp: L0_def filter_empty_conv)
  qed
  have spec: "levels_ok cmp L" "length (levels L) = length (levels L0)"
    "\<And>l. 0 \<le> l \<Longrightarrow> mset (at_level L l) \<subseteq># (if l \<in> set ls then mset (filter (\<lambda>f. level f = l) input) else mset (at_level L0 l))"
    using create_loop [OF loop _ _ ok0] lv empty by (auto simp: ls_def)
  have "mset (AllFiles L) \<subseteq># mset input"
  proof (rule mset_subset_eqI)
    fix f
    show "count (mset (AllFiles L)) f \<le> count (mset input) f"
    proof (cases "0 \<le> level f \<and> level f \<le> int (length (levels L))")
      case True
      have "mset (at_level L (level f)) \<subseteq># mset (filter (\<lambda>g. level g = level f) input)"
        using spec(3) [of "level f"] True empty spec(2) by (auto split: if_splits)
      then have "count (mset (at_level L (level f))) f \<le> count (mset (filter (\<lambda>g. level g = level f) input)) f"
        by (rule mset_subset_eq_count)
      then show ?thesis using True count_AllFiles [OF spec(1), of f] by (simp add: count_filter_mset mset_filter)
    qed (auto simp: count_AllFiles [OF spec(1)])
  qed
  moreover have "size (mset (AllFiles L)) = size (mset input)" using num by (simp add: total_file_num_eq)
  ultimately have "mset (AllFiles L) = mset input" by (metis mset_subset_size nat_neq_iff subset_mset.le_imp_less_or_eq)
  then show ?thesis using spec r by (simp add: NumberOfLevels_def L0_def r_def)
qed

section \<open>Update\<close>

text \<open>
  What a caller of \<open>Update\<close> provides: the files to remove are files of the levels, names identify files,
  and the files to add have levels of the tree and names of their own or of removed files.
\<close>

definition update_pre :: "levels_state \<Rightarrow> data_file_meta list \<Rightarrow> data_file_meta list \<Rightarrow> bool" where
  "update_pre L before after \<longleftrightarrow>
     distinct (map file_name (AllFiles L)) \<and> set before \<subseteq> set (AllFiles L) \<and> distinct (map file_name after) \<and>
     (\<forall>a \<in> set after. 0 \<le> level a \<and> level a < NumberOfLevels L) \<and>
     file_name ` set after \<inter> file_name ` (set (AllFiles L) - set before) = {}"

text \<open>One level, with the parts of the precondition that concern it.\<close>

lemma UpdateLevel_files:
  assumes "UpdateLevel l before after cmp L = Inr L'" "0 \<le> l" "l \<le> int (length (levels L))" "levels_ok cmp L"
    and names: "distinct (map file_name (at_level L l))" "set before \<subseteq> set (at_level L l)"
      "distinct (map file_name after)" "file_name ` set after \<inter> file_name ` (set (at_level L l) - set before) = {}"
  shows "set (at_level L' l) = (set (at_level L l) - set before) \<union> set after \<and> distinct (at_level L' l)"
proof (cases "before = [] \<and> after = []")
  case True
  then show ?thesis using assms by (simp add: UpdateLevel_def distinct_map)
next
  case False
  let ?xs = "at_level L l"
  have inj: "inj_on file_name (set ?xs)" "inj_on file_name (set after)" "distinct ?xs" "distinct after"
    using names by (auto simp: distinct_map)
  have kept: "{x \<in> set ?xs. file_name x \<notin> file_name ` set before} = set ?xs - set before"
    using inj(1) names(2) by (auto simp: inj_on_def)
  from UpdateLevel_at [OF assms(1-3)] False consider
      (zero) "l = 0" "at_level L' l = fold level0_insert after (fold level0_erase before ?xs)"
    | (pos) "mset (at_level L' l) = mset (fold (\<lambda>b. erase_by_name (file_name b)) before ?xs @ after)" by auto
  then show ?thesis
  proof cases
    case zero
    let ?ys = "fold level0_erase before ?xs"
    have ys: "set ?ys = set ?xs - set before"
      using inj(1) names(2) by (auto simp: set_fold_level0_erase inj_on_def dest: level0_key_name)
    have "inj_on file_name (set after \<union> set ?ys)"
      using inj(1,2) names(4) ys by (auto simp: inj_on_Un intro: inj_on_subset)
    then have keys: "inj_on level0_key (set after \<union> set ?ys)"
      by (auto simp: inj_on_def dest: level0_key_name)
    have "set after \<inter> set ?ys = {}" using names(4) ys by auto
    then have "set (at_level L' l) = set after \<union> set ?ys"
      using set_fold_level0_insert [OF keys inj(4)] zero(2) by simp
    moreover have "distinct (at_level L' l)"
      using assms(4) zero by (simp add: levels_ok_def at_level_def sorted_level0_folds sorted_level0_distinct)
    ultimately show ?thesis using ys by auto
  next
    case pos
    let ?ys = "fold (\<lambda>b. erase_by_name (file_name b)) before ?xs"
    have ys: "set ?ys = set ?xs - set before" "distinct (map file_name ?ys)"
      using fold_erase_by_name [OF names(1), of before] kept by auto
    then have "distinct (?ys @ after)" using inj(4) names(4) by (auto simp: distinct_map)
    then show ?thesis using pos ys(1) by (metis mset_eq_imp_distinct_iff mset_eq_setD set_append)
  qed
qed

lemma update_levels_files:
  assumes "update_levels cmp before after is L = (L', Inr ())" "levels_ok cmp L"
    "\<forall>i \<in> set is. 0 \<le> i \<and> i \<le> int (length (levels L))" "distinct is"
    "\<And>i. i \<in> set is \<Longrightarrow> distinct (map file_name (at_level L i)) \<and>
       {b \<in> set before. level b = i} \<subseteq> set (at_level L i) \<and>
       file_name ` set after \<inter> file_name ` (set (at_level L i) - set before) = {}"
    "distinct (map file_name after)"
  shows "levels_ok cmp L' \<and> length (levels L') = length (levels L) \<and> drop_file_callbacks L' = drop_file_callbacks L \<and>
    (\<forall>i \<ge> 0. i \<notin> set is \<longrightarrow> at_level L' i = at_level L i) \<and>
    (\<forall>i \<in> set is. set (at_level L' i) = (set (at_level L i) - set before) \<union> {a \<in> set after. level a = i} \<and>
       distinct (at_level L' i))"
  using assms
proof (induction "is" arbitrary: L)
  case (Cons i "is")
  let ?b = "filter (\<lambda>f. level f = i) before" and ?a = "filter (\<lambda>f. level f = i) after"
  obtain M where M: "UpdateLevel i ?b ?a cmp L = Inr M" and rest: "update_levels cmp before after is M = (L', Inr ())"
    using Cons.prems(1) by (auto split: sum.splits)
  have i: "0 \<le> i" "i \<le> int (length (levels L))" using Cons.prems(3) by auto
  have lev: "level f = i" if "f \<in> set (at_level L i)" for f using at_level_level [OF Cons.prems(2) i that] .
  note frame = UpdateLevel_frame [OF M i(1)]
  have ok: "levels_ok cmp M" using UpdateLevel_ok [OF M i Cons.prems(2)] by simp
  have minus: "set (at_level L i) - set ?b = set (at_level L i) - set before" using lev by auto
  have "set (at_level M i) = (set (at_level L i) - set ?b) \<union> set ?a \<and> distinct (at_level M i)"
  proof (rule UpdateLevel_files [OF M i Cons.prems(2)])
    show "distinct (map file_name ?a)" using Cons.prems(6) by (simp add: distinct_map_filter)
    show "file_name ` set ?a \<inter> file_name ` (set (at_level L i) - set ?b) = {}"
      using Cons.prems(5) [of i] unfolding minus by auto
  qed (use Cons.prems(5) [of i] in auto)
  then have here: "set (at_level M i) = (set (at_level L i) - set before) \<union> {a \<in> set after. level a = i}" "distinct (at_level M i)"
    unfolding minus by auto
  have other: "at_level M k = at_level L k" if "k \<in> set is" for k using frame that Cons.prems(3,4) by auto
  have "levels_ok cmp L' \<and> length (levels L') = length (levels M) \<and> drop_file_callbacks L' = drop_file_callbacks M \<and>
    (\<forall>k \<ge> 0. k \<notin> set is \<longrightarrow> at_level L' k = at_level M k) \<and>
    (\<forall>k \<in> set is. set (at_level L' k) = (set (at_level M k) - set before) \<union> {a \<in> set after. level a = k} \<and>
       distinct (at_level L' k))"
    using Cons.prems(3,4,6) frame other Cons.prems(5) by (intro Cons.IH [OF rest ok]) auto
  then show ?case using frame here other i(1) Cons.prems(4) by auto
qed simp

lemma at_level_distinct:
  "distinct (AllFiles L) \<Longrightarrow> 0 \<le> i \<Longrightarrow> i \<le> int (length (levels L)) \<Longrightarrow> distinct (at_level L i)"
  by (auto simp: AllFiles_eq at_level_def distinct_concat_iff)

lemma AllFiles_distinct:
  assumes "levels_ok cmp L" "\<And>i. 0 \<le> i \<Longrightarrow> i \<le> int (length (levels L)) \<Longrightarrow> distinct (at_level L i)"
  shows "distinct (AllFiles L)"
proof -
  have one: "count (mset (AllFiles L)) f \<le> 1" for f
  proof (cases "0 \<le> level f \<and> level f \<le> int (length (levels L))")
    case True
    then have "count (mset (at_level L (level f))) f \<le> 1"
      using assms(2) [of "level f"] by (simp add: distinct_count_atmost_1)
    then show ?thesis using count_AllFiles [OF assms(1), of f] True by simp
  qed (auto simp: count_AllFiles [OF assms(1)])
  have "count (mset (AllFiles L)) f = (if f \<in> set (AllFiles L) then 1 else 0)" for f
  proof (cases "f \<in> set (AllFiles L)")
    case True
    then have "count (mset (AllFiles L)) f \<noteq> 0" by (simp add: count_eq_zero_iff)
    then have "count (mset (AllFiles L)) f = 1" using one [of f] by linarith
    then show ?thesis using True by simp
  qed (simp add: count_eq_zero_iff)
  then show ?thesis unfolding distinct_count_atmost_1 by blast
qed

lemma Update_correct:
  assumes "Update cmp L before after = (L', Inr notes)" "levels_ok cmp L" "update_pre L before after"
  shows "levels_ok cmp L'" "NumberOfLevels L' = NumberOfLevels L"
    "set (AllFiles L') = (set (AllFiles L) - set before) \<union> set after" "distinct (map file_name (AllFiles L'))"
    "set notes = {(c, n). Some c \<in> set (drop_file_callbacks L) \<and> n \<in> file_name ` set before - file_name ` set after}"
proof -
  let ?I = "{0..int (length (levels L))}"
  have loop: "update_levels cmp before after [0..NumberOfLevels L - 1] L = (L', Inr ())"
    and sent: "notes = notifications (drop_file_callbacks L') (dropped_files before after)"
    using assms(1) by (auto simp: Update_def split: prod.splits sum.splits)
  have pre: "distinct (map file_name (AllFiles L))" "set before \<subseteq> set (AllFiles L)" "distinct (map file_name after)"
    "\<And>a. a \<in> set after \<Longrightarrow> level a \<in> ?I" "file_name ` set after \<inter> file_name ` (set (AllFiles L) - set before) = {}"
    using assms(3) by (auto simp: update_pre_def NumberOfLevels_def)
  have at: "set (at_level L i) \<subseteq> set (AllFiles L)" "distinct (at_level L i)" if "i \<in> ?I" for i
    using set_AllFiles [of L] that at_level_distinct [of L i] pre(1) by (auto simp: distinct_map)
  have before: "{b \<in> set before. level b = i} \<subseteq> set (at_level L i)" if "i \<in> ?I" for i
  proof
    fix b assume "b \<in> {b \<in> set before. level b = i}"
    moreover from this obtain l where "l \<in> ?I" "b \<in> set (at_level L l)" using pre(2) by (auto simp: set_AllFiles)
    ultimately show "b \<in> set (at_level L i)" using at_level_level [OF assms(2), of l b] by auto
  qed
  have I: "set [0..NumberOfLevels L - 1] = ?I" by (simp add: NumberOfLevels_def)
  have per: "distinct (map file_name (at_level L i)) \<and> {b \<in> set before. level b = i} \<subseteq> set (at_level L i) \<and>
      file_name ` set after \<inter> file_name ` (set (at_level L i) - set before) = {}"
    if "i \<in> set [0..NumberOfLevels L - 1]" for i
  proof (intro conjI)
    have i: "i \<in> ?I" using that I by simp
    show "distinct (map file_name (at_level L i))"
      using at [OF i] pre(1) by (auto simp: distinct_map intro: inj_on_subset)
    show "{b \<in> set before. level b = i} \<subseteq> set (at_level L i)" using before [OF i] .
    show "file_name ` set after \<inter> file_name ` (set (at_level L i) - set before) = {}"
      using pre(5) at(1) [OF i] by blast
  qed
  note spec = update_levels_files [OF loop assms(2) _ _ per pre(3), unfolded I]
  have spec: "levels_ok cmp L'" "length (levels L') = length (levels L)" "drop_file_callbacks L' = drop_file_callbacks L"
    "\<And>i. i \<in> ?I \<Longrightarrow> set (at_level L' i) = (set (at_level L i) - set before) \<union> {a \<in> set after. level a = i} \<and> distinct (at_level L' i)"
    using spec by auto
  show "levels_ok cmp L'" "NumberOfLevels L' = NumberOfLevels L" using spec by (simp_all add: NumberOfLevels_def)
  show files: "set (AllFiles L') = (set (AllFiles L) - set before) \<union> set after"
  proof -
    have "set after = (\<Union>i \<in> ?I. {a \<in> set after. level a = i})" using pre(4) by auto
    moreover have "set (AllFiles L') = (\<Union>i \<in> ?I. (set (at_level L i) - set before) \<union> {a \<in> set after. level a = i})"
      using spec(2,4) by (simp add: set_AllFiles)
    ultimately show ?thesis unfolding set_AllFiles [of L] by blast
  qed
  have "distinct (AllFiles L')" using AllFiles_distinct [OF spec(1)] spec(2,4) by simp
  moreover have "inj_on file_name (set (AllFiles L'))"
    using pre(1,3,5) unfolding files by (auto simp: distinct_map inj_on_Un intro: inj_on_subset)
  ultimately show "distinct (map file_name (AllFiles L'))" by (simp add: distinct_map)
  show "set notes = {(c, n). Some c \<in> set (drop_file_callbacks L) \<and> n \<in> file_name ` set before - file_name ` set after}"
    by (auto simp: sent notifications_def dropped_files_def spec(3) split: option.splits)
qed

section \<open>Sorted runs of the levels\<close>

lemma level_runs_from_levels:
  "r \<in> set (level_runs_from l runs) \<Longrightarrow> l \<le> run_level r \<and> run_level r < l + int (length runs) \<and>
     lrun r = runs ! nat (run_level r - l) \<and> run_files (lrun r) \<noteq> []"
proof (induction runs arbitrary: l)
  case (Cons run runs)
  show ?case
  proof (cases "r \<in> set (level_runs_from (l + 1) runs)")
    case True
    note IH = Cons.IH [OF True]
    then have "nat (run_level r - l) = Suc (nat (run_level r - (l + 1)))" by linarith
    then show ?thesis using IH by (auto simp: algebra_simps)
  next
    case False
    then show ?thesis using Cons.prems by (auto simp: IsEmpty_def split: if_splits)
  qed
qed simp

lemma level_runs_from_sorted: "sorted_wrt (\<lambda>a b. run_level a < run_level b) (level_runs_from l runs)"
  by (induction runs arbitrary: l) (auto simp: sorted_wrt_append dest: level_runs_from_levels)

lemma LevelSortedRuns_sorted:
  "sorted_wrt (\<lambda>a b. run_level a \<le> run_level b \<and> (run_level b = 0 \<or> run_level a < run_level b)) (LevelSortedRuns L)"
  using level_runs_from_sorted [of 1 "levels L"]
  by (auto simp: LevelSortedRuns_def sorted_wrt_append sorted_wrt_map dest: level_runs_from_levels
      intro: sorted_wrt_mono_rel [of _ "\<lambda>a b. run_level a < run_level b"])

lemma LevelSortedRuns_bounds:
  "r \<in> set (LevelSortedRuns L) \<Longrightarrow> 0 \<le> run_level r \<and> run_level r \<le> MaxLevel L \<and> run_files (lrun r) \<noteq> []"
  by (auto simp: LevelSortedRuns_def FromSingle_def MaxLevel_def dest: level_runs_from_levels)

lemma NumberOfSortedRuns_eq: "NumberOfSortedRuns L = int (length (LevelSortedRuns L))"
proof -
  have "foldl (\<lambda>n run. if \<not> IsEmpty run then n + 1 else n) n runs = n + int (length (level_runs_from l runs))" for n l runs
  proof (induction runs arbitrary: n l)
    case (Cons run runs)
    show ?case using Cons.IH [of "if \<not> IsEmpty run then n + 1 else n" "l + 1"] by simp
  qed simp
  then show ?thesis by (simp add: NumberOfSortedRuns_def LevelSortedRuns_def)
qed

lemma TotalFileSize_eq: "levels_ok cmp L \<Longrightarrow> TotalFileSize L = (\<Sum>f \<leftarrow> AllFiles L. file_size f)"
proof -
  assume "levels_ok cmp L"
  then have "\<forall>run \<in> set (levels L). total_size run = (\<Sum>f \<leftarrow> run_files run. file_size f)"
    by (auto simp: levels_ok_def run_ok_def in_set_conv_nth)
  moreover have "\<forall>run \<in> set rs. total_size run = (\<Sum>f \<leftarrow> run_files run. file_size f) \<Longrightarrow>
      (\<Sum>run \<leftarrow> rs. total_size run) = (\<Sum>f \<leftarrow> concat (map run_files rs). file_size f)" for rs
    by (induction rs) simp_all
  ultimately have "(\<Sum>run \<leftarrow> levels L. total_size run) = (\<Sum>f \<leftarrow> concat (map run_files (levels L)). file_size f)"
    by blast
  then show ?thesis by (simp add: TotalFileSize_def AllFiles_eq foldl_sum)
qed

definition file_ok :: "row_compare \<Rightarrow> data_file_meta \<Rightarrow> bool" where
  "file_ok cmp f \<longleftrightarrow> cmp (min_key f) (max_key f) \<le> 0"

context key_comparator
begin

lemma valid_files_sorted:
  "valid_files key_cmp fs \<Longrightarrow> \<forall>f \<in> set fs. file_ok key_cmp f \<Longrightarrow>
   sorted_wrt (\<lambda>a b. key_cmp (max_key a) (min_key b) < 0) fs"
proof (induction fs rule: induct_list012)
  case (3 a b fs)
  have ab: "key_cmp (max_key a) (min_key b) < 0" using 3(3) cmp_flip by simp
  have "key_cmp (max_key a) (min_key c) < 0" if "c \<in> set fs" for c
  proof -
    have "key_cmp (max_key b) (min_key c) < 0" using 3 that by simp
    moreover have "key_cmp (min_key b) (max_key b) \<le> 0" using 3(4) by (simp add: file_ok_def)
    ultimately have "key_cmp (min_key b) (min_key c) < 0" by (rule cmp_le_trans_less [rotated])
    then show ?thesis using cmp_trans_less [OF ab] by simp
  qed
  then show ?case using 3 ab by simp
qed simp_all

text \<open>At most one file of a valid run can hold a key.\<close>

lemma valid_files_unique:
  assumes "valid_files key_cmp fs" "\<forall>f \<in> set fs. file_ok key_cmp f"
    "f \<in> set fs" "g \<in> set fs" "key_cmp (min_key f) k \<le> 0" "key_cmp k (max_key f) \<le> 0"
    "key_cmp (min_key g) k \<le> 0" "key_cmp k (max_key g) \<le> 0"
  shows "f = g"
proof (rule ccontr)
  assume "f \<noteq> g"
  then have "key_cmp (max_key f) (min_key g) < 0 \<or> key_cmp (max_key g) (min_key f) < 0"
    using assms(3,4) sorted_wrt_nth_mono [OF valid_files_sorted [OF assms(1,2)]]
    by (metis in_set_conv_nth linorder_neqE_nat)
  then show False
    using assms(5-8) cmp_trans_less [of "max_key f" "min_key g" k] cmp_trans_less [of "max_key g" "min_key f" k]
      cmp_flip [of "max_key f" k] cmp_flip [of "max_key g" k] by auto
qed

end

section \<open>Properties\<close>

text \<open>
  C16. When \<open>Levels::Create\<close> succeeds, every input file is stored exactly once, on the level it carries,
  level 0 is ordered by age, every other level is a valid sorted run with a correct size, and there are
  at least two levels and room for every file.
\<close>

theorem Levels_Create_invariant:
  assumes "Levels_Create cmp input n = Inr L"
  shows "levels_ok cmp L \<and> mset (AllFiles L) = mset input \<and> TotalFileSize L = (\<Sum>f \<leftarrow> input. file_size f) \<and>
    NumberOfLevels L = max (highest_level input + 1) n \<and> 2 \<le> NumberOfLevels L"
proof -
  note c = Levels_Create_correct [OF assms]
  then have "TotalFileSize L = (\<Sum>f \<leftarrow> AllFiles L. file_size f)" using TotalFileSize_eq by blast
  also have "\<dots> = (\<Sum>f \<leftarrow> input. file_size f)" using c by (metis mset_map sum_mset_sum_list)
  finally show ?thesis using c by simp
qed

theorem Levels_Create_invariant_witness:
  "\<exists>L. Levels_Create (\<lambda>_ _. 0) [example_file ''a'' 1 [] [] 1 5, example_file ''b'' 0 [] [] 6 9] 3 = Inr L \<and>
     levels_ok (\<lambda>_ _. 0) L \<and> TotalFileSize L = 200"
proof -
  obtain L where L: "Levels_Create (\<lambda>_ _. 0) [example_file ''a'' 1 [] [] 1 5, example_file ''b'' 0 [] [] 6 9] 3 = Inr L"
    by (simp add: Levels_Create_def GroupByLevel_def highest_level_def UpdateLevel_def RunOfLevel_def FromUnsorted_def
        IsValid_def Let_def SortedRun_Empty_def total_file_num_def numeral_2_eq_2)
  then show ?thesis using Levels_Create_invariant [OF L] by auto
qed

text \<open>
  C4. When \<open>Levels::Update\<close> succeeds on files of the tree, exactly the files to remove are gone and the
  files to add are there, the names stay unique, the invariant of the levels is kept, and each callback
  is told exactly the names that are removed and not added again.
\<close>

theorem Levels_Update_invariant:
  assumes "Update cmp L before after = (L', Inr notes)" "levels_ok cmp L" "update_pre L before after"
  shows "levels_ok cmp L' \<and> NumberOfLevels L' = NumberOfLevels L \<and>
    set (AllFiles L') = (set (AllFiles L) - set before) \<union> set after \<and> distinct (map file_name (AllFiles L')) \<and>
    set notes = {(c, n). Some c \<in> set (drop_file_callbacks L) \<and> n \<in> file_name ` set before - file_name ` set after}"
  using Update_correct [OF assms] by blast

theorem Levels_Update_invariant_witness:
  "\<exists>L L' notes. level0 L = [example_file ''b'' 0 [] [] 6 9] \<and>
     Update (\<lambda>_ _. 0) L [example_file ''b'' 0 [] [] 6 9] [example_file ''b'' 1 [] [] 6 9] = (L', Inr notes) \<and>
     set (AllFiles L') = {example_file ''b'' 1 [] [] 6 9} \<and> set notes = {}"
proof -
  let ?b = "example_file ''b'' 0 [] [] 6 9" and ?c = "example_file ''b'' 1 [] [] 6 9"
  define L where "L = \<lparr>level0 = [?b], levels = [SortedRun_Empty], drop_file_callbacks = [Some 7]\<rparr>"
  have "\<exists>L' notes. Update (\<lambda>_ _. 0) L [?b] [?c] = (L', Inr notes)"
    by (simp add: Update_def NumberOfLevels_def L_def UpdateLevel_def RunOfLevel_def FromUnsorted_def IsValid_def
        Let_def SortedRun_Empty_def upto.simps)
  moreover have "levels_ok (\<lambda>_ _. 0) L" "update_pre L [?b] [?c]"
    by (simp_all add: L_def levels_ok_def run_ok_def IsValid_def SortedRun_Empty_def update_pre_def AllFiles_eq NumberOfLevels_def)
  moreover have "set (AllFiles L) = {?b}" "drop_file_callbacks L = [Some 7]" "level0 L = [?b]"
    by (simp_all add: L_def AllFiles_eq SortedRun_Empty_def)
  moreover obtain L' ns where u: "Update (\<lambda>_ _. 0) L [?b] [?c] = (L', Inr ns)" using calculation(1) by blast
  ultimately have "set (AllFiles L') = {?c} \<and> set ns = {}"
    using Levels_Update_invariant [OF u] by (auto simp: example_file_def)
  then show ?thesis using u \<open>level0 L = [?b]\<close> by blast
qed

text \<open>
  C30. In levels built over a key comparator from files whose least key is not above the greatest, two
  files of one level above 0 never share a key: a lookup reads at most one file per such level.
\<close>

theorem level_holds_key_once:
  assumes "FieldsComparator_Create types sort_idx asc = Inr fc"
    "Levels_Create (FieldsComparator_CompareTo fc) input n = Inr L"
    "\<forall>f \<in> set input. file_ok (FieldsComparator_CompareTo fc) f"
    "i < length (levels L)" "f \<in> set (run_files (levels L ! i))" "g \<in> set (run_files (levels L ! i))"
    "FieldsComparator_CompareTo fc (min_key f) k \<le> 0" "FieldsComparator_CompareTo fc k (max_key f) \<le> 0"
    "FieldsComparator_CompareTo fc (min_key g) k \<le> 0" "FieldsComparator_CompareTo fc k (max_key g) \<le> 0"
  shows "f = g"
proof -
  note create = Levels_Create_correct [OF assms(2)]
  then have "valid_files (FieldsComparator_CompareTo fc) (run_files (levels L ! i))"
    using assms(4) by (simp add: levels_ok_def run_ok_def IsValid_def)
  moreover have "set (run_files (levels L ! i)) \<subseteq> set input"
  proof -
    have "set (AllFiles L) = set input" using create mset_eq_setD by blast
    then show ?thesis using nth_mem [OF assms(4)] by (auto simp: AllFiles_eq)
  qed
  ultimately show ?thesis
    using key_comparator.valid_files_unique [OF FieldsComparator_key_comparator [OF assms(1)] _ _ assms(5-10)] assms(3)
    by blast
qed

theorem level_holds_key_once_witness:
  "\<exists>fc L f. FieldsComparator_Create [INT32] [0] True = Inr fc \<and>
     Levels_Create (FieldsComparator_CompareTo fc) [example_file ''a'' 1 [VInt 3] [VInt 8] 1 5] 2 = Inr L \<and>
     f \<in> set (run_files (levels L ! 0)) \<and> f = example_file ''a'' 1 [VInt 3] [VInt 8] 1 5"
proof -
  let ?a = "example_file ''a'' 1 [VInt 3] [VInt 8] 1 5"
  obtain fc where fc: "FieldsComparator_Create [INT32] [0] True = Inr fc" by (simp add: FieldsComparator_Create_def)
  have cmp: "FieldsComparator_CompareTo fc [VInt a] [VInt b] =
      (if sint a = sint b then 0 else if sint a < sint b then -1 else 1)" for a b
    using fc by (auto simp: FieldsComparator_Create_def FieldsComparator_CompareTo_def IsNullAt_def IsVariantNull_def
        row_field_def GetInt_def Let_def)
  obtain L where L: "Levels_Create (FieldsComparator_CompareTo fc) [?a] 2 = Inr L" "run_files (levels L ! 0) = [?a]"
    by (simp add: Levels_Create_def GroupByLevel_def highest_level_def UpdateLevel_def RunOfLevel_def FromUnsorted_def
        IsValid_def Let_def SortedRun_Empty_def total_file_num_def)
  have "length (levels L) = 1" using Levels_Create_correct [OF L(1)] by (simp add: NumberOfLevels_def highest_level_def)
  then have "f = ?a" if "f \<in> set (run_files (levels L ! 0))" for f
    using level_holds_key_once [OF fc L(1), of 0 f ?a "[VInt 5]"] that L(2) cmp by (simp add: file_ok_def)
  then show ?thesis using fc L by auto
qed

end
