(* ===== verification/Interval_Partition.thy ===== *)
theory Interval_Partition
  imports Levels
begin

text \<open>
  Partitioning of files into sections and sorted runs (\<^verbatim>\<open>core/mergetree/compact/interval_partition.cpp\<close>).
  The files are sorted by their key intervals, cut into sections that share no key, and each section is
  packed greedily into sorted runs with a priority queue of the runs' ends. The lemmas show that nothing
  is lost, that sections are separated, that the runs are valid, and that their number is the least
  possible. \<open>std::priority_queue\<close> is the list with \<open>pq_pop\<close> of the prelude.
\<close>

definition interval_less :: "row_compare \<Rightarrow> data_file_meta \<Rightarrow> data_file_meta \<Rightarrow> bool" where
  "interval_less cmp o1 o2 =
     (let left_result = cmp (min_key o1) (min_key o2) in
      if left_result = 0 then cmp (max_key o1) (max_key o2) < 0 else left_result < 0)"

definition IntervalPartition_files :: "row_compare \<Rightarrow> data_file_meta list \<Rightarrow> data_file_meta list" where
  "IntervalPartition_files cmp input_files = stable_sort (interval_less cmp) input_files"

definition run_below :: "row_compare \<Rightarrow> data_file_meta list \<Rightarrow> data_file_meta list \<Rightarrow> bool" where
  "run_below cmp o1 o2 =
     (let right_result = cmp (max_key (last o1)) (max_key (last o2)) in
      if right_result = 0 then cmp (min_key (last o1)) (min_key (last o2)) > 0 else right_result > 0)"

text \<open>One round of the loop; popping from the queue, which is never empty there, and pushing back.\<close>

definition place_file :: "row_compare \<Rightarrow> data_file_meta list list \<Rightarrow> data_file_meta \<Rightarrow> data_file_meta list list" where
  "place_file cmp queue meta =
     (case pq_pop (run_below cmp) queue of
        None \<Rightarrow> [[meta]]
      | Some (head_run, queue') \<Rightarrow>
          if cmp (min_key meta) (max_key (last head_run)) > 0 then (head_run @ [meta]) # queue'
          else head_run # [meta] # queue')"

function drain_queue :: "row_compare \<Rightarrow> data_file_meta list list \<Rightarrow> sorted_run list" where
  "drain_queue cmp queue =
     (case pq_pop (run_below cmp) queue of
        None \<Rightarrow> []
      | Some (head_run, queue') \<Rightarrow> FromSorted head_run # drain_queue cmp queue')"
  by pat_completeness auto
termination by (relation "measure (\<lambda>(_, q). length q)") auto

declare drain_queue.simps [simp del]

definition partition_section :: "row_compare \<Rightarrow> data_file_meta list \<Rightarrow> sorted_run list" where
  "partition_section cmp metas = drain_queue cmp (foldl (place_file cmp) [[hd metas]] (tl metas))"

fun section_loop ::
  "row_compare \<Rightarrow> data_file_meta list \<Rightarrow> row \<Rightarrow> data_file_meta list \<Rightarrow> data_file_meta list list" where
  "section_loop cmp sec bound [] = (if sec \<noteq> [] then [sec] else [])"
| "section_loop cmp sec bound (meta # metas) =
     (if sec \<noteq> [] \<and> cmp (min_key meta) bound > 0
      then sec # section_loop cmp [meta] (max_key meta) metas
      else section_loop cmp (sec @ [meta])
             (if bound = EmptyRow \<or> cmp (max_key meta) bound > 0 then max_key meta else bound) metas)"

definition Partition :: "row_compare \<Rightarrow> data_file_meta list \<Rightarrow> sorted_run list list" where
  "Partition cmp input_files =
     map (partition_section cmp) (section_loop cmp [] EmptyRow (IntervalPartition_files cmp input_files))"

section \<open>The queue of runs\<close>

lemma pq_pop_Some_iff: "q \<noteq> [] \<Longrightarrow> \<exists>t r. pq_pop below q = Some (t, r)"
  by (metis pq_pop_None not_Some_eq surj_pair)

lemma drain_queue_runs: "mset (map run_files (drain_queue cmp q)) = mset q"
proof (induction cmp q rule: drain_queue.induct)
  case (1 cmp q)
  show ?case
  proof (cases "pq_pop (run_below cmp) q")
    case None
    then show ?thesis unfolding drain_queue.simps [of cmp q] by simp
  next
    case (Some tr)
    obtain t r where tr: "tr = (t, r)" by (cases tr)
    have "mset (map run_files (drain_queue cmp r)) = mset r" using 1 Some tr by simp
    moreover have "mset q = add_mset t (mset r)" using pq_pop_mset Some tr by metis
    ultimately show ?thesis
      unfolding drain_queue.simps [of cmp q] using Some tr by (simp add: FromSorted_def)
  qed
qed

text \<open>The cases of one round, with the multiset of the queue before it.\<close>

lemma place_file_cases:
  assumes "q \<noteq> []"
  obtains (append) t r where "pq_pop (run_below cmp) q = Some (t, r)" "mset q = add_mset t (mset r)"
      "cmp (min_key m) (max_key (last t)) > 0" "place_file cmp q m = (t @ [m]) # r"
    | (fresh) t r where "pq_pop (run_below cmp) q = Some (t, r)" "mset q = add_mset t (mset r)"
      "\<not> cmp (min_key m) (max_key (last t)) > 0" "place_file cmp q m = t # [m] # r"
proof -
  obtain t r where tr: "pq_pop (run_below cmp) q = Some (t, r)" using pq_pop_Some_iff [OF assms] by blast
  have "mset q = add_mset t (mset r)" using pq_pop_mset [OF tr] .
  then show thesis
    using tr append [of t r] fresh [of t r] by (cases "cmp (min_key m) (max_key (last t)) > 0") (simp_all add: place_file_def)
qed

lemma place_file_nonempty: "place_file cmp q m \<noteq> []"
  by (auto simp: place_file_def split: option.splits)

lemma mset_concat: "mset (concat xss) = (\<Sum>xs \<in># mset xss. mset xs)"
  by (induction xss) simp_all

lemma mset_place_file: "q \<noteq> [] \<Longrightarrow> mset (concat (place_file cmp q m)) = add_mset m (mset (concat q))"
  by (rule place_file_cases [of q cmp m]) (simp_all add: mset_concat)

lemma mset_foldl_place_file:
  "q \<noteq> [] \<Longrightarrow> mset (concat (foldl (place_file cmp) q ms)) = mset (concat q) + mset ms"
  by (induction ms arbitrary: q) (simp_all add: mset_place_file place_file_nonempty)

lemma valid_files_append:
  "valid_files cmp (xs @ [m]) \<longleftrightarrow> valid_files cmp xs \<and> (xs \<noteq> [] \<longrightarrow> \<not> cmp (min_key m) (max_key (last xs)) \<le> 0)"
  by (induction cmp xs rule: valid_files.induct) auto

lemma place_file_valid:
  assumes "q \<noteq> []" "\<forall>run \<in> set q. run \<noteq> [] \<and> valid_files cmp run"
  shows "\<forall>run \<in> set (place_file cmp q m). run \<noteq> [] \<and> valid_files cmp run"
  using assms(1)
proof (cases rule: place_file_cases [of q cmp m])
  case (append t r)
  then have "set q = insert t (set r)" by (metis set_mset_add_mset_insert set_mset_mset)
  then show ?thesis using assms(2) append by (auto simp: valid_files_append)
next
  case (fresh t r)
  then have "set q = insert t (set r)" by (metis set_mset_add_mset_insert set_mset_mset)
  then show ?thesis using assms(2) fresh by auto
qed

lemma foldl_place_file_valid:
  "q \<noteq> [] \<Longrightarrow> \<forall>run \<in> set q. run \<noteq> [] \<and> valid_files cmp run \<Longrightarrow>
   \<forall>run \<in> set (foldl (place_file cmp) q ms). run \<noteq> [] \<and> valid_files cmp run"
proof (induction ms arbitrary: q)
  case (Cons m ms)
  show ?case using Cons.IH [OF place_file_nonempty place_file_valid [OF Cons.prems]] by simp
qed simp

lemma partition_section_files: "ms \<noteq> [] \<Longrightarrow> mset (concat (map run_files (partition_section cmp ms))) = mset ms"
proof -
  assume "ms \<noteq> []"
  then have "mset (concat (foldl (place_file cmp) [[hd ms]] (tl ms))) = mset ms"
    by (cases ms) (simp_all add: mset_foldl_place_file)
  then show ?thesis by (simp add: mset_concat drain_queue_runs partition_section_def del: mset_map)
qed

lemma partition_section_valid:
  assumes "run \<in> set (partition_section cmp ms)"
  shows "IsValid cmp run \<and> run_files run \<noteq> []"
proof -
  have "set (map run_files (partition_section cmp ms)) = set (foldl (place_file cmp) [[hd ms]] (tl ms))"
    using drain_queue_runs unfolding partition_section_def by (metis mset_eq_setD)
  then have "run_files run \<in> set (foldl (place_file cmp) [[hd ms]] (tl ms))" using assms by auto
  then show ?thesis
    using foldl_place_file_valid [of "[[hd ms]]" cmp "tl ms"] by (auto simp: IsValid_def)
qed

section \<open>Sections\<close>

lemma concat_section_loop: "concat (section_loop cmp sec bound ms) = sec @ ms"
  by (induction ms arbitrary: sec bound) auto

lemma section_loop_nonempty: "[] \<notin> set (section_loop cmp sec bound ms)"
  by (induction ms arbitrary: sec bound) auto

lemma map_last_subset: "\<forall>run \<in> set q. run \<noteq> [] \<Longrightarrow> mset (map last q) \<subseteq># mset (concat q)"
proof (induction q)
  case (Cons run q)
  have "{#last run#} \<subseteq># mset run" using Cons.prems by simp
  moreover have "mset (map last q) \<subseteq># mset (concat q)" using Cons by simp
  ultimately have "{#last run#} + mset (map last q) \<subseteq># mset run + mset (concat q)" by (rule subset_mset.add_mono)
  then show ?case by simp
qed simp

definition all_before :: "row_compare \<Rightarrow> data_file_meta list \<Rightarrow> data_file_meta list \<Rightarrow> bool" where
  "all_before cmp g h \<longleftrightarrow> (\<forall>x \<in> set g. \<forall>y \<in> set h. cmp (max_key x) (min_key y) < 0)"

definition holds_key :: "row_compare \<Rightarrow> row \<Rightarrow> data_file_meta \<Rightarrow> bool" where
  "holds_key cmp k f \<longleftrightarrow> cmp (min_key f) k \<le> 0 \<and> cmp k (max_key f) \<le> 0"

context key_comparator
begin

lemma interval_less_strict_weak: "strict_weak (interval_less key_cmp)"
proof -
  have "comparison (\<lambda>x y. if key_cmp (min_key x) (min_key y) = 0 then key_cmp (max_key x) (max_key y) else key_cmp (min_key x) (min_key y))"
    by (rule comparison.cmp_lexicographic) (rule cmp_on)+
  note strict = comparison.strict_weak_less [OF this]
  have "interval_less key_cmp = (\<lambda>x y. (if key_cmp (min_key x) (min_key y) = 0 then key_cmp (max_key x) (max_key y) else key_cmp (min_key x) (min_key y)) < 0)"
    by (intro ext) (simp add: interval_less_def Let_def)
  then show ?thesis using strict by simp
qed

lemma run_below_strict_weak: "strict_weak (run_below key_cmp)"
proof -
  have "comparison (\<lambda>x y. if key_cmp (max_key (last x)) (max_key (last y)) = 0
      then key_cmp (min_key (last x)) (min_key (last y)) else key_cmp (max_key (last x)) (max_key (last y)))"
    by (rule comparison.cmp_lexicographic) (rule cmp_on)+
  note strict = comparison.strict_weak_greater [OF this]
  have "run_below key_cmp = (\<lambda>x y. (if key_cmp (max_key (last x)) (max_key (last y)) = 0
      then key_cmp (min_key (last x)) (min_key (last y)) else key_cmp (max_key (last x)) (max_key (last y))) > 0)"
    by (intro ext) (simp add: run_below_def Let_def)
  then show ?thesis using strict by simp
qed

lemma pop_least_end:
  assumes "pq_pop (run_below key_cmp) q = Some (t, r)" "x \<in> set q"
  shows "key_cmp (max_key (last t)) (max_key (last x)) \<le> 0"
  using strict_weak.pq_pop_max [OF run_below_strict_weak assms] by (auto simp: run_below_def Let_def split: if_splits)

lemma IntervalPartition_files_sorted:
  "sorted_wrt (\<lambda>a b. key_cmp (min_key a) (min_key b) \<le> 0) (IntervalPartition_files key_cmp fs)"
proof -
  have "sorted_wrt (\<lambda>a b. \<not> interval_less key_cmp b a) (IntervalPartition_files key_cmp fs)"
    unfolding IntervalPartition_files_def by (rule strict_weak.sorted_stable_sort [OF interval_less_strict_weak])
  then show ?thesis
  proof (rule sorted_wrt_mono_rel [rotated])
    fix a b assume "\<not> interval_less key_cmp b a"
    then show "key_cmp (min_key a) (min_key b) \<le> 0"
      using cmp_flip_le [of "min_key a" "min_key b"] by (auto simp: interval_less_def Let_def split: if_splits)
  qed
qed

lemma section_loop_separated:
  assumes "sorted_wrt (\<lambda>a b. key_cmp (min_key a) (min_key b) \<le> 0) ms" "\<forall>f \<in> set ms. max_key f \<noteq> EmptyRow"
    "\<forall>f \<in> set sec. key_cmp (max_key f) bound \<le> 0" "sec \<noteq> [] \<longleftrightarrow> bound \<noteq> EmptyRow"
  shows "sorted_wrt (all_before key_cmp) (section_loop key_cmp sec bound ms)"
  using assms
proof (induction ms arbitrary: sec bound)
  case (Cons m ms)
  show ?case
  proof (cases "sec \<noteq> [] \<and> key_cmp (min_key m) bound > 0")
    case True
    have "all_before key_cmp sec h" if h: "h \<in> set (section_loop key_cmp [m] (max_key m) ms)" for h
      unfolding all_before_def
    proof (intro ballI)
      fix x y assume "x \<in> set sec" "y \<in> set h"
      then have "y \<in> set (m # ms)" using h concat_section_loop [of key_cmp "[m]" "max_key m" ms]
        by (metis UN_I append_Cons append_Nil set_concat)
      then have "key_cmp (min_key m) (min_key y) \<le> 0" using Cons.prems(1) by auto
      moreover have "key_cmp (max_key x) bound \<le> 0" using Cons.prems(3) \<open>x \<in> set sec\<close> by blast
      moreover have "key_cmp bound (min_key m) < 0" using True cmp_flip by blast
      ultimately show "key_cmp (max_key x) (min_key y) < 0" using cmp_le_trans_less cmp_trans_less by blast
    qed
    moreover have "sorted_wrt (all_before key_cmp) (section_loop key_cmp [m] (max_key m) ms)"
      using Cons.prems by (intro Cons.IH) auto
    ultimately show ?thesis using True by simp
  next
    case False
    define b where "b = (if bound = EmptyRow \<or> key_cmp (max_key m) bound > 0 then max_key m else bound)"
    have "key_cmp (max_key f) b \<le> 0" if f: "f \<in> set (sec @ [m])" for f
    proof (cases "f \<in> set sec")
      case True
      then have "key_cmp (max_key f) bound \<le> 0" "bound \<noteq> EmptyRow" using Cons.prems(3,4) by auto
      moreover have "key_cmp bound b \<le> 0" using calculation(2) cmp_flip [of bound "max_key m"] by (auto simp: b_def)
      ultimately show ?thesis using cmp_trans by blast
    next
      case False
      then show ?thesis using f by (auto simp: b_def)
    qed
    moreover have "b \<noteq> EmptyRow" using Cons.prems(2) by (simp add: b_def)
    ultimately have "sorted_wrt (all_before key_cmp) (section_loop key_cmp (sec @ [m]) b ms)"
      using Cons.prems by (intro Cons.IH) auto
    then show ?thesis using False by (auto simp: b_def)
  qed
qed simp

text \<open>
  The packing of a section opens a run only when all open runs end at or after the start of the file,
  so that many files share that key.
\<close>

lemma packing_clique:
  assumes "sorted_wrt (\<lambda>a b. key_cmp (min_key a) (min_key b) \<le> 0) (f # ms)" "\<forall>x \<in> set (f # ms). file_ok key_cmp x"
  shows "\<exists>k. length (foldl (place_file key_cmp) [[f]] ms) \<le> length (filter (holds_key key_cmp k) (f # ms))"
  using assms
proof (induction ms rule: rev_induct)
  case Nil
  then show ?case by (intro exI [of _ "min_key f"]) (simp add: holds_key_def file_ok_def)
next
  case (snoc m ms)
  let ?q = "foldl (place_file key_cmp) [[f]] ms"
  have ne: "?q \<noteq> []" by (cases ms rule: rev_cases) (simp_all add: place_file_nonempty)
  have runs: "\<forall>run \<in> set ?q. run \<noteq> []" using foldl_place_file_valid [of "[[f]]" key_cmp ms] by simp
  have files: "mset (concat ?q) = mset (f # ms)" by (simp add: mset_foldl_place_file)
  obtain k where k: "length ?q \<le> length (filter (holds_key key_cmp k) (f # ms))"
    using snoc by (auto simp: sorted_wrt_append)
  show ?case using ne
  proof (cases rule: place_file_cases [of ?q key_cmp m])
    case (append t r)
    then have "length (place_file key_cmp ?q m) = length ?q" by (metis length_Cons size_add_mset size_mset)
    then show ?thesis using k by (intro exI [of _ k]) (simp del: filter.simps(2) add: filter_append [of _ "f # ms", simplified])
  next
    case (fresh t r)
    have "holds_key key_cmp (min_key m) (last run)" if run: "run \<in> set ?q" for run
    proof -
      have "last run \<in> set (f # ms)" using run runs files by (metis UN_I last_in_set mset_eq_setD set_concat)
      then have "key_cmp (min_key (last run)) (min_key m) \<le> 0" using snoc.prems(1) by (auto simp: sorted_wrt_append)
      moreover have "key_cmp (min_key m) (max_key (last run)) \<le> 0"
        using pop_least_end [OF fresh(1) run] fresh(3) cmp_trans [of "min_key m" "max_key (last t)"] by simp
      ultimately show ?thesis by (simp add: holds_key_def)
    qed
    then have "filter_mset (holds_key key_cmp (min_key m)) (mset (map last ?q)) = mset (map last ?q)"
      by (auto simp: filter_mset_eq_conv)
    moreover have "filter_mset (holds_key key_cmp (min_key m)) (mset (map last ?q)) \<subseteq>#
        filter_mset (holds_key key_cmp (min_key m)) (mset (f # ms))"
      using map_last_subset [OF runs] unfolding files by (rule multiset_filter_mono)
    ultimately have "length ?q \<le> length (filter (holds_key key_cmp (min_key m)) (f # ms))"
      by (metis length_map mset_filter size_mset size_mset_mono)
    moreover have "holds_key key_cmp (min_key m) m" using snoc.prems(2) by (simp add: holds_key_def file_ok_def)
    moreover have "length (place_file key_cmp ?q m) = Suc (length ?q)"
      using fresh by (metis length_Cons size_add_mset size_mset)
    ultimately show ?thesis by (intro exI [of _ "min_key m"]) auto
  qed
qed

lemma valid_run_key_once:
  assumes "valid_files key_cmp run" "\<forall>f \<in> set run. file_ok key_cmp f"
  shows "length (filter (holds_key key_cmp k) run) \<le> 1"
proof (rule ccontr)
  let ?xs = "filter (holds_key key_cmp k) run"
  assume "\<not> length ?xs \<le> 1"
  then have two: "0 < (1::nat)" "1 < length ?xs" by simp_all
  have "sorted_wrt (\<lambda>a b. key_cmp (max_key a) (min_key b) < 0) ?xs"
    using valid_files_sorted [OF assms] by (rule sorted_wrt_filter)
  from sorted_wrt_nth_mono [OF this two] have less: "key_cmp (max_key (?xs ! 0)) (min_key (?xs ! 1)) < 0" .
  have "?xs ! 0 \<in> set ?xs" "?xs ! 1 \<in> set ?xs" using two by (simp_all only: nth_mem less_trans [OF two])
  then have "holds_key key_cmp k (?xs ! 0)" "holds_key key_cmp k (?xs ! 1)" by (simp_all only: set_filter mem_Collect_eq)
  then have "key_cmp (min_key (?xs ! 1)) (max_key (?xs ! 0)) \<le> 0" unfolding holds_key_def using cmp_trans by blast
  then show False using less cmp_flip_le [of "min_key (?xs ! 1)" "max_key (?xs ! 0)"] by simp
qed

lemma partition_section_least:
  assumes "sorted_wrt (\<lambda>a b. key_cmp (min_key a) (min_key b) \<le> 0) ms" "\<forall>x \<in> set ms. file_ok key_cmp x" "ms \<noteq> []"
    "\<forall>run \<in> set rs. valid_files key_cmp run" "mset (concat rs) = mset ms"
  shows "length (partition_section key_cmp ms) \<le> length rs"
proof -
  obtain f ns where ms: "ms = f # ns" using assms(3) by (cases ms) auto
  obtain k where k: "length (foldl (place_file key_cmp) [[f]] ns) \<le> length (filter (holds_key key_cmp k) ms)"
    using packing_clique assms(1,2) unfolding ms by blast
  have ok: "\<forall>run \<in> set rs. \<forall>x \<in> set run. file_ok key_cmp x" using assms(2,5) by (metis UN_I mset_eq_setD set_concat)
  have "length (filter (holds_key key_cmp k) (concat rs)) \<le> length rs"
    using assms(4) ok
  proof (induction rs)
    case (Cons run rs)
    then show ?case using valid_run_key_once [of run k] by force
  qed simp
  moreover have "length (filter (holds_key key_cmp k) (concat rs)) = length (filter (holds_key key_cmp k) ms)"
    using assms(5) by (metis mset_filter size_mset)
  moreover have "length (partition_section key_cmp ms) = length (foldl (place_file key_cmp) [[f]] ns)"
    using arg_cong [OF drain_queue_runs [of key_cmp "foldl (place_file key_cmp) [[f]] ns"], of size]
    by (simp add: partition_section_def ms)
  ultimately show ?thesis using k by simp
qed

lemma sorted_wrt_concat_member: "sorted_wrt P (concat xss) \<Longrightarrow> xs \<in> set xss \<Longrightarrow> sorted_wrt P xs"
  by (induction xss) (auto simp: sorted_wrt_append)

lemma Partition_sections:
  assumes "\<forall>f \<in> set files. max_key f \<noteq> EmptyRow"
  obtains secs where "Partition key_cmp files = map (partition_section key_cmp) secs"
    "mset (concat secs) = mset files" "[] \<notin> set secs" "sorted_wrt (all_before key_cmp) secs"
    "\<And>sec. sec \<in> set secs \<Longrightarrow> sorted_wrt (\<lambda>a b. key_cmp (min_key a) (min_key b) \<le> 0) sec"
proof
  let ?fs = "IntervalPartition_files key_cmp files" and ?secs = "section_loop key_cmp [] EmptyRow (IntervalPartition_files key_cmp files)"
  show "Partition key_cmp files = map (partition_section key_cmp) ?secs" by (simp add: Partition_def)
  show "mset (concat ?secs) = mset files" by (simp add: concat_section_loop IntervalPartition_files_def)
  show "[] \<notin> set ?secs" by (rule section_loop_nonempty)
  show "sorted_wrt (all_before key_cmp) ?secs"
    using assms by (intro section_loop_separated IntervalPartition_files_sorted) (auto simp: IntervalPartition_files_def)
  show "sorted_wrt (\<lambda>a b. key_cmp (min_key a) (min_key b) \<le> 0) sec" if "sec \<in> set ?secs" for sec
    using IntervalPartition_files_sorted [of files] sorted_wrt_concat_member that by (metis append_Nil concat_section_loop)
qed

end

section \<open>Properties\<close>

definition section_files :: "sorted_run list \<Rightarrow> data_file_meta list" where
  "section_files sec = concat (map run_files sec)"

lemma mset_section_files: "ms \<noteq> [] \<Longrightarrow> mset (section_files (partition_section cmp ms)) = mset ms"
  by (simp add: section_files_def partition_section_files)

lemma mset_concat_sections:
  "[] \<notin> set secs \<Longrightarrow> mset (concat (map (\<lambda>sec. section_files (partition_section cmp sec)) secs)) = mset (concat secs)"
  by (induction secs) (auto simp: mset_section_files)

text \<open>
  C3. The partition of any files over a key comparator keeps every file exactly once; each section is a
  non-empty list of valid, non-empty sorted runs; and every key of a section lies below every key of the
  later sections, so sections can be merged independently and in order.
\<close>

theorem Partition_correct:
  assumes "FieldsComparator_Create types sort_idx asc = Inr fc" "\<forall>f \<in> set files. max_key f \<noteq> EmptyRow"
  shows "mset (concat (map section_files (Partition (FieldsComparator_CompareTo fc) files))) = mset files \<and>
    (\<forall>sec \<in> set (Partition (FieldsComparator_CompareTo fc) files). sec \<noteq> [] \<and>
       (\<forall>run \<in> set sec. IsValid (FieldsComparator_CompareTo fc) run \<and> run_files run \<noteq> [])) \<and>
    sorted_wrt (\<lambda>g h. \<forall>x \<in> set (section_files g). \<forall>y \<in> set (section_files h).
       FieldsComparator_CompareTo fc (max_key x) (min_key y) < 0) (Partition (FieldsComparator_CompareTo fc) files)"
proof -
  let ?cmp = "FieldsComparator_CompareTo fc"
  obtain secs where s: "Partition ?cmp files = map (partition_section ?cmp) secs" "mset (concat secs) = mset files"
    "[] \<notin> set secs" "sorted_wrt (all_before ?cmp) secs"
    using key_comparator.Partition_sections [OF FieldsComparator_key_comparator [OF assms(1)] assms(2)] by metis
  have ne: "partition_section ?cmp sec \<noteq> []" if "sec \<in> set secs" for sec
  proof -
    have "sec \<noteq> []" using that s(3) by auto
    then show ?thesis using mset_section_files [of sec ?cmp] by (auto simp: section_files_def)
  qed
  have set_sec: "set (section_files (partition_section ?cmp sec)) = set sec" if "sec \<in> set secs" for sec
    using mset_section_files [of sec ?cmp] that s(3) by (metis mset_eq_setD)
  have "sorted_wrt (\<lambda>g h. \<forall>x \<in> set (section_files (partition_section ?cmp g)). \<forall>y \<in> set (section_files (partition_section ?cmp h)).
      ?cmp (max_key x) (min_key y) < 0) secs"
    by (rule sorted_wrt_mono_rel [OF _ s(4)]) (simp add: set_sec all_before_def)
  then show ?thesis
    using s(2) mset_concat_sections [OF s(3), of ?cmp] ne partition_section_valid
    by (auto simp: s(1) sorted_wrt_map comp_def)
qed

theorem Partition_correct_witness:
  "\<exists>fc. FieldsComparator_Create [INT32] [0] True = Inr fc \<and>
     mset (concat (map section_files (Partition (FieldsComparator_CompareTo fc) [example_file ''a'' 1 [VInt 3] [VInt 8] 1 5]))) =
     mset [example_file ''a'' 1 [VInt 3] [VInt 8] 1 5]"
proof -
  obtain fc where "FieldsComparator_Create [INT32] [0] True = Inr fc" by (simp add: FieldsComparator_Create_def)
  then show ?thesis
    using Partition_correct [of "[INT32]" "[0]" True fc "[example_file ''a'' 1 [VInt 3] [VInt 8] 1 5]"]
    by (simp add: EmptyRow_def)
qed

text \<open>
  C9. The number of sorted runs of a section is the least possible: no other arrangement of the
  section's files into valid sorted runs has fewer.
\<close>

theorem Partition_least_runs:
  assumes "FieldsComparator_Create types sort_idx asc = Inr fc"
    "\<forall>f \<in> set files. max_key f \<noteq> EmptyRow \<and> file_ok (FieldsComparator_CompareTo fc) f"
    "sec \<in> set (Partition (FieldsComparator_CompareTo fc) files)"
    "\<forall>run \<in> set rs. valid_files (FieldsComparator_CompareTo fc) run" "mset (concat rs) = mset (section_files sec)"
  shows "length sec \<le> length rs"
proof -
  let ?cmp = "FieldsComparator_CompareTo fc"
  note kc = FieldsComparator_key_comparator [OF assms(1)]
  obtain secs where s: "Partition ?cmp files = map (partition_section ?cmp) secs" "mset (concat secs) = mset files"
    "[] \<notin> set secs" "\<And>sec. sec \<in> set secs \<Longrightarrow> sorted_wrt (\<lambda>a b. ?cmp (min_key a) (min_key b) \<le> 0) sec"
    using key_comparator.Partition_sections [OF kc, of files] assms(2) by metis
  obtain ms where ms: "ms \<in> set secs" "sec = partition_section ?cmp ms" "ms \<noteq> []" using assms(3) s(1,3) by auto
  have "set ms \<subseteq> set files" using ms(1) s(2) by (metis UN_upper mset_eq_setD set_concat)
  then show ?thesis
    using key_comparator.partition_section_least [OF kc s(4) [OF ms(1)] _ ms(3) assms(4)] assms(2,5) ms mset_section_files
    by auto
qed

theorem Partition_least_runs_witness:
  "\<exists>fc sec. FieldsComparator_Create [INT32] [0] True = Inr fc \<and>
     sec \<in> set (Partition (FieldsComparator_CompareTo fc) [example_file ''a'' 1 [VInt 3] [VInt 8] 1 5]) \<and> length sec \<le> 1"
proof -
  let ?a = "example_file ''a'' 1 [VInt 3] [VInt 8] 1 5"
  obtain fc where fc: "FieldsComparator_Create [INT32] [0] True = Inr fc" by (simp add: FieldsComparator_Create_def)
  have ok: "file_ok (FieldsComparator_CompareTo fc) ?a"
    using fc by (auto simp: file_ok_def FieldsComparator_Create_def FieldsComparator_CompareTo_def IsNullAt_def
        IsVariantNull_def row_field_def GetInt_def Let_def)
  have p: "Partition (FieldsComparator_CompareTo fc) [?a] = [partition_section (FieldsComparator_CompareTo fc) [?a]]"
    by (simp add: Partition_def IntervalPartition_files_def)
  have "length (partition_section (FieldsComparator_CompareTo fc) [?a]) \<le> length [[?a]]"
    using ok mset_section_files [of "[?a]"] by (intro Partition_least_runs [OF fc, of "[?a]"]) (simp_all add: EmptyRow_def p)
  then show ?thesis using fc p by auto
qed

end
