(* ===== verification/Compaction.thy ===== *)
theory Compaction
  imports Levels Soft_Float
begin

text \<open>
  The choice of the files to compact: \<open>CompactUnit\<close>, \<open>CompactStrategy::PickFullCompaction\<close>,
  \<open>OffPeakHours\<close>, \<open>EarlyFullCompaction\<close>, \<open>UniversalCompaction\<close> and
  \<open>ForceUpLevel0Compaction\<close>. The system clock is an argument: \<open>millis i\<close> is the reading number
  \<open>i\<close> of the time within one call and \<open>hours a i\<close> the local hour read for run \<open>i\<close> in the
  attempt \<open>a\<close>. File sizes are unbounded integers; the size ratio is computed in IEEE double
  arithmetic. The lemmas show that every strategy picks a prefix of the runs whose output level lies
  strictly below every run that is left.
\<close>

section \<open>Units\<close>

record compact_unit =
  output_level :: int
  unit_files :: "data_file_meta list"
  file_rewrite :: bool

definition FromFiles :: "int \<Rightarrow> data_file_meta list \<Rightarrow> bool \<Rightarrow> compact_unit" where
  "FromFiles l files rewrite = \<lparr>output_level = l, unit_files = files, file_rewrite = rewrite\<rparr>"

definition FromLevelRuns :: "int \<Rightarrow> level_sorted_run list \<Rightarrow> compact_unit" where
  "FromLevelRuns l runs = FromFiles l (concat (map (\<lambda>r. run_files (lrun r)) runs)) False"

text \<open>
  \<open>dv\<close> is the deletion vector maintainer, absent or the test whether a file has a deletion vector.
\<close>

definition PickFullCompaction ::
  "int \<Rightarrow> level_sorted_run list \<Rightarrow> (string \<Rightarrow> bool) option \<Rightarrow> bool \<Rightarrow> compact_unit option" where
  "PickFullCompaction num_levels runs dv force_rewrite_all_files =
     (let max_level = num_levels - 1 in
      if runs = [] then None
      else if length runs = 1 \<and> run_level (runs ! 0) = max_level then
        (let files = filter (\<lambda>f. force_rewrite_all_files \<or> (case dv of None \<Rightarrow> False | Some has \<Rightarrow> has (file_name f)))
           (run_files (lrun (runs ! 0)))
         in if files = [] then None else Some (FromFiles max_level files True))
      else Some (FromLevelRuns max_level runs))"

section \<open>Off-peak hours and early full compaction\<close>

record off_peak_hours =
  start_hour :: int
  end_hour :: int
  compact_off_peak_ratio :: int

definition OffPeakHours_Create :: "int \<Rightarrow> int \<Rightarrow> int \<Rightarrow> off_peak_hours option" where
  "OffPeakHours_Create s e ratio =
     (if s = -1 \<or> e = -1 then None
      else if s = e then None
      else Some \<lparr>start_hour = s, end_hour = e, compact_off_peak_ratio = ratio\<rparr>)"

definition CurrentRatio :: "off_peak_hours \<Rightarrow> int \<Rightarrow> int" where
  "CurrentRatio h target_hour =
     (let is_off_peak = (if start_hour h \<le> end_hour h then start_hour h \<le> target_hour \<and> target_hour < end_hour h
        else target_hour < end_hour h \<or> start_hour h \<le> target_hour)
      in if is_off_peak then compact_off_peak_ratio h else 0)"

record early_full_compaction =
  full_compaction_interval :: "int option"
  total_size_threshold :: "int option"
  incremental_size_threshold :: "int option"
  last_full_compaction :: "int option"

definition EarlyFullCompaction_Create :: "int option \<Rightarrow> int option \<Rightarrow> int option \<Rightarrow> early_full_compaction option" where
  "EarlyFullCompaction_Create interval threshold incremental =
     (if interval = None \<and> threshold = None \<and> incremental = None then None
      else Some \<lparr>full_compaction_interval = interval, total_size_threshold = threshold,
        incremental_size_threshold = incremental, last_full_compaction = None\<rparr>)"

definition UpdateLastFullCompaction :: "int \<Rightarrow> early_full_compaction \<Rightarrow> early_full_compaction" where
  "UpdateLastFullCompaction now e = e\<lparr>last_full_compaction := Some now\<rparr>"

definition interval_due :: "int \<Rightarrow> early_full_compaction \<Rightarrow> bool" where
  "interval_due now e = (case full_compaction_interval e of None \<Rightarrow> False
     | Some interval \<Rightarrow> (case last_full_compaction e of None \<Rightarrow> True | Some t \<Rightarrow> now - t > interval))"

definition total_due :: "early_full_compaction \<Rightarrow> level_sorted_run list \<Rightarrow> bool" where
  "total_due e runs = (case total_size_threshold e of None \<Rightarrow> False
     | Some threshold \<Rightarrow> foldl (\<lambda>s r. s + total_size (lrun r)) 0 runs < threshold)"

definition incremental_due :: "early_full_compaction \<Rightarrow> int \<Rightarrow> level_sorted_run list \<Rightarrow> bool" where
  "incremental_due e max_level runs = (case incremental_size_threshold e of None \<Rightarrow> False
     | Some threshold \<Rightarrow>
         foldl (\<lambda>s r. if run_level r \<noteq> max_level then s + total_size (lrun r) else s) 0 runs > threshold)"

definition TryFullCompact ::
  "(nat \<Rightarrow> int) \<Rightarrow> early_full_compaction \<Rightarrow> int \<Rightarrow> level_sorted_run list \<Rightarrow> early_full_compaction \<times> compact_unit option" where
  "TryFullCompact millis e num_levels runs =
     (if runs = [] \<or> length runs = 1 then (e, None)
      else let max_level = num_levels - 1 in
        if interval_due (millis 0) e \<or> total_due e runs \<or> incremental_due e max_level runs
        then (UpdateLastFullCompaction (millis 1) e, Some (FromLevelRuns max_level runs))
        else (e, None))"

section \<open>Universal compaction\<close>

record universal_compaction =
  max_size_amp :: int
  size_ratio :: int
  num_run_compaction_trigger :: nat
  early_full :: "early_full_compaction option"
  off_peak :: "off_peak_hours option"

definition record_full_compaction :: "int \<Rightarrow> universal_compaction \<Rightarrow> universal_compaction" where
  "record_full_compaction now u = u\<lparr>early_full := map_option (UpdateLastFullCompaction now) (early_full u)\<rparr>"

definition PickForSizeAmp ::
  "int \<Rightarrow> universal_compaction \<Rightarrow> int \<Rightarrow> level_sorted_run list \<Rightarrow> universal_compaction \<times> compact_unit option" where
  "PickForSizeAmp now u max_level runs =
     (if length runs < num_run_compaction_trigger u then (u, None)
      else let candidate_size = foldl (\<lambda>s r. s + total_size (lrun r)) 0 (butlast runs);
               earliest_size = total_size (lrun (last runs))
        in if candidate_size * 100 > max_size_amp u * earliest_size
           then (record_full_compaction now u, Some (FromLevelRuns max_level runs))
           else (u, None))"

definition CandidateSize :: "level_sorted_run list \<Rightarrow> nat \<Rightarrow> int" where
  "CandidateSize runs candidate_count = foldl (\<lambda>s r. s + total_size (lrun r)) 0 (take candidate_count runs)"

definition RatioForOffPeak :: "universal_compaction \<Rightarrow> int result \<Rightarrow> int result" where
  "RatioForOffPeak u hour = rbind hour (\<lambda>h. Inr (case off_peak u of None \<Rightarrow> 0 | Some hs \<Rightarrow> CurrentRatio hs h))"

definition larger_than_ratio :: "universal_compaction \<Rightarrow> int \<Rightarrow> int \<Rightarrow> int \<Rightarrow> bool" where
  "larger_than_ratio u hour_ratio candidate_size next_size =
     fp_less
       (fp_div binary64
         (fp_mult binary64 (fp_of_int binary64 candidate_size)
           (fp_add binary64 (fp_add binary64 (fp_of_int binary64 100) (fp_of_int binary64 (size_ratio u)))
             (fp_of_int binary64 hour_ratio)))
         (fp_of_int binary64 100))
       (fp_of_int binary64 next_size)"

fun size_ratio_loop ::
  "universal_compaction \<Rightarrow> (nat \<Rightarrow> int result) \<Rightarrow> nat \<Rightarrow> level_sorted_run list \<Rightarrow> int \<Rightarrow> nat \<Rightarrow> nat result" where
  "size_ratio_loop u hours i [] candidate_size candidate_count = Inr candidate_count"
| "size_ratio_loop u hours i (r # rs) candidate_size candidate_count =
     rbind (RatioForOffPeak u (hours i)) (\<lambda>hour_ratio.
       if larger_than_ratio u hour_ratio candidate_size (total_size (lrun r)) then Inr candidate_count
       else size_ratio_loop u hours (i + 1) rs (candidate_size + total_size (lrun r)) (candidate_count + 1))"

fun skip_level0 :: "level_sorted_run list \<Rightarrow> nat \<Rightarrow> int \<Rightarrow> nat \<times> int" where
  "skip_level0 [] run_count l = (run_count, l)"
| "skip_level0 (r # rs) run_count l =
     (if run_level r \<noteq> 0 then (run_count + 1, run_level r) else skip_level0 rs (run_count + 1) l)"

definition CreateUnit ::
  "int \<Rightarrow> universal_compaction \<Rightarrow> level_sorted_run list \<Rightarrow> int \<Rightarrow> nat \<Rightarrow> universal_compaction \<times> compact_unit" where
  "CreateUnit now u runs max_level run_count =
     (let l = (if run_count = length runs then max_level else max 0 (run_level (runs ! run_count) - 1));
          (n, l') = (if l = 0 then skip_level0 (drop run_count runs) run_count l else (run_count, l))
      in if n = length runs then (record_full_compaction now u, FromLevelRuns max_level (take n runs))
         else (u, FromLevelRuns l' (take n runs)))"

definition PickForSizeRatio ::
  "(nat \<Rightarrow> int result) \<Rightarrow> int \<Rightarrow> universal_compaction \<Rightarrow> int \<Rightarrow> level_sorted_run list \<Rightarrow> nat \<Rightarrow> bool \<Rightarrow>
   universal_compaction \<times> compact_unit option result" where
  "PickForSizeRatio hours now u max_level runs candidate_count force_pick =
     (case size_ratio_loop u hours candidate_count (drop candidate_count runs) (CandidateSize runs candidate_count) candidate_count of
        Inl e \<Rightarrow> (u, Inl e)
      | Inr n \<Rightarrow>
          if force_pick \<or> n > 1 then (let (u', un) = CreateUnit now u runs max_level n in (u', Inr (Some un)))
          else (u, Inr None))"

definition PickForSizeRatio_trigger ::
  "(nat \<Rightarrow> int result) \<Rightarrow> int \<Rightarrow> universal_compaction \<Rightarrow> int \<Rightarrow> level_sorted_run list \<Rightarrow>
   universal_compaction \<times> compact_unit option result" where
  "PickForSizeRatio_trigger hours now u max_level runs =
     (if length runs < num_run_compaction_trigger u then (u, Inr None)
      else PickForSizeRatio hours now u max_level runs 1 False)"

definition try_early_full ::
  "(nat \<Rightarrow> int) \<Rightarrow> universal_compaction \<Rightarrow> int \<Rightarrow> level_sorted_run list \<Rightarrow> universal_compaction \<times> compact_unit option" where
  "try_early_full millis u num_levels runs =
     (case early_full u of None \<Rightarrow> (u, None)
      | Some e \<Rightarrow> (let (e', un) = TryFullCompact millis e num_levels runs in (u\<lparr>early_full := Some e'\<rparr>, un)))"

definition UniversalCompaction_Pick ::
  "(nat \<Rightarrow> nat \<Rightarrow> int result) \<Rightarrow> (nat \<Rightarrow> int) \<Rightarrow> universal_compaction \<Rightarrow> int \<Rightarrow> level_sorted_run list \<Rightarrow>
   universal_compaction \<times> compact_unit option result" where
  "UniversalCompaction_Pick hours millis u num_levels runs =
     (let max_level = num_levels - 1 in
      case try_early_full millis u num_levels runs of
        (u0, Some un) \<Rightarrow> (u0, Inr (Some un))
      | (u0, None) \<Rightarrow>
      (case PickForSizeAmp (millis 1) u0 max_level runs of
        (u1, Some un) \<Rightarrow> (u1, Inr (Some un))
      | (u1, None) \<Rightarrow>
      (case PickForSizeRatio_trigger (hours 0) (millis 1) u1 max_level runs of
        (u2, Inl e) \<Rightarrow> (u2, Inl e)
      | (u2, Inr (Some un)) \<Rightarrow> (u2, Inr (Some un))
      | (u2, Inr None) \<Rightarrow>
          if length runs > num_run_compaction_trigger u2
          then PickForSizeRatio (hours 1) (millis 1) u2 max_level runs (length runs - num_run_compaction_trigger u2 + 1) False
          else (u2, Inr None))))"

definition ForcePickL0 ::
  "(nat \<Rightarrow> int result) \<Rightarrow> int \<Rightarrow> universal_compaction \<Rightarrow> int \<Rightarrow> level_sorted_run list \<Rightarrow>
   universal_compaction \<times> compact_unit option result" where
  "ForcePickL0 hours now u num_levels runs =
     (let candidate_count = length (takeWhile (\<lambda>r. \<not> run_level r > 0) runs) in
      if candidate_count = 0 then (u, Inr None)
      else PickForSizeRatio hours now u (num_levels - 1) runs candidate_count True)"

section \<open>Forced compaction of level 0\<close>

record force_up_level0 =
  universal :: universal_compaction
  max_compact_interval :: "int option"
  compact_trigger_count :: int


definition force_pick ::
  "(nat \<Rightarrow> int result) \<Rightarrow> int \<Rightarrow> force_up_level0 \<Rightarrow> int \<Rightarrow> level_sorted_run list \<Rightarrow>
   force_up_level0 \<times> compact_unit option result" where
  "force_pick hours now f num_levels runs =
     (let (u, un) = ForcePickL0 hours now (universal f) num_levels runs in (f\<lparr>universal := u\<rparr>, un))"

definition ForceUpLevel0_Pick ::
  "(nat \<Rightarrow> nat \<Rightarrow> int result) \<Rightarrow> (nat \<Rightarrow> int) \<Rightarrow> force_up_level0 \<Rightarrow> int \<Rightarrow> level_sorted_run list \<Rightarrow>
   force_up_level0 \<times> compact_unit option result" where
  "ForceUpLevel0_Pick hours millis f num_levels runs =
     (let (u, picked) = UniversalCompaction_Pick hours millis (universal f) num_levels runs; f1 = f\<lparr>universal := u\<rparr> in
      case picked of
        Inl e \<Rightarrow> (f1, Inl e)
      | Inr (Some un) \<Rightarrow> (f1, Inr (Some un))
      | Inr None \<Rightarrow>
        (case max_compact_interval f1 of
           None \<Rightarrow> force_pick (hours 2) (millis 1) f1 num_levels runs
         | Some interval \<Rightarrow>
             (let count = compact_trigger_count f1 + 1 in
              if count = interval
              then force_pick (hours 2) (millis 1) (f1\<lparr>compact_trigger_count := 0\<rparr>) num_levels runs
              else (f1\<lparr>compact_trigger_count := count\<rparr>, Inr None))))"

text \<open>The strategy behind the \<open>CompactStrategy\<close> interface.\<close>

datatype compact_strategy = Universal universal_compaction | ForceUpLevel0 force_up_level0

fun Strategy_Pick ::
  "(nat \<Rightarrow> nat \<Rightarrow> int result) \<Rightarrow> (nat \<Rightarrow> int) \<Rightarrow> compact_strategy \<Rightarrow> int \<Rightarrow> level_sorted_run list \<Rightarrow>
   compact_strategy \<times> compact_unit option result" where
  "Strategy_Pick hours millis (Universal u) num_levels runs =
     map_prod Universal id (UniversalCompaction_Pick hours millis u num_levels runs)"
| "Strategy_Pick hours millis (ForceUpLevel0 f) num_levels runs =
     map_prod ForceUpLevel0 id (ForceUpLevel0_Pick hours millis f num_levels runs)"

section \<open>What a strategy may pick\<close>

text \<open>
  The runs a strategy is given: levels do not decrease, each level above 0 has one run. A pick is a
  prefix of them, with an output level above 0 that no picked run exceeds and every run left exceeds.
\<close>

definition runs_ok :: "int \<Rightarrow> level_sorted_run list \<Rightarrow> bool" where
  "runs_ok num_levels runs \<longleftrightarrow> 2 \<le> num_levels \<and> (\<forall>r \<in> set runs. 0 \<le> run_level r \<and> run_level r < num_levels) \<and>
     sorted_wrt (\<lambda>a b. run_level a \<le> run_level b \<and> (run_level b = 0 \<or> run_level a < run_level b)) runs"

definition prefix_pick :: "int \<Rightarrow> level_sorted_run list \<Rightarrow> compact_unit \<Rightarrow> bool" where
  "prefix_pick num_levels runs un \<longleftrightarrow> (\<exists>n. 0 < n \<and> n \<le> length runs \<and>
     un = FromLevelRuns (output_level un) (take n runs) \<and> 1 \<le> output_level un \<and> output_level un < num_levels \<and>
     (\<forall>r \<in> set (take n runs). run_level r \<le> output_level un) \<and> (\<forall>r \<in> set (drop n runs). output_level un < run_level r))"

lemma FromLevelRuns_simps [simp]:
  "output_level (FromLevelRuns l rs) = l" "file_rewrite (FromLevelRuns l rs) = False"
  "unit_files (FromLevelRuns l rs) = concat (map (\<lambda>r. run_files (lrun r)) rs)"
  by (simp_all add: FromLevelRuns_def FromFiles_def)

lemma prefix_pickI:
  assumes "runs_ok num_levels runs" "0 < n" "n \<le> length runs" "1 \<le> l" "l < num_levels"
    "\<forall>r \<in> set (take n runs). run_level r \<le> l" "\<forall>r \<in> set (drop n runs). l < run_level r"
  shows "prefix_pick num_levels runs (FromLevelRuns l (take n runs))"
  unfolding prefix_pick_def using assms by (intro exI [of _ n]) simp

lemma full_pick:
  "runs_ok num_levels runs \<Longrightarrow> runs \<noteq> [] \<Longrightarrow> prefix_pick num_levels runs (FromLevelRuns (num_levels - 1) runs)"
  using prefix_pickI [of num_levels runs "length runs" "num_levels - 1"] by (auto simp: runs_ok_def)

lemma skip_level0_spec:
  "skip_level0 rs c l = (n, l') \<Longrightarrow> \<exists>k. n = c + k \<and> k \<le> length rs \<and>
     (k = length rs \<or> 0 < k \<and> run_level (rs ! (k - 1)) = l' \<and> l' \<noteq> 0)"
proof (induction rs arbitrary: c)
  case (Cons r rs)
  show ?case
  proof (cases "run_level r = 0")
    case True
    then obtain k where "n = Suc c + k" "k \<le> length rs" "k = length rs \<or> 0 < k \<and> run_level (rs ! (k - 1)) = l' \<and> l' \<noteq> 0"
      using Cons by fastforce
    then show ?thesis by (intro exI [of _ "Suc k"]) auto
  next
    case False
    then show ?thesis using Cons.prems by (intro exI [of _ 1]) auto
  qed
qed simp

lemma runs_ok_cut:
  assumes "runs_ok num_levels runs" "n < length runs" "0 < run_level (runs ! n)"
  shows "(\<forall>r \<in> set (take n runs). run_level r < run_level (runs ! n)) \<and>
    (\<forall>r \<in> set (drop (Suc n) runs). run_level (runs ! n) < run_level r)"
proof -
  have "sorted_wrt (\<lambda>a b. run_level a \<le> run_level b \<and> (run_level b = 0 \<or> run_level a < run_level b))
      (take n runs @ runs ! n # drop (Suc n) runs)"
    using assms(1,2) by (simp add: runs_ok_def Cons_nth_drop_Suc)
  then show ?thesis using assms(3) by (auto simp: sorted_wrt_append)
qed

lemma CreateUnit_prefix:
  assumes "runs_ok num_levels runs" "0 < c" "c \<le> length runs" "CreateUnit now u runs (num_levels - 1) c = (u', un)"
  shows "prefix_pick num_levels runs un"
proof -
  define l where "l = (if c = length runs then num_levels - 1 else max 0 (run_level (runs ! c) - 1))"
  obtain n l' where n: "(if l = 0 then skip_level0 (drop c runs) c l else (c, l)) = (n, l')" by (metis surj_pair)
  have un: "un = (if n = length runs then FromLevelRuns (num_levels - 1) (take n runs) else FromLevelRuns l' (take n runs))"
    using assms(4) n by (auto simp: CreateUnit_def Let_def l_def [symmetric] split: if_splits)
  have r: "2 \<le> num_levels" "\<And>i. i < length runs \<Longrightarrow> 0 \<le> run_level (runs ! i) \<and> run_level (runs ! i) < num_levels"
    using assms(1) by (auto simp: runs_ok_def)
  consider (full) "n = length runs" | (below) "n = c" "n < length runs" "l' = l" "l \<noteq> 0"
    | (skip) k where "n = c + k" "n < length runs" "0 < k" "run_level (runs ! (n - 1)) = l'" "l' \<noteq> 0"
  proof (cases "l = 0 \<and> n \<noteq> length runs")
    case True
    then have skip: "skip_level0 (drop c runs) c l = (n, l')" using n by simp
    obtain k where k: "n = c + k" "k \<le> length runs - c" "k = length runs - c \<or> 0 < k \<and> run_level (drop c runs ! (k - 1)) = l' \<and> l' \<noteq> 0"
      using skip_level0_spec [OF skip] unfolding length_drop by blast
    have "k \<noteq> length runs - c" using True k(1) assms(3) by arith
    then obtain j where j: "k = Suc j" using k(3) by (cases k) auto
    then have "n < length runs" "0 < k" "l' \<noteq> 0" "run_level (runs ! (n - 1)) = l'"
      using k \<open>k \<noteq> length runs - c\<close> assms(3) by simp_all
    then show ?thesis using that(3) k(1) by blast
  next
    case False
    show ?thesis
    proof (cases "n = length runs")
      case True
      then show ?thesis by (rule that(1))
    next
      case neq: False
      then have "l \<noteq> 0" "n = c" "l' = l" using False n by simp_all
      then show ?thesis using that(2) neq assms(3) by simp
    qed
  qed
  then show ?thesis
  proof cases
    case full
    then show ?thesis using un full_pick [OF assms(1)] assms(2,3) by fastforce
  next
    case below
    then have "l = run_level (runs ! n) - 1" "1 \<le> l" by (auto simp: l_def max_def split: if_splits)
    moreover from this have cut: "\<forall>r \<in> set (take n runs). run_level r < run_level (runs ! n)"
      "\<forall>r \<in> set (drop (Suc n) runs). run_level (runs ! n) < run_level r"
      using runs_ok_cut [OF assms(1) below(2)] by auto
    moreover have "l < run_level r" if "r \<in> set (drop n runs)" for r
    proof -
      have "set (drop n runs) = insert (runs ! n) (set (drop (Suc n) runs))"
        using below(2) by (metis Cons_nth_drop_Suc list.simps(15))
      then have "run_level (runs ! n) \<le> run_level r" using cut(2) that by (cases "r = runs ! n") auto
      then show ?thesis using \<open>l = run_level (runs ! n) - 1\<close> by simp
    qed
    ultimately show ?thesis
      using un below assms(2,3) r(2) [OF below(2)] by (auto intro!: prefix_pickI [OF assms(1)])
  next
    case skip
    then have k1: "n - 1 < length runs" by arith
    have k: "n - 1 < length runs" "0 < l'" "l' < num_levels" using r(2) [OF k1] skip(4,5) k1 by auto
    then have cut: "\<forall>r \<in> set (take (n - 1) runs). run_level r < l'" "\<forall>r \<in> set (drop n runs). l' < run_level r"
      using runs_ok_cut [OF assms(1) k(1)] skip by auto
    have "take n runs = take (n - 1) runs @ [runs ! (n - 1)]" using skip(1,3) k(1) take_Suc_conv_app_nth [OF k(1)] by simp
    then have "\<forall>r \<in> set (take n runs). run_level r \<le> l'" using cut(1) skip(4) by auto
    then show ?thesis using un skip k cut(2) assms(2) by (auto intro!: prefix_pickI [OF assms(1)])
  qed
qed

lemma size_ratio_loop_bounds:
  "size_ratio_loop u hours i rs sz c = Inr n \<Longrightarrow> c \<le> n \<and> n \<le> c + length rs"
  by (induction u hours i rs sz c rule: size_ratio_loop.induct) (fastforce simp: result_simps split: if_splits)+

lemma PickForSizeRatio_prefix:
  assumes "runs_ok num_levels runs" "0 < c" "c \<le> length runs"
    "PickForSizeRatio hours now u (num_levels - 1) runs c force = (u', Inr (Some un))"
  shows "prefix_pick num_levels runs un"
proof -
  obtain n where n: "size_ratio_loop u hours c (drop c runs) (CandidateSize runs c) c = Inr n"
    and c: "CreateUnit now u runs (num_levels - 1) n = (u', un)"
    using assms(4) by (auto simp: PickForSizeRatio_def split: sum.splits if_splits prod.splits)
  show ?thesis using CreateUnit_prefix [OF assms(1) _ _ c] size_ratio_loop_bounds [OF n] assms(2,3) by auto
qed

lemma ForcePickL0_prefix:
  assumes "runs_ok num_levels runs" "ForcePickL0 hours now u num_levels runs = (u', Inr (Some un))"
  shows "prefix_pick num_levels runs un"
proof -
  let ?c = "length (takeWhile (\<lambda>r. \<not> run_level r > 0) runs)"
  have c: "0 < ?c" "PickForSizeRatio hours now u (num_levels - 1) runs ?c True = (u', Inr (Some un))"
    using assms(2) by (auto simp: ForcePickL0_def Let_def split: if_splits)
  show ?thesis using PickForSizeRatio_prefix [OF assms(1) c(1) length_takeWhile_le c(2)] .
qed

lemma try_early_full_prefix:
  assumes "runs_ok num_levels runs" "try_early_full millis u num_levels runs = (u', Some un)"
  shows "prefix_pick num_levels runs un"
proof -
  have "runs \<noteq> []" "un = FromLevelRuns (num_levels - 1) runs"
    using assms(2) by (auto simp: try_early_full_def TryFullCompact_def Let_def split: option.splits prod.splits if_splits)
  then show ?thesis using full_pick [OF assms(1)] by simp
qed

lemma try_early_full_trigger:
  "try_early_full millis u num_levels runs = (u', un) \<Longrightarrow> num_run_compaction_trigger u' = num_run_compaction_trigger u"
  by (auto simp: try_early_full_def split: option.splits prod.splits)

lemma PickForSizeAmp_prefix:
  assumes "runs_ok num_levels runs" "0 < num_run_compaction_trigger u"
    "PickForSizeAmp now u (num_levels - 1) runs = (u', Some un)"
  shows "prefix_pick num_levels runs un"
proof -
  have "runs \<noteq> []" "un = FromLevelRuns (num_levels - 1) runs"
    using assms(2,3) by (auto simp: PickForSizeAmp_def Let_def split: if_splits)
  then show ?thesis using full_pick [OF assms(1)] by simp
qed

lemma PickForSizeAmp_None: "PickForSizeAmp now u l runs = (u', None) \<Longrightarrow> u' = u"
  by (auto simp: PickForSizeAmp_def Let_def split: if_splits)

lemma PickForSizeRatio_None: "PickForSizeRatio hours now u l runs c force = (u', Inr None) \<Longrightarrow> u' = u"
  by (auto simp: PickForSizeRatio_def split: sum.splits if_splits prod.splits)

lemma PickForSizeRatio_trigger_None: "PickForSizeRatio_trigger hours now u l runs = (u', Inr None) \<Longrightarrow> u' = u"
  by (auto simp: PickForSizeRatio_trigger_def split: if_splits dest: PickForSizeRatio_None)

lemma PickForSizeRatio_trigger_prefix:
  assumes "runs_ok num_levels runs" "0 < num_run_compaction_trigger u"
    "PickForSizeRatio_trigger hours now u (num_levels - 1) runs = (u', Inr (Some un))"
  shows "prefix_pick num_levels runs un"
proof -
  have "PickForSizeRatio hours now u (num_levels - 1) runs 1 False = (u', Inr (Some un))" "1 \<le> length runs"
    using assms(2,3) by (auto simp: PickForSizeRatio_trigger_def split: if_splits)
  then show ?thesis using PickForSizeRatio_prefix [OF assms(1), of 1] by simp
qed

lemma UniversalCompaction_Pick_prefix:
  assumes "runs_ok num_levels runs" "0 < num_run_compaction_trigger u"
    "UniversalCompaction_Pick hours millis u num_levels runs = (u', Inr (Some un))"
  shows "prefix_pick num_levels runs un"
proof -
  obtain u0 e where e: "try_early_full millis u num_levels runs = (u0, e)" by (metis surj_pair)
  obtain u1 a where a: "PickForSizeAmp (millis 1) u0 (num_levels - 1) runs = (u1, a)" by (metis surj_pair)
  obtain u2 b where b: "PickForSizeRatio_trigger (hours 0) (millis 1) u1 (num_levels - 1) runs = (u2, b)" by (metis surj_pair)
  have t0: "0 < num_run_compaction_trigger u0" using try_early_full_trigger [OF e] assms(2) by simp
  show ?thesis
  proof (cases e)
    case (Some x)
    then have "un = x" using assms(3) e by (simp add: UniversalCompaction_Pick_def Let_def)
    then show ?thesis using try_early_full_prefix [OF assms(1)] e Some by simp
  next
    case e0: None
    show ?thesis
    proof (cases a)
      case (Some x)
      then have "un = x" using assms(3) e e0 a by (simp add: UniversalCompaction_Pick_def Let_def)
      then show ?thesis using PickForSizeAmp_prefix [OF assms(1) t0] a Some by simp
    next
      case a0: None
      then have u1: "u1 = u0" using PickForSizeAmp_None a by simp
      show ?thesis
      proof (cases "b = Inr None")
        case True
        let ?c = "length runs - num_run_compaction_trigger u2 + 1"
        have "u2 = u0" using PickForSizeRatio_trigger_None b True u1 by simp
        then have "length runs > num_run_compaction_trigger u2" "0 < num_run_compaction_trigger u2"
          "PickForSizeRatio (hours 1) (millis 1) u2 (num_levels - 1) runs ?c False = (u', Inr (Some un))"
          using assms(3) e e0 a a0 b True t0 by (simp_all add: UniversalCompaction_Pick_def Let_def split: if_splits)
        then show ?thesis using PickForSizeRatio_prefix [OF assms(1), of ?c] by simp
      next
        case False
        then have "b = Inr (Some un)"
          using assms(3) e e0 a a0 b by (simp add: UniversalCompaction_Pick_def Let_def split: sum.splits option.splits)
        then show ?thesis using PickForSizeRatio_trigger_prefix [OF assms(1)] b t0 u1 by simp
      qed
    qed
  qed
qed

fun strategy_trigger :: "compact_strategy \<Rightarrow> nat" where
  "strategy_trigger (Universal u) = num_run_compaction_trigger u"
| "strategy_trigger (ForceUpLevel0 f) = num_run_compaction_trigger (universal f)"

lemma ForceUpLevel0_Pick_prefix:
  assumes "runs_ok num_levels runs" "0 < num_run_compaction_trigger (universal f)"
    "ForceUpLevel0_Pick hours millis f num_levels runs = (f', Inr (Some un))"
  shows "prefix_pick num_levels runs un"
proof -
  obtain u r where r: "UniversalCompaction_Pick hours millis (universal f) num_levels runs = (u, r)" by (metis surj_pair)
  show ?thesis
  proof (cases "r = Inr (Some un)")
    case True
    then show ?thesis using UniversalCompaction_Pick_prefix [OF assms(1,2)] r by simp
  next
    case False
    then obtain g where "force_pick (hours 2) (millis 1) g num_levels runs = (f', Inr (Some un))"
      using assms(3) r by (auto simp: ForceUpLevel0_Pick_def Let_def split: sum.splits option.splits if_splits)
    then show ?thesis using ForcePickL0_prefix [OF assms(1)] by (auto simp: force_pick_def split: prod.splits)
  qed
qed

lemma Strategy_Pick_prefix:
  assumes "runs_ok num_levels runs" "0 < strategy_trigger s" "Strategy_Pick hours millis s num_levels runs = (s', Inr (Some un))"
  shows "prefix_pick num_levels runs un"
proof (cases s)
  case (Universal u)
  then obtain u' where "UniversalCompaction_Pick hours millis u num_levels runs = (u', Inr (Some un))"
    using assms(3) by (cases "UniversalCompaction_Pick hours millis u num_levels runs") auto
  then show ?thesis using UniversalCompaction_Pick_prefix assms(1,2) Universal by auto
next
  case (ForceUpLevel0 f)
  then obtain f' where "ForceUpLevel0_Pick hours millis f num_levels runs = (f', Inr (Some un))"
    using assms(3) by (cases "ForceUpLevel0_Pick hours millis f num_levels runs") auto
  then show ?thesis using ForceUpLevel0_Pick_prefix assms(1,2) ForceUpLevel0 by auto
qed

lemma LevelSortedRuns_ok: "2 \<le> NumberOfLevels L \<Longrightarrow> runs_ok (NumberOfLevels L) (LevelSortedRuns L)"
  using LevelSortedRuns_sorted [of L] LevelSortedRuns_bounds [of _ L]
  by (fastforce simp: runs_ok_def NumberOfLevels_def MaxLevel_def)

text \<open>Every level 0 run comes before the first run of a higher level, so a pick takes all of level 0.\<close>

lemma prefix_pick_level0:
  assumes "prefix_pick num_levels (LevelSortedRuns L) un"
  shows "set (level0 L) \<subseteq> set (unit_files un)"
proof
  fix f assume f: "f \<in> set (level0 L)"
  let ?runs = "LevelSortedRuns L" and ?r = "\<lparr>run_level = 0, lrun = FromSingle f\<rparr>"
  obtain n where n: "un = FromLevelRuns (output_level un) (take n ?runs)" "1 \<le> output_level un"
    "\<forall>r \<in> set (drop n ?runs). output_level un < run_level r"
    using assms by (auto simp: prefix_pick_def)
  have "?r \<in> set ?runs" using f by (auto simp: LevelSortedRuns_def)
  then have "?r \<in> set (take n ?runs) \<or> ?r \<in> set (drop n ?runs)" by (metis Un_iff append_take_drop_id set_append)
  moreover have "?r \<notin> set (drop n ?runs)" using n(2,3) by fastforce
  ultimately have "?r \<in> set (take n ?runs)" by blast
  then have "f \<in> set (unit_files (FromLevelRuns (output_level un) (take n ?runs)))" by (force simp: FromSingle_def)
  then show "f \<in> set (unit_files un)" using n(1) by simp
qed

section \<open>A forced pick always comes\<close>










section \<open>Properties\<close>

text \<open>
  C2. Whatever strategy picks from the runs of the levels, the unit is a non-empty prefix of the runs:
  it outputs to an existing level above 0, no picked run is on a level above the output level, every
  run that is left is on a level above it, and all of level 0 is picked. So newer data never moves
  below older data.
\<close>

theorem Strategy_Pick_safe:
  assumes "Strategy_Pick hours millis s (NumberOfLevels L) (LevelSortedRuns L) = (s', Inr (Some un))"
    "2 \<le> NumberOfLevels L" "0 < strategy_trigger s"
  shows "\<exists>n. 0 < n \<and> n \<le> length (LevelSortedRuns L) \<and>
    unit_files un = concat (map (\<lambda>r. run_files (lrun r)) (take n (LevelSortedRuns L))) \<and>
    1 \<le> output_level un \<and> output_level un \<le> MaxLevel L \<and> \<not> file_rewrite un \<and>
    (\<forall>r \<in> set (take n (LevelSortedRuns L)). run_level r \<le> output_level un) \<and>
    (\<forall>r \<in> set (drop n (LevelSortedRuns L)). output_level un < run_level r) \<and> set (level0 L) \<subseteq> set (unit_files un)"
proof -
  have p: "prefix_pick (NumberOfLevels L) (LevelSortedRuns L) un"
    using Strategy_Pick_prefix [OF LevelSortedRuns_ok [OF assms(2)] assms(3,1)] .
  then obtain n where n: "0 < n" "n \<le> length (LevelSortedRuns L)"
    "un = FromLevelRuns (output_level un) (take n (LevelSortedRuns L))" "1 \<le> output_level un"
    "output_level un < NumberOfLevels L" "\<forall>r \<in> set (take n (LevelSortedRuns L)). run_level r \<le> output_level un"
    "\<forall>r \<in> set (drop n (LevelSortedRuns L)). output_level un < run_level r"
    by (auto simp: prefix_pick_def)
  have "unit_files un = concat (map (\<lambda>r. run_files (lrun r)) (take n (LevelSortedRuns L)))" "\<not> file_rewrite un"
    using arg_cong [OF n(3), of unit_files] arg_cong [OF n(3), of file_rewrite] by simp_all
  then show ?thesis
    using n prefix_pick_level0 [OF p] by (intro exI [of _ n]) (simp add: NumberOfLevels_def MaxLevel_def)
qed

definition example_levels :: levels_state where
  "example_levels = \<lparr>level0 = [example_file ''b'' 0 [VInt 2] [VInt 9] 6 9, example_file ''a'' 0 [VInt 1] [VInt 5] 1 5],
     levels = [SortedRun_Empty, SortedRun_Empty], drop_file_callbacks = []\<rparr>"

definition example_universal :: universal_compaction where
  "example_universal = \<lparr>max_size_amp = 50, size_ratio = 1, num_run_compaction_trigger = 2, early_full = None, off_peak = None\<rparr>"

lemma example_levels_simps:
  "NumberOfLevels example_levels = 3" "MaxLevel example_levels = 2" "level0 example_levels \<noteq> []"
  "LevelSortedRuns example_levels =
     [\<lparr>run_level = 0, lrun = FromSingle (example_file ''b'' 0 [VInt 2] [VInt 9] 6 9)\<rparr>,
      \<lparr>run_level = 0, lrun = FromSingle (example_file ''a'' 0 [VInt 1] [VInt 5] 1 5)\<rparr>]"
  by (simp_all add: example_levels_def NumberOfLevels_def MaxLevel_def LevelSortedRuns_def IsEmpty_def SortedRun_Empty_def)

theorem Strategy_Pick_safe_witness:
  "\<exists>s' un. Strategy_Pick (\<lambda>_ _. Inr 0) (\<lambda>_. 0) (Universal example_universal) (NumberOfLevels example_levels)
       (LevelSortedRuns example_levels) = (s', Inr (Some un)) \<and> 1 \<le> output_level un \<and> output_level un \<le> 2 \<and>
     set (level0 example_levels) \<subseteq> set (unit_files un)"
proof -
  obtain s' un where p: "Strategy_Pick (\<lambda>_ _. Inr 0) (\<lambda>_. 0) (Universal example_universal) (NumberOfLevels example_levels)
       (LevelSortedRuns example_levels) = (s', Inr (Some un))"
    by (simp add: example_levels_simps UniversalCompaction_Pick_def try_early_full_def example_universal_def PickForSizeAmp_def
        FromSingle_def Let_def)
  then show ?thesis
    using Strategy_Pick_safe [OF p] by (auto simp: example_levels_simps(1,2) example_universal_def)
qed



end
