(* ===== verification/Merge_Functions.thy ===== *)
theory Merge_Functions
  imports Key_Value
begin

text \<open>
  Merging the records of one key: the interface \<open>MergeFunction\<close> with the functions that keep one
  record (\<open>DeduplicateMergeFunction\<close>, \<open>FirstRowMergeFunction\<close>), the wrappers
  \<open>ReducerMergeFunctionWrapper\<close> and \<open>LookupMergeFunction\<close> around any merge function, and the
  wrappers that produce changelog (\<open>FirstRowMergeFunctionWrapper\<close>,
  \<open>FullChangelogMergeFunctionWrapper\<close>, \<open>LookupChangelogMergeFunctionWrapper\<close>). A function is a record
  of its operations over its state; a record moved out of an \<open>optional\<close> stays in the state, because
  every caller resets a function before it is used again. The serializer that copies a value is the
  argument \<open>clone\<close>, the lookup in higher levels the argument \<open>lookup\<close>.
\<close>

section \<open>The interface\<close>

record 's merge_function_ops =
  mf_Reset :: "'s \<Rightarrow> 's"
  mf_Add :: "'s \<Rightarrow> key_value \<Rightarrow> 's result"
  mf_GetResult :: "'s \<Rightarrow> key_value option result"

text \<open>All records of one key, from the reset to the result.\<close>

definition merge_all :: "'s merge_function_ops \<Rightarrow> 's \<Rightarrow> key_value list \<Rightarrow> key_value option result" where
  "merge_all mf s kvs = rbind (rfold (mf_Add mf) (mf_Reset mf s) kvs) (mf_GetResult mf)"

text \<open>
  What a user of a merge function relies on: the result is a function of the records since the reset.
\<close>

locale merge_function =
  fixes mf :: "'s merge_function_ops" and spec :: "key_value list \<Rightarrow> key_value option result"
  assumes merge_all_spec: "merge_all mf s kvs = spec kvs"

section \<open>Deduplicate and first row\<close>

definition Deduplicate_Add :: "bool \<Rightarrow> key_value option \<Rightarrow> key_value \<Rightarrow> key_value option result" where
  "Deduplicate_Add ignore_delete latest kv =
     (if ignore_delete \<and> IsRetract (value_kind kv) then Inr latest else Inr (Some kv))"

definition DeduplicateMergeFunction :: "bool \<Rightarrow> key_value option merge_function_ops" where
  "DeduplicateMergeFunction ignore_delete =
     \<lparr>mf_Reset = (\<lambda>_. None), mf_Add = Deduplicate_Add ignore_delete, mf_GetResult = Inr\<rparr>"

definition deduplicate_spec :: "bool \<Rightarrow> key_value list \<Rightarrow> key_value option result" where
  "deduplicate_spec ignore_delete kvs =
     (let kept = filter (\<lambda>kv. \<not> (ignore_delete \<and> IsRetract (value_kind kv))) kvs in
      Inr (if kept = [] then None else Some (last kept)))"

record first_row =
  first_kv :: "key_value option"
  contains_high_level :: bool

definition FirstRow_Reset :: "first_row \<Rightarrow> first_row" where
  "FirstRow_Reset s = \<lparr>first_kv = None, contains_high_level = False\<rparr>"

definition first_row_error :: status_error where
  "first_row_error = Invalid ''By default, First row merge engine can not accept DELETE/UPDATE_BEFORE records. You can config 'first-row.ignore-delete' to ignore the DELETE/UPDATE_BEFORE records.''"

definition FirstRow_Add :: "bool \<Rightarrow> first_row \<Rightarrow> key_value \<Rightarrow> first_row result" where
  "FirstRow_Add ignore_delete s kv =
     (if IsRetract (value_kind kv) then
        if ignore_delete then Inr s else Inl first_row_error
      else let s' = (if kv_level kv > 0 then s\<lparr>contains_high_level := True\<rparr> else s) in
        Inr (if first_kv s' = None then s'\<lparr>first_kv := Some kv\<rparr> else s'))"

definition FirstRowMergeFunction :: "bool \<Rightarrow> first_row merge_function_ops" where
  "FirstRowMergeFunction ignore_delete =
     \<lparr>mf_Reset = FirstRow_Reset, mf_Add = FirstRow_Add ignore_delete, mf_GetResult = Inr \<circ> first_kv\<rparr>"

definition first_row_spec :: "bool \<Rightarrow> key_value list \<Rightarrow> key_value option result" where
  "first_row_spec ignore_delete kvs =
     (if \<not> ignore_delete \<and> (\<exists>kv \<in> set kvs. IsRetract (value_kind kv))
      then Inl first_row_error
      else Inr (List.find (\<lambda>kv. \<not> IsRetract (value_kind kv)) kvs))"

section \<open>Reducer wrapper\<close>

record 's reducer =
  red_inner :: 's
  initial_kv :: "key_value option"
  is_initialized :: bool

definition Reducer_Reset :: "'s merge_function_ops \<Rightarrow> 's reducer \<Rightarrow> 's reducer" where
  "Reducer_Reset mf w = w\<lparr>initial_kv := None, red_inner := mf_Reset mf (red_inner w), is_initialized := False\<rparr>"

definition Reducer_Merge :: "'s merge_function_ops \<Rightarrow> 's reducer \<Rightarrow> key_value \<Rightarrow> 's reducer result" where
  "Reducer_Merge mf w kv = rbind (mf_Add mf (red_inner w) kv) (\<lambda>s. Inr (w\<lparr>red_inner := s\<rparr>))"

definition Reducer_Add :: "'s merge_function_ops \<Rightarrow> 's reducer \<Rightarrow> key_value \<Rightarrow> 's reducer result" where
  "Reducer_Add mf w kv =
     (case initial_kv w of
        None \<Rightarrow> Inr (w\<lparr>initial_kv := Some kv\<rparr>)
      | Some kv0 \<Rightarrow>
          rbind (if \<not> is_initialized w
                 then rbind (Reducer_Merge mf w kv0) (\<lambda>w1. Inr (w1\<lparr>is_initialized := True\<rparr>))
                 else Inr w)
            (\<lambda>w1. Reducer_Merge mf w1 kv))"

definition Reducer_GetResult :: "'s merge_function_ops \<Rightarrow> 's reducer \<Rightarrow> (key_value option \<times> 's reducer) result" where
  "Reducer_GetResult mf w =
     rbind (if is_initialized w then mf_GetResult mf (red_inner w) else Inr (initial_kv w))
       (\<lambda>r. Inr (r, Reducer_Reset mf w))"

definition reducer_all ::
  "'s merge_function_ops \<Rightarrow> 's reducer \<Rightarrow> key_value list \<Rightarrow> (key_value option \<times> 's reducer) result" where
  "reducer_all mf w kvs = rbind (rfold (Reducer_Add mf) (Reducer_Reset mf w) kvs) (Reducer_GetResult mf)"

fun reducer_spec :: "(key_value list \<Rightarrow> key_value option result) \<Rightarrow> key_value list \<Rightarrow> key_value option result" where
  "reducer_spec spec [] = Inr None"
| "reducer_spec spec [kv] = Inr (Some kv)"
| "reducer_spec spec kvs = spec kvs"

section \<open>Lookup merge function\<close>

record 's lookup_merge =
  lm_inner :: 's
  candidates :: "key_value list"
  current_key :: "row option"
  contain_level0 :: bool

definition Lookup_Reset :: "'s lookup_merge \<Rightarrow> 's lookup_merge" where
  "Lookup_Reset s = s\<lparr>candidates := [], current_key := None, contain_level0 := False\<rparr>"

definition Lookup_Add :: "'s lookup_merge \<Rightarrow> key_value \<Rightarrow> 's lookup_merge result" where
  "Lookup_Add s kv = Inr (s\<lparr>current_key := Some (kv_key kv),
     contain_level0 := (if kv_level kv = 0 then True else contain_level0 s), candidates := candidates s @ [kv]\<rparr>)"

definition PickHighLevelIdx :: "key_value list \<Rightarrow> nat option" where
  "PickHighLevelIdx cs = foldl (\<lambda>best i.
     if kv_level (cs ! i) \<le> 0 then best
     else case best of None \<Rightarrow> Some i | Some j \<Rightarrow> if kv_level (cs ! i) < kv_level (cs ! j) then Some i else best)
     None [0..<length cs]"

definition PickHighLevel :: "key_value list \<Rightarrow> key_value option" where
  "PickHighLevel cs = map_option (\<lambda>i. cs ! i) (PickHighLevelIdx cs)"

definition lookup_inputs :: "key_value list \<Rightarrow> key_value list" where
  "lookup_inputs cs =
     map (\<lambda>i. cs ! i) (filter (\<lambda>i. kv_level (cs ! i) \<le> 0 \<or> PickHighLevelIdx cs = Some i) [0..<length cs])"

definition Lookup_GetResult :: "'s merge_function_ops \<Rightarrow> 's lookup_merge \<Rightarrow> key_value option result" where
  "Lookup_GetResult mf s =
     rbind (rfold (mf_Add mf) (mf_Reset mf (lm_inner s)) (lookup_inputs (candidates s))) (mf_GetResult mf)"

definition LookupMergeFunction :: "'s merge_function_ops \<Rightarrow> 's lookup_merge merge_function_ops" where
  "LookupMergeFunction mf = \<lparr>mf_Reset = Lookup_Reset, mf_Add = Lookup_Add, mf_GetResult = Lookup_GetResult mf\<rparr>"

definition InsertInto ::
  "'s lookup_merge \<Rightarrow> key_value option \<Rightarrow> (key_value \<Rightarrow> key_value \<Rightarrow> bool) \<Rightarrow> 's lookup_merge" where
  "InsertInto s high_level cmp_function =
     (case high_level of None \<Rightarrow> s
      | Some kv \<Rightarrow> s\<lparr>candidates := stable_sort cmp_function (candidates s @ [kv])\<rparr>)"

section \<open>Changelog\<close>

record changelog_result =
  cl_result :: "key_value option"
  changelogs :: "key_value list"

definition CloneKeyValue :: "(row \<Rightarrow> row result) \<Rightarrow> key_value \<Rightarrow> RowKind \<Rightarrow> key_value result" where
  "CloneKeyValue clone from kind = rbind (clone (kv_value from)) (\<lambda>v.
     Inr \<lparr>value_kind = kind, sequence_number = sequence_number from, kv_level = UNKNOWN_LEVEL,
       kv_key = kv_key from, kv_value = v\<rparr>)"

text \<open>First row with lookup; without a serializer (\<open>None\<close>) no changelog is produced.\<close>

definition FirstRowWrapper_GetResult ::
  "(row \<Rightarrow> bool result) \<Rightarrow> (row \<Rightarrow> row result) option \<Rightarrow> first_row \<Rightarrow> (changelog_result \<times> first_row) result" where
  "FirstRowWrapper_GetResult contains clone s =
     (let r = first_kv s; empty = \<lparr>cl_result = None, changelogs = []\<rparr> in
      if contains_high_level s then Inr (empty\<lparr>cl_result := r\<rparr>, FirstRow_Reset s)
      else case r of
        None \<Rightarrow> Inl (Invalid ''In FirstRowMergeFunctionWrapper when call GetResult, there must have a result'')
      | Some kv \<Rightarrow> rbind (contains (kv_key kv)) (\<lambda>found.
          if found then Inr (empty, FirstRow_Reset s)
          else rbind (case clone of None \<Rightarrow> Inr [] | Some cp \<Rightarrow> rbind (cp (kv_value kv)) (\<lambda>v. Inr [kv\<lparr>kv_value := v\<rparr>]))
            (\<lambda>log. Inr (\<lparr>cl_result = Some kv, changelogs = log\<rparr>, FirstRow_Reset s))))"

subsection \<open>Full compaction\<close>

record 's full_changelog =
  fc_inner :: 's
  top_level_kv :: "key_value option"
  fc_initial_kv :: "key_value option"
  fc_initialized :: bool

definition FullChangelog_Reset :: "'s merge_function_ops \<Rightarrow> 's full_changelog \<Rightarrow> 's full_changelog" where
  "FullChangelog_Reset mf w = \<lparr>fc_inner = mf_Reset mf (fc_inner w), top_level_kv = None, fc_initial_kv = None, fc_initialized = False\<rparr>"

definition RememberTopLevel :: "(row \<Rightarrow> row result) \<Rightarrow> 's full_changelog \<Rightarrow> key_value \<Rightarrow> 's full_changelog result" where
  "RememberTopLevel clone w kv =
     (if top_level_kv w \<noteq> None then Inl (Invalid ''Top level key-value already exists. This is unexpected.'')
      else rbind (CloneKeyValue clone kv (value_kind kv)) (\<lambda>c. Inr (w\<lparr>top_level_kv := Some c\<rparr>)))"

definition full_changelog_merge ::
  "'s merge_function_ops \<Rightarrow> int \<Rightarrow> (row \<Rightarrow> row result) \<Rightarrow> 's full_changelog \<Rightarrow> key_value \<Rightarrow> 's full_changelog result" where
  "full_changelog_merge mf max_level clone w kv =
     rbind (if kv_level kv = max_level then RememberTopLevel clone w kv else Inr w) (\<lambda>w1.
       rbind (mf_Add mf (fc_inner w1) kv) (\<lambda>s. Inr (w1\<lparr>fc_inner := s\<rparr>)))"

definition FullChangelog_Add ::
  "'s merge_function_ops \<Rightarrow> int \<Rightarrow> (row \<Rightarrow> row result) \<Rightarrow> 's full_changelog \<Rightarrow> key_value \<Rightarrow> 's full_changelog result" where
  "FullChangelog_Add mf max_level clone w kv =
     (case fc_initial_kv w of
        None \<Rightarrow> Inr (w\<lparr>fc_initial_kv := Some kv\<rparr>)
      | Some kv0 \<Rightarrow>
          rbind (if \<not> fc_initialized w
                 then rbind (full_changelog_merge mf max_level clone w kv0) (\<lambda>w1. Inr (w1\<lparr>fc_initialized := True\<rparr>))
                 else Inr w)
            (\<lambda>w1. full_changelog_merge mf max_level clone w1 kv))"

definition differs :: "(row \<Rightarrow> row \<Rightarrow> int) option \<Rightarrow> row \<Rightarrow> row \<Rightarrow> bool" where
  "differs value_equalizer a b = (case value_equalizer of None \<Rightarrow> True | Some eq \<Rightarrow> eq a b \<noteq> 0)"

definition is_add :: "key_value option \<Rightarrow> bool" where
  "is_add r = (case r of None \<Rightarrow> False | Some kv \<Rightarrow> IsAdd (value_kind kv))"

definition full_changelog_records ::
  "int \<Rightarrow> (row \<Rightarrow> row result) \<Rightarrow> (row \<Rightarrow> row \<Rightarrow> int) option \<Rightarrow> 's full_changelog \<Rightarrow> key_value option \<Rightarrow> key_value list result" where
  "full_changelog_records max_level clone value_equalizer w merged =
     (if fc_initialized w then
        (case top_level_kv w of
           None \<Rightarrow> if is_add merged then rbind (CloneKeyValue clone (the merged) INSERT) (\<lambda>kv. Inr [kv]) else Inr []
         | Some old \<Rightarrow>
             if \<not> is_add merged then Inr [old\<lparr>value_kind := DELETE\<rparr>]
             else if differs value_equalizer (kv_value old) (kv_value (the merged))
             then rbind (CloneKeyValue clone (the merged) UPDATE_AFTER) (\<lambda>kv. Inr [old\<lparr>value_kind := UPDATE_BEFORE\<rparr>, kv])
             else Inr [])
      else case merged of
           None \<Rightarrow> Inr []
         | Some kv \<Rightarrow> if kv_level kv \<noteq> max_level \<and> IsAdd (value_kind kv)
             then rbind (CloneKeyValue clone kv INSERT) (\<lambda>ins. Inr [ins]) else Inr [])"

definition FullChangelog_GetResult ::
  "'s merge_function_ops \<Rightarrow> int \<Rightarrow> (row \<Rightarrow> row result) \<Rightarrow> (row \<Rightarrow> row \<Rightarrow> int) option \<Rightarrow> 's full_changelog \<Rightarrow>
   (changelog_result \<times> 's full_changelog) result" where
  "FullChangelog_GetResult mf max_level clone value_equalizer w =
     rbind (if fc_initialized w then mf_GetResult mf (fc_inner w) else Inr (fc_initial_kv w)) (\<lambda>merged.
       rbind (full_changelog_records max_level clone value_equalizer w merged) (\<lambda>log.
         Inr (\<lparr>cl_result = (if is_add merged then merged else None), changelogs = log\<rparr>, FullChangelog_Reset mf w)))"

definition full_changelog_all ::
  "'s merge_function_ops \<Rightarrow> int \<Rightarrow> (row \<Rightarrow> row result) \<Rightarrow> (row \<Rightarrow> row \<Rightarrow> int) option \<Rightarrow> 's full_changelog \<Rightarrow>
   key_value list \<Rightarrow> (changelog_result \<times> 's full_changelog) result" where
  "full_changelog_all mf max_level clone value_equalizer w kvs =
     rbind (rfold (FullChangelog_Add mf max_level clone) (FullChangelog_Reset mf w) kvs)
       (FullChangelog_GetResult mf max_level clone value_equalizer)"

subsection \<open>Lookup\<close>

text \<open>
  The three result types of a lookup; with deletion vectors the looked-up position is reported as a
  deletion, which the model returns in a list.
\<close>

datatype lookup_result =
    LookupPositionedKeyValue key_value string int
  | LookupFilePosition string int
  | LookupKeyValue key_value

fun looked_up_kv :: "lookup_result \<Rightarrow> key_value option" where
  "looked_up_kv (LookupPositionedKeyValue kv n p) = Some kv"
| "looked_up_kv (LookupFilePosition n p) = None"
| "looked_up_kv (LookupKeyValue kv) = Some kv"

fun looked_up_position :: "lookup_result \<Rightarrow> string \<times> int" where
  "looked_up_position (LookupPositionedKeyValue kv n p) = (n, p)"
| "looked_up_position (LookupFilePosition n p) = (n, p)"
| "looked_up_position (LookupKeyValue kv) = ('''', -1)"

record lookup_strategy =
  need_lookup :: bool
  is_first_row :: bool
  produce_changelog :: bool
  deletion_vector :: bool


record lookup_config =
  cfg_lookup :: "row option \<Rightarrow> lookup_result option result"
  cfg_strategy :: lookup_strategy
  cfg_changelog :: bool
  cfg_notify :: "string \<Rightarrow> int \<Rightarrow> unit result"
  cfg_seq :: "row_compare option"
  cfg_clone :: "row \<Rightarrow> row result"
  cfg_equalizer :: "(row \<Rightarrow> row \<Rightarrow> int) option"

definition LookupChangelog_Create :: "lookup_strategy \<Rightarrow> bool \<Rightarrow> bool \<Rightarrow> bool \<Rightarrow> unit result" where
  "LookupChangelog_Create strategy should_produce_changelog has_dv_maintainer has_serializer =
     (if deletion_vector strategy \<and> \<not> has_dv_maintainer
      then Inl (Invalid ''deletionVectorsMaintainer should not be null, there is a bug.'')
      else if should_produce_changelog \<and> \<not> has_serializer
      then Inl (Invalid ''valueSerializer is required when producing changelog.'')
      else Inr ())"

definition CreateSequenceComparator :: "row_compare option \<Rightarrow> key_value \<Rightarrow> key_value \<Rightarrow> bool" where
  "CreateSequenceComparator user_defined o1 o2 =
     (case user_defined of
        None \<Rightarrow> sequence_number o1 < sequence_number o2
      | Some cmp \<Rightarrow> let r = cmp (kv_value o1) (kv_value o2) in
          if r \<noteq> 0 then r < 0 else sequence_number o1 < sequence_number o2)"

definition SetChangelog ::
  "(row \<Rightarrow> row result) \<Rightarrow> (row \<Rightarrow> row \<Rightarrow> int) option \<Rightarrow> key_value option \<Rightarrow> key_value option \<Rightarrow> key_value list result" where
  "SetChangelog clone value_equalizer before after =
     (if \<not> is_add before then
        (if is_add after then rbind (CloneKeyValue clone (the after) INSERT) (\<lambda>kv. Inr [kv]) else Inr [])
      else if \<not> is_add after then Inr [(the before)\<lparr>value_kind := DELETE\<rparr>]
      else if differs value_equalizer (kv_value (the before)) (kv_value (the after)) then
        rbind (CloneKeyValue clone (the after) UPDATE_AFTER) (\<lambda>kv. Inr [(the before)\<lparr>value_kind := UPDATE_BEFORE\<rparr>, kv])
      else Inr [])"

definition clone_before :: "lookup_config \<Rightarrow> bool \<Rightarrow> key_value \<Rightarrow> key_value option result" where
  "clone_before cfg level0 kv =
     (if level0 \<and> cfg_changelog cfg then rbind (CloneKeyValue (cfg_clone cfg) kv (value_kind kv)) (\<lambda>c. Inr (Some c)) else Inr None)"

text \<open>The old record, from the candidates or by lookup, the state with it, and the reported deletions.\<close>

definition lookup_high_level ::
  "lookup_config \<Rightarrow> 's lookup_merge \<Rightarrow> (key_value option \<times> 's lookup_merge \<times> (string \<times> int) list) result" where
  "lookup_high_level cfg s =
     (case PickHighLevel (candidates s) of
        Some kv \<Rightarrow> rbind (clone_before cfg (contain_level0 s) kv) (\<lambda>before. Inr (before, s, []))
      | None \<Rightarrow> rbind (cfg_lookup cfg (current_key s)) (\<lambda>found.
          case found of
            None \<Rightarrow> Inr (None, s, [])
          | Some r \<Rightarrow>
              rbind (if deletion_vector (cfg_strategy cfg)
                     then rbind (cfg_notify cfg (fst (looked_up_position r)) (snd (looked_up_position r)))
                       (\<lambda>_. Inr [looked_up_position r])
                     else Inr []) (\<lambda>deleted.
                case looked_up_kv r of
                  None \<Rightarrow> Inr (None, s, deleted)
                | Some kv \<Rightarrow> rbind (clone_before cfg (contain_level0 s) kv) (\<lambda>before.
                    Inr (before, InsertInto s (Some kv) (CreateSequenceComparator (cfg_seq cfg)), deleted)))))"

definition LookupChangelog_GetResult ::
  "'s merge_function_ops \<Rightarrow> lookup_config \<Rightarrow> 's lookup_merge \<Rightarrow>
   (changelog_result \<times> 's lookup_merge \<times> (string \<times> int) list) result" where
  "LookupChangelog_GetResult mf cfg s =
     rbind (lookup_high_level cfg s) (\<lambda>(before, s1, deleted).
       rbind (Lookup_GetResult mf s1) (\<lambda>r.
         rbind (if contain_level0 s \<and> cfg_changelog cfg then SetChangelog (cfg_clone cfg) (cfg_equalizer cfg) before r else Inr [])
           (\<lambda>log. Inr (\<lparr>cl_result = r, changelogs = log\<rparr>, Lookup_Reset s1, deleted))))"

definition lookup_changelog_all ::
  "'s merge_function_ops \<Rightarrow> lookup_config \<Rightarrow> 's lookup_merge \<Rightarrow> key_value list \<Rightarrow>
   (changelog_result \<times> 's lookup_merge \<times> (string \<times> int) list) result" where
  "lookup_changelog_all mf cfg s kvs =
     rbind (rfold Lookup_Add (Lookup_Reset s) kvs) (LookupChangelog_GetResult mf cfg)"

section \<open>Deduplicate and first row meet the contract\<close>

lemma rfold_Deduplicate:
  "rfold (Deduplicate_Add b) s kvs =
     (let kept = filter (\<lambda>kv. \<not> (b \<and> IsRetract (value_kind kv))) kvs in Inr (if kept = [] then s else Some (last kept)))"
  by (induction kvs arbitrary: s) (auto simp: Deduplicate_Add_def Let_def)

interpretation deduplicate: merge_function "DeduplicateMergeFunction b" "deduplicate_spec b" for b
  by unfold_locales (simp add: merge_all_def DeduplicateMergeFunction_def rfold_Deduplicate deduplicate_spec_def Let_def)

lemma rfold_FirstRow:
  "rfold (FirstRow_Add b) s kvs =
     (if \<not> b \<and> (\<exists>kv \<in> set kvs. IsRetract (value_kind kv))
      then Inl first_row_error
      else Inr \<lparr>first_kv = (case first_kv s of None \<Rightarrow> List.find (\<lambda>kv. \<not> IsRetract (value_kind kv)) kvs | Some kv \<Rightarrow> Some kv),
        contains_high_level = (contains_high_level s \<or> (\<exists>kv \<in> set kvs. \<not> IsRetract (value_kind kv) \<and> kv_level kv > 0))\<rparr>)"
proof (induction kvs arbitrary: s)
  case Nil
  show ?case by (cases s) (simp split: option.splits)
next
  case (Cons kv kvs)
  show ?case
  proof (cases "IsRetract (value_kind kv)")
    case True
    then show ?thesis using Cons.IH [of s] by (cases b) (auto simp: FirstRow_Add_def split: option.splits)
  next
    case False
    let ?s = "if kv_level kv > 0 then s\<lparr>contains_high_level := True\<rparr> else s"
    let ?t = "if first_kv ?s = None then ?s\<lparr>first_kv := Some kv\<rparr> else ?s"
    have "FirstRow_Add b s kv = Inr ?t" using False by (simp add: FirstRow_Add_def Let_def)
    moreover have "contains_high_level ?t \<longleftrightarrow> contains_high_level s \<or> kv_level kv > 0" by auto
    moreover have "first_kv ?t = (case first_kv s of None \<Rightarrow> Some kv | Some k \<Rightarrow> Some k)" by (auto split: option.splits)
    ultimately show ?thesis using Cons.IH [of ?t] False by (auto split: option.splits)
  qed
qed

interpretation first_row: merge_function "FirstRowMergeFunction b" "first_row_spec b" for b
  by unfold_locales
    (simp add: merge_all_def FirstRowMergeFunction_def rfold_FirstRow first_row_spec_def FirstRow_Reset_def)

section \<open>The reducer\<close>

context merge_function
begin

text \<open>Once two records are in, the reducer passes every record on.\<close>

lemma reducer_fold:
  "is_initialized w \<Longrightarrow> initial_kv w \<noteq> None \<Longrightarrow>
   rfold (Reducer_Add mf) w kvs = rbind (rfold (mf_Add mf) (red_inner w) kvs) (\<lambda>s. Inr (w\<lparr>red_inner := s\<rparr>))"
proof (induction kvs arbitrary: w)
  case (Cons kv kvs)
  then show ?case by (cases "mf_Add mf (red_inner w) kv") (auto simp: Reducer_Add_def Reducer_Merge_def)
qed simp

lemma reducer_all_spec: "rbind (reducer_all mf w kvs) (\<lambda>(r, _). Inr r) = reducer_spec spec kvs"
proof (cases "(spec, kvs)" rule: reducer_spec.cases)
  case (3 f kv1 kv2 rest)
  have "rbind (reducer_all mf w kvs) (\<lambda>(r, _). Inr r) = merge_all mf (red_inner w) kvs"
    using 3 by (simp add: reducer_all_def merge_all_def rbind_assoc Reducer_Add_def Reducer_Merge_def Reducer_Reset_def
        reducer_fold Reducer_GetResult_def)
  then show ?thesis using 3 by (simp add: merge_all_spec)
qed (auto simp: reducer_all_def Reducer_Add_def Reducer_GetResult_def Reducer_Reset_def)

lemma reducer_all_reset: "reducer_all mf w kvs = Inr (r, w') \<Longrightarrow> \<exists>v. w' = Reducer_Reset mf v"
  by (auto simp: reducer_all_def Reducer_GetResult_def result_simps)

end

section \<open>The lookup function\<close>

lemma Lookup_fold:
  "rfold Lookup_Add s kvs = Inr (s\<lparr>candidates := candidates s @ kvs,
     current_key := (if kvs = [] then current_key s else Some (kv_key (last kvs))),
     contain_level0 := (contain_level0 s \<or> (\<exists>kv \<in> set kvs. kv_level kv = 0))\<rparr>)"
  by (induction kvs arbitrary: s) (auto simp: Lookup_Add_def)

context merge_function
begin

lemma lookup_merge_function: "merge_function (LookupMergeFunction mf) (\<lambda>kvs. spec (lookup_inputs kvs))"
  using merge_all_spec
  by unfold_locales
    (simp add: merge_all_def LookupMergeFunction_def Lookup_fold Lookup_Reset_def Lookup_GetResult_def)

end

interpretation lookup_deduplicate: merge_function "LookupMergeFunction (DeduplicateMergeFunction b)"
  "\<lambda>kvs. deduplicate_spec b (lookup_inputs kvs)" for b
  by (rule deduplicate.lookup_merge_function)

text \<open>The index picked is the first one of the lowest level above 0.\<close>

definition picked :: "key_value list \<Rightarrow> nat \<Rightarrow> nat option \<Rightarrow> bool" where
  "picked cs n r = (case r of
     None \<Rightarrow> (\<forall>i < n. kv_level (cs ! i) \<le> 0)
   | Some j \<Rightarrow> j < n \<and> 0 < kv_level (cs ! j) \<and> (\<forall>i < n. 0 < kv_level (cs ! i) \<longrightarrow> kv_level (cs ! j) \<le> kv_level (cs ! i)) \<and>
       (\<forall>i < j. 0 < kv_level (cs ! i) \<longrightarrow> kv_level (cs ! j) < kv_level (cs ! i)))"

lemma picked_step:
  "picked cs n best \<Longrightarrow> picked cs (Suc n) (if kv_level (cs ! n) \<le> 0 then best
     else case best of None \<Rightarrow> Some n | Some j \<Rightarrow> if kv_level (cs ! n) < kv_level (cs ! j) then Some n else best)"
proof (cases best)
  case None
  assume "picked cs n best"
  then have "\<And>i. i < n \<Longrightarrow> kv_level (cs ! i) \<le> 0" using None by (simp add: picked_def)
  then show ?thesis using None by (force simp: picked_def less_Suc_eq)
next
  case (Some j)
  assume "picked cs n best"
  then show ?thesis using Some by (auto simp: picked_def less_Suc_eq)
qed

lemma picked_PickHighLevelIdx: "picked cs (length cs) (PickHighLevelIdx cs)"
proof -
  have "picked cs n (foldl (\<lambda>best i. if kv_level (cs ! i) \<le> 0 then best
     else case best of None \<Rightarrow> Some i | Some j \<Rightarrow> if kv_level (cs ! i) < kv_level (cs ! j) then Some i else best) None [0..<n])" for n
  proof (induction n)
    case (Suc n)
    show ?case unfolding upt_Suc using picked_step [OF Suc] by simp
  qed (simp add: picked_def)
  then show ?thesis unfolding PickHighLevelIdx_def .
qed

lemma PickHighLevelIdx_None: "PickHighLevelIdx cs = None \<longleftrightarrow> (\<forall>kv \<in> set cs. kv_level kv \<le> 0)"
proof (cases "PickHighLevelIdx cs")
  case None
  then show ?thesis using picked_PickHighLevelIdx [of cs] by (auto simp: picked_def in_set_conv_nth)
next
  case (Some k)
  then have "k < length cs" "0 < kv_level (cs ! k)" using picked_PickHighLevelIdx [of cs] by (simp_all add: picked_def)
  then have "\<exists>kv \<in> set cs. \<not> kv_level kv \<le> 0" using nth_mem [of k cs] by (intro bexI [of _ "cs ! k"]) simp_all
  then show ?thesis using Some by simp
qed

lemma PickHighLevel_Some:
  assumes "PickHighLevel cs = Some kv"
  shows "kv \<in> set cs \<and> 0 < kv_level kv \<and> (\<forall>x \<in> set cs. 0 < kv_level x \<longrightarrow> kv_level kv \<le> kv_level x)"
proof -
  obtain j where j: "PickHighLevelIdx cs = Some j" "kv = cs ! j" using assms by (auto simp: PickHighLevel_def)
  have p: "j < length cs" "0 < kv_level kv" "\<And>i. i < length cs \<Longrightarrow> 0 < kv_level (cs ! i) \<Longrightarrow> kv_level kv \<le> kv_level (cs ! i)"
    using picked_PickHighLevelIdx [of cs] j by (simp_all add: picked_def)
  have "kv_level kv \<le> kv_level x" if "x \<in> set cs" "0 < kv_level x" for x
    using that p(3) by (metis in_set_conv_nth)
  then show ?thesis using p(1,2) j(2) by simp
qed

section \<open>Changelog\<close>

text \<open>
  What a consumer of the changelog sees: the visible value of a key, and the effect of the records of a
  changelog on it. An insert and an update-after need an absent value, a delete and an update-before
  need the value they carry.
\<close>

definition visible :: "key_value option \<Rightarrow> row option" where
  "visible r = (if is_add r then Some (kv_value (the r)) else None)"

definition apply_change :: "row option \<Rightarrow> key_value \<Rightarrow> row option option" where
  "apply_change st kv =
     (if IsAdd (value_kind kv) then (if st = None then Some (Some (kv_value kv)) else None)
      else (if st = Some (kv_value kv) then Some None else None))"

definition replay :: "row option \<Rightarrow> key_value list \<Rightarrow> row option option" where
  "replay st cl = foldl (\<lambda>r kv. Option.bind r (\<lambda>st. apply_change st kv)) (Some st) cl"

text \<open>Two visible values agree, up to the fields the equalizer of the table ignores.\<close>

definition same_value :: "(row \<Rightarrow> row \<Rightarrow> int) option \<Rightarrow> row option \<Rightarrow> row option \<Rightarrow> bool" where
  "same_value value_equalizer a b \<longleftrightarrow>
     a = b \<or> (\<exists>v w eq. a = Some v \<and> b = Some w \<and> value_equalizer = Some eq \<and> eq v w = 0)"

definition describes :: "(row \<Rightarrow> row \<Rightarrow> int) option \<Rightarrow> key_value option \<Rightarrow> key_value list \<Rightarrow> key_value option \<Rightarrow> bool" where
  "describes value_equalizer old cl new \<longleftrightarrow>
     (\<exists>st. replay (visible old) cl = Some st \<and> same_value value_equalizer st (visible new))"

lemmas changelog_defs = describes_def replay_def apply_change_def visible_def same_value_def is_add_def differs_def

lemma IsAdd_simps [simp]: "IsAdd INSERT" "IsAdd UPDATE_AFTER" "\<not> IsAdd DELETE" "\<not> IsAdd UPDATE_BEFORE"
  by (simp_all add: IsAdd_def)

lemma CloneKeyValue_copy:
  "(\<And>v. clone v = Inr v) \<Longrightarrow> CloneKeyValue clone kv kind = Inr (kv\<lparr>value_kind := kind, kv_level := UNKNOWN_LEVEL\<rparr>)"
  by (cases kv) (simp add: CloneKeyValue_def)

lemma SetChangelog_describes:
  assumes "\<And>v. clone v = Inr v"
  shows "\<exists>cl. SetChangelog clone value_equalizer before after = Inr cl \<and> describes value_equalizer before cl after"
  using assms
  by (cases before; cases after)
    (auto simp: SetChangelog_def CloneKeyValue_copy changelog_defs split: option.splits)

text \<open>
  The old record of a key during a lookup compaction: the newest record of a high level among the
  candidates, otherwise the one found by lookup; and the records that are merged with it.
\<close>

definition old_record :: "lookup_config \<Rightarrow> key_value list \<Rightarrow> key_value option result" where
  "old_record cfg kvs = (case PickHighLevel kvs of
     Some kv \<Rightarrow> Inr (Some kv)
   | None \<Rightarrow> rbind (cfg_lookup cfg (if kvs = [] then None else Some (kv_key (last kvs))))
       (\<lambda>found. Inr (Option.bind found looked_up_kv)))"

definition merge_inputs :: "lookup_config \<Rightarrow> key_value list \<Rightarrow> key_value option \<Rightarrow> key_value list" where
  "merge_inputs cfg kvs old = lookup_inputs (if PickHighLevel kvs \<noteq> None \<or> old = None then kvs
     else stable_sort (CreateSequenceComparator (cfg_seq cfg)) (kvs @ [the old]))"

lemma clone_before_copy:
  assumes "\<And>v. cfg_clone cfg v = Inr v"
  shows "clone_before cfg level0 kv = Inr (if level0 \<and> cfg_changelog cfg then Some (kv\<lparr>kv_level := UNKNOWN_LEVEL\<rparr>) else None)"
  using CloneKeyValue_copy [of "cfg_clone cfg" kv "value_kind kv"] assms by (simp add: clone_before_def)

lemma lookup_high_level_spec:
  assumes "\<And>v. cfg_clone cfg v = Inr v" "lookup_high_level cfg s = Inr (before, s1, deleted)"
    "candidates s = kvs" "current_key s = (if kvs = [] then None else Some (kv_key (last kvs)))"
  obtains old where "old_record cfg kvs = Inr old" "lookup_inputs (candidates s1) = merge_inputs cfg kvs old"
    "before = (if contain_level0 s \<and> cfg_changelog cfg then map_option (\<lambda>kv. kv\<lparr>kv_level := UNKNOWN_LEVEL\<rparr>) old else None)"
    "lm_inner s1 = lm_inner s"
proof (cases "PickHighLevel kvs")
  case None
  obtain found where f: "cfg_lookup cfg (current_key s) = Inr found"
    using assms(2,3) None by (auto simp: lookup_high_level_def result_simps)
  have old: "old_record cfg kvs = Inr (Option.bind found looked_up_kv)" using None f assms(4) by (simp add: old_record_def)
  show ?thesis
  proof (cases "Option.bind found looked_up_kv")
    case no: None
    then have "before = None" "s1 = s"
      using assms(2,3) None f by (cases found; auto simp: lookup_high_level_def result_simps split: option.splits if_splits)+
    then show ?thesis using that [OF old] no assms(3) by (simp add: merge_inputs_def)
  next
    case (Some kv)
    then obtain r where r: "found = Some r" "looked_up_kv r = Some kv" by (cases found) auto
    then have "before = (if contain_level0 s \<and> cfg_changelog cfg then Some (kv\<lparr>kv_level := UNKNOWN_LEVEL\<rparr>) else None)"
      "s1 = InsertInto s (Some kv) (CreateSequenceComparator (cfg_seq cfg))"
      using assms(2,3) None f by (auto simp: lookup_high_level_def result_simps clone_before_copy [OF assms(1)] split: if_splits)
    then show ?thesis using that [OF old] Some None assms(3) by (simp add: merge_inputs_def InsertInto_def)
  qed
next
  case (Some kv)
  then have "before = (if contain_level0 s \<and> cfg_changelog cfg then Some (kv\<lparr>kv_level := UNKNOWN_LEVEL\<rparr>) else None)" "s1 = s"
    using assms by (auto simp: lookup_high_level_def result_simps clone_before_copy)
  then show ?thesis using that [of "Some kv"] Some assms(3) by (simp add: old_record_def merge_inputs_def)
qed

lemma describes_level: "describes eq (map_option (\<lambda>kv. kv\<lparr>kv_level := l\<rparr>) old) cl new \<longleftrightarrow> describes eq old cl new"
  by (cases old) (simp_all add: describes_def visible_def is_add_def)

context merge_function
begin

lemma lookup_changelog_correct:
  assumes clone: "\<And>v. cfg_clone cfg v = Inr v"
    and run: "lookup_changelog_all mf cfg s kvs = Inr (cr, s', deleted)"
  shows "\<exists>old. old_record cfg kvs = Inr old \<and> spec (merge_inputs cfg kvs old) = Inr (cl_result cr) \<and>
    (if (\<exists>kv \<in> set kvs. kv_level kv = 0) \<and> cfg_changelog cfg
     then describes (cfg_equalizer cfg) old (changelogs cr) (cl_result cr) else changelogs cr = [])"
proof -
  define t where "t = s\<lparr>candidates := kvs, current_key := (if kvs = [] then None else Some (kv_key (last kvs))),
    contain_level0 := (\<exists>kv \<in> set kvs. kv_level kv = 0)\<rparr>"
  have t: "candidates t = kvs" "current_key t = (if kvs = [] then None else Some (kv_key (last kvs)))"
    "contain_level0 t = (\<exists>kv \<in> set kvs. kv_level kv = 0)" by (simp_all add: t_def)
  have "LookupChangelog_GetResult mf cfg t = Inr (cr, s', deleted)"
    using run by (cases "kvs = []") (simp_all add: lookup_changelog_all_def Lookup_fold Lookup_Reset_def t_def)
  then obtain before s1 r cl where g: "lookup_high_level cfg t = Inr (before, s1, deleted)" "Lookup_GetResult mf s1 = Inr r"
    "(if contain_level0 t \<and> cfg_changelog cfg then SetChangelog (cfg_clone cfg) (cfg_equalizer cfg) before r else Inr []) = Inr cl"
    "cr = \<lparr>cl_result = r, changelogs = cl\<rparr>"
    by (auto simp: LookupChangelog_GetResult_def result_simps)
  obtain old where old: "old_record cfg kvs = Inr old" "lookup_inputs (candidates s1) = merge_inputs cfg kvs old"
    "before = (if contain_level0 t \<and> cfg_changelog cfg then map_option (\<lambda>kv. kv\<lparr>kv_level := UNKNOWN_LEVEL\<rparr>) old else None)"
    using lookup_high_level_spec [OF clone g(1) t(1,2)] by blast
  have "spec (merge_inputs cfg kvs old) = Inr r"
    using g(2) merge_all_spec [of "lm_inner s1"] old(2) by (simp add: Lookup_GetResult_def merge_all_def)
  moreover have "describes (cfg_equalizer cfg) old cl r" if "contain_level0 t \<and> cfg_changelog cfg"
    using SetChangelog_describes [OF clone, of "cfg_equalizer cfg" before r] g(3) old(3) that by (simp add: describes_level)
  ultimately show ?thesis using old(1) g(3,4) t(3) by (intro exI [of _ old]) auto
qed

end

subsection \<open>Full compaction\<close>

definition top_record :: "int \<Rightarrow> key_value list \<Rightarrow> key_value option" where
  "top_record max_level kvs = List.find (\<lambda>kv. kv_level kv = max_level) kvs"

lemma find_append: "List.find P (xs @ ys) = (case List.find P xs of None \<Rightarrow> List.find P ys | Some x \<Rightarrow> Some x)"
  by (induction xs) auto

lemma full_changelog_merge_copy:
  assumes "\<And>v. clone v = Inr v" "full_changelog_merge mf max_level clone w kv = Inr w'"
  shows "mf_Add mf (fc_inner w) kv = Inr (fc_inner w') \<and> fc_initial_kv w' = fc_initial_kv w \<and> fc_initialized w' = fc_initialized w \<and>
    top_level_kv w' = (if kv_level kv = max_level then Some (kv\<lparr>kv_level := UNKNOWN_LEVEL\<rparr>) else top_level_kv w) \<and>
    (kv_level kv = max_level \<longrightarrow> top_level_kv w = None)"
  using assms CloneKeyValue_copy [of clone kv "value_kind kv"]
  by (auto simp: full_changelog_merge_def RememberTopLevel_def result_simps split: if_splits)

lemma FullChangelog_Add_initialized:
  "fc_initialized w \<Longrightarrow> fc_initial_kv w \<noteq> None \<Longrightarrow>
   FullChangelog_Add mf max_level clone w kv = full_changelog_merge mf max_level clone w kv"
  by (auto simp: FullChangelog_Add_def)

text \<open>Once two records are in, every record goes to the inner function and the top level one is remembered.\<close>

lemma full_changelog_fold:
  assumes "\<And>v. clone v = Inr v"
  shows "rfold (FullChangelog_Add mf max_level clone) w kvs = Inr w' \<Longrightarrow> fc_initialized w \<Longrightarrow> fc_initial_kv w \<noteq> None \<Longrightarrow>
    rfold (mf_Add mf) (fc_inner w) kvs = Inr (fc_inner w') \<and> fc_initialized w' \<and>
    top_level_kv w' = (case top_level_kv w of Some kv \<Rightarrow> Some kv
      | None \<Rightarrow> map_option (\<lambda>kv. kv\<lparr>kv_level := UNKNOWN_LEVEL\<rparr>) (top_record max_level kvs))"
proof (induction kvs arbitrary: w)
  case Nil
  then show ?case by (simp add: top_record_def split: option.splits)
next
  case (Cons kv kvs)
  then obtain w1 where w1: "full_changelog_merge mf max_level clone w kv = Inr w1"
    and rest: "rfold (FullChangelog_Add mf max_level clone) w1 kvs = Inr w'"
    by (auto simp: FullChangelog_Add_initialized result_simps)
  note step = full_changelog_merge_copy [OF assms w1]
  note IH = Cons.IH [OF rest]
  show ?case using step IH Cons.prems(2,3) by (auto simp: top_record_def split: option.splits if_splits)
qed

context merge_function
begin

lemma full_changelog_state:
  assumes "\<And>v. clone v = Inr v" "rfold (FullChangelog_Add mf max_level clone) (FullChangelog_Reset mf w) kvs = Inr w'"
  shows "fc_initialized w' \<longleftrightarrow> 2 \<le> length kvs"
    "length kvs < 2 \<Longrightarrow> fc_initial_kv w' = (case kvs of [] \<Rightarrow> None | kv # _ \<Rightarrow> Some kv)"
    "2 \<le> length kvs \<Longrightarrow> mf_GetResult mf (fc_inner w') = spec kvs \<and>
       top_level_kv w' = map_option (\<lambda>kv. kv\<lparr>kv_level := UNKNOWN_LEVEL\<rparr>) (top_record max_level kvs)"
proof -
  consider "kvs = []" | kv where "kvs = [kv]" | kv1 kv2 rest where "kvs = kv1 # kv2 # rest" by (metis list.exhaust)
  then have "(fc_initialized w' \<longleftrightarrow> 2 \<le> length kvs) \<and>
    (length kvs < 2 \<longrightarrow> fc_initial_kv w' = (case kvs of [] \<Rightarrow> None | kv # _ \<Rightarrow> Some kv)) \<and>
    (2 \<le> length kvs \<longrightarrow> mf_GetResult mf (fc_inner w') = spec kvs \<and>
       top_level_kv w' = map_option (\<lambda>kv. kv\<lparr>kv_level := UNKNOWN_LEVEL\<rparr>) (top_record max_level kvs))"
  proof cases
    case (3 kv1 kv2 rest)
    define w0 where "w0 = (FullChangelog_Reset mf w)\<lparr>fc_initial_kv := Some kv1\<rparr>"
    obtain w1 w2 where w1: "full_changelog_merge mf max_level clone w0 kv1 = Inr w1"
      and w2: "full_changelog_merge mf max_level clone (w1\<lparr>fc_initialized := True\<rparr>) kv2 = Inr w2"
      and rest: "rfold (FullChangelog_Add mf max_level clone) w2 rest = Inr w'"
    proof -
      have "FullChangelog_Add mf max_level clone (FullChangelog_Reset mf w) kv1 = Inr w0"
        by (simp add: FullChangelog_Add_def FullChangelog_Reset_def w0_def)
      moreover have "FullChangelog_Add mf max_level clone w0 kv2 = rbind (full_changelog_merge mf max_level clone w0 kv1)
          (\<lambda>w1. full_changelog_merge mf max_level clone (w1\<lparr>fc_initialized := True\<rparr>) kv2)"
        by (simp add: FullChangelog_Add_def FullChangelog_Reset_def w0_def rbind_assoc)
      ultimately show thesis using assms(2) 3 that by (auto simp: result_simps)
    qed
    note s1 = full_changelog_merge_copy [OF assms(1) w1] and s2 = full_changelog_merge_copy [OF assms(1) w2]
    have w0: "fc_inner w0 = mf_Reset mf (fc_inner w)" "top_level_kv w0 = None" "fc_initial_kv w0 = Some kv1"
      by (simp_all add: w0_def FullChangelog_Reset_def)
    note f = full_changelog_fold [OF assms(1) rest]
    have "rfold (mf_Add mf) (mf_Reset mf (fc_inner w)) kvs = Inr (fc_inner w')" using s1 s2 f w0 3 by simp
    then have "mf_GetResult mf (fc_inner w') = spec kvs"
      using merge_all_spec [of "fc_inner w" kvs] by (simp add: merge_all_def)
    then show ?thesis using s1 s2 f w0 3 by (auto simp: top_record_def split: if_splits)
  qed (use assms(2) in \<open>auto simp: FullChangelog_Add_def FullChangelog_Reset_def\<close>)
  then show "fc_initialized w' \<longleftrightarrow> 2 \<le> length kvs"
    "length kvs < 2 \<Longrightarrow> fc_initial_kv w' = (case kvs of [] \<Rightarrow> None | kv # _ \<Rightarrow> Some kv)"
    "2 \<le> length kvs \<Longrightarrow> mf_GetResult mf (fc_inner w') = spec kvs \<and>
       top_level_kv w' = map_option (\<lambda>kv. kv\<lparr>kv_level := UNKNOWN_LEVEL\<rparr>) (top_record max_level kvs)" by blast+
qed

lemma full_changelog_correct:
  assumes clone: "\<And>v. clone v = Inr v"
    and run: "full_changelog_all mf max_level clone value_equalizer w kvs = Inr (cr, w')"
    and top: "\<And>kv. top_record max_level kvs = Some kv \<Longrightarrow> IsAdd (value_kind kv)"
  shows "\<exists>merged. reducer_spec spec kvs = Inr merged \<and> cl_result cr = (if is_add merged then merged else None) \<and>
    describes value_equalizer (top_record max_level kvs) (changelogs cr) merged"
proof -
  obtain v where fold: "rfold (FullChangelog_Add mf max_level clone) (FullChangelog_Reset mf w) kvs = Inr v"
    and get: "FullChangelog_GetResult mf max_level clone value_equalizer v = Inr (cr, w')"
    using run by (auto simp: full_changelog_all_def result_simps)
  note st = full_changelog_state [OF clone fold]
  obtain merged cl where m: "(if fc_initialized v then mf_GetResult mf (fc_inner v) else Inr (fc_initial_kv v)) = Inr merged"
    and log: "full_changelog_records max_level clone value_equalizer v merged = Inr cl"
    and res: "cr = \<lparr>cl_result = (if is_add merged then merged else None), changelogs = cl\<rparr>"
    using get by (auto simp: FullChangelog_GetResult_def result_simps)
  have spec: "reducer_spec spec kvs = Inr merged"
    using m st by (cases kvs; cases "tl kvs") (auto split: if_splits)
  have "describes value_equalizer (top_record max_level kvs) cl merged"
  proof (cases "2 \<le> length kvs")
    case True
    then have "fc_initialized v" "top_level_kv v = map_option (\<lambda>kv. kv\<lparr>kv_level := UNKNOWN_LEVEL\<rparr>) (top_record max_level kvs)"
      using st by auto
    then show ?thesis
      using log top CloneKeyValue_copy [OF clone] by (cases "top_record max_level kvs"; cases merged)
        (auto simp: full_changelog_records_def changelog_defs split: if_splits option.splits)
  next
    case False
    then have v: "\<not> fc_initialized v" "merged = (case kvs of [] \<Rightarrow> None | kv # _ \<Rightarrow> Some kv)" using st m by auto
    show ?thesis
    proof (cases kvs)
      case Nil
      then show ?thesis using log v by (simp add: full_changelog_records_def changelog_defs top_record_def)
    next
      case (Cons kv rest)
      then have "rest = []" "merged = Some kv" using False v by (cases rest; simp)+
      then show ?thesis
        using log v(1) CloneKeyValue_copy [OF clone] Cons
        by (auto simp: full_changelog_records_def changelog_defs top_record_def split: if_splits)
    qed
  qed
  then show ?thesis using spec res by simp
qed

end

section \<open>Properties\<close>

text \<open>
  C17. For any merge function that meets the contract of the interface, the reducer wrapper returns the
  merged record for two or more records of a key and the record itself for one, and leaves a state
  that is reset, so that records of one key never reach the next.
\<close>

theorem reducer_wrapper_correct:
  assumes "merge_function mf spec" "reducer_all mf w kvs = Inr (r, w')"
  shows "reducer_spec spec kvs = Inr r \<and> (\<exists>v. w' = Reducer_Reset mf v) \<and>
    rbind (reducer_all mf w' others) (\<lambda>(r, _). Inr r) = reducer_spec spec others"
  using merge_function.reducer_all_spec [OF assms(1), of w kvs] merge_function.reducer_all_reset [OF assms]
    merge_function.reducer_all_spec [OF assms(1), of w' others] assms(2) by simp

definition example_kv :: "RowKind \<Rightarrow> int \<Rightarrow> int \<Rightarrow> row \<Rightarrow> key_value" where
  "example_kv kind sequence l v = \<lparr>value_kind = kind, sequence_number = sequence, kv_level = l, kv_key = [VInt 7], kv_value = v\<rparr>"

lemma example_kv_simps [simp]:
  "value_kind (example_kv kind sequence l v) = kind" "sequence_number (example_kv kind sequence l v) = sequence"
  "kv_level (example_kv kind sequence l v) = l" "kv_key (example_kv kind sequence l v) = [VInt 7]"
  "kv_value (example_kv kind sequence l v) = v"
  by (simp_all add: example_kv_def)

theorem reducer_wrapper_correct_witness:
  "\<exists>w'. reducer_all (DeduplicateMergeFunction False) \<lparr>red_inner = None, initial_kv = None, is_initialized = False\<rparr>
       [example_kv INSERT 1 0 [VInt 1], example_kv DELETE 2 0 [VInt 2]] = Inr (Some (example_kv DELETE 2 0 [VInt 2]), w') \<and>
     (\<exists>v. w' = Reducer_Reset (DeduplicateMergeFunction False) v)"
proof -
  let ?kvs = "[example_kv INSERT 1 0 [VInt 1], example_kv DELETE 2 0 [VInt 2]]"
  obtain r w' where r: "reducer_all (DeduplicateMergeFunction False) \<lparr>red_inner = None, initial_kv = None, is_initialized = False\<rparr> ?kvs = Inr (r, w')"
    by (simp add: reducer_all_def Reducer_Add_def Reducer_Merge_def Reducer_Reset_def Reducer_GetResult_def
        DeduplicateMergeFunction_def Deduplicate_Add_def)
  then show ?thesis
    using reducer_wrapper_correct [OF deduplicate.merge_function_axioms r] by (auto simp: deduplicate_spec_def)
qed

text \<open>
  C10. The changelog of a full compaction describes exactly what it does to a key: replayed on the value
  that was visible on the top level, every record finds the value it expects, and the outcome is the
  value of the merged record that is written (up to fields the value equalizer ignores). The top level
  record, where there is one, is not a retraction and a value is copied unchanged.
\<close>

theorem full_changelog_replay:
  assumes "merge_function mf spec" "\<forall>v. clone v = Inr v"
    "full_changelog_all mf max_level clone value_equalizer w kvs = Inr (cr, w')"
    "\<forall>kv. top_record max_level kvs = Some kv \<longrightarrow> IsAdd (value_kind kv)"
  shows "\<exists>merged st. reducer_spec spec kvs = Inr merged \<and> cl_result cr = (if is_add merged then merged else None) \<and>
    replay (visible (top_record max_level kvs)) (changelogs cr) = Some st \<and> same_value value_equalizer st (visible (cl_result cr))"
proof -
  obtain merged where m: "reducer_spec spec kvs = Inr merged" "cl_result cr = (if is_add merged then merged else None)"
    "describes value_equalizer (top_record max_level kvs) (changelogs cr) merged"
    using merge_function.full_changelog_correct [OF assms(1) _ assms(3)] assms(2,4) by blast
  moreover have "visible (cl_result cr) = visible merged" using m(2) by (simp add: visible_def is_add_def)
  ultimately show ?thesis by (auto simp: describes_def)
qed

theorem full_changelog_replay_witness:
  "\<exists>cr w'. full_changelog_all (DeduplicateMergeFunction False) 5 Inr None
       \<lparr>fc_inner = None, top_level_kv = None, fc_initial_kv = None, fc_initialized = False\<rparr>
       [example_kv INSERT 1 5 [VInt 1], example_kv UPDATE_AFTER 2 0 [VInt 2]] = Inr (cr, w') \<and>
     replay (Some [VInt 1]) (changelogs cr) = Some (Some [VInt 2])"
proof -
  let ?kvs = "[example_kv INSERT 1 5 [VInt 1], example_kv UPDATE_AFTER 2 0 [VInt 2]]"
  obtain cr w' where r: "full_changelog_all (DeduplicateMergeFunction False) 5 Inr None
       \<lparr>fc_inner = None, top_level_kv = None, fc_initial_kv = None, fc_initialized = False\<rparr> ?kvs = Inr (cr, w')"
    by (simp add: full_changelog_all_def FullChangelog_Add_def FullChangelog_Reset_def FullChangelog_GetResult_def
        full_changelog_merge_def RememberTopLevel_def CloneKeyValue_def full_changelog_records_def differs_def is_add_def
        DeduplicateMergeFunction_def Deduplicate_Add_def)
  then show ?thesis
    using full_changelog_replay [OF deduplicate.merge_function_axioms _ r]
    by (auto simp: deduplicate_spec_def top_record_def visible_def is_add_def same_value_def)
qed




end
