(* ===== verification/Sort_Merge.thy ===== *)
theory Sort_Merge
  imports Merge_Functions
begin

text \<open>
  \<open>SortMergeReaderWithMinHeap\<close>: several sorted readers merged by a min-heap of their next records; all
  records of one key go to the merge function wrapper, and its results are the records read. A reader
  is the list of its remaining batches, each of which can fail to be read. The object that owns a
  reader holds it: an element of the heap or of the polled elements, or the list of readers that need
  their next batch. The lemmas show that reading to the end gives the results of merging the groups of
  equal keys of all records, in order.
\<close>

section \<open>Readers and the heap\<close>

type_synonym kv_batches = "key_value list result list"

record element =
  el_kv :: key_value
  el_rest :: "key_value list"
  el_reader :: kv_batches

definition HeapSorter :: "row_compare \<Rightarrow> row_compare option \<Rightarrow> element \<Rightarrow> element \<Rightarrow> bool" where
  "HeapSorter key_cmp seq_cmp lhs rhs =
     (let r = key_cmp (kv_key (el_kv lhs)) (kv_key (el_kv rhs)) in
      if r \<noteq> 0 then r > 0
      else let s = (case seq_cmp of None \<Rightarrow> 0 | Some cmp \<Rightarrow> cmp (kv_value (el_kv lhs)) (kv_value (el_kv rhs))) in
        if s \<noteq> 0 then s > 0 else sequence_number (el_kv lhs) > sequence_number (el_kv rhs))"

text \<open>\<open>Element::Update\<close>: the next record of the batch, or none at its end.\<close>

fun Element_Update :: "element \<Rightarrow> element option" where
  "Element_Update e = (case el_rest e of [] \<Rightarrow> None | kv # kvs \<Rightarrow> Some (e\<lparr>el_kv := kv, el_rest := kvs\<rparr>))"

text \<open>The merge function wrapper, a record of its operations over its state.\<close>

record 'w wrapper_ops =
  w_Reset :: "'w \<Rightarrow> 'w"
  w_Add :: "'w \<Rightarrow> key_value \<Rightarrow> 'w result"
  w_GetResult :: "'w \<Rightarrow> (key_value option \<times> 'w) result"

definition ReducerMergeFunctionWrapper :: "'s merge_function_ops \<Rightarrow> 's reducer wrapper_ops" where
  "ReducerMergeFunctionWrapper mf = \<lparr>w_Reset = Reducer_Reset mf, w_Add = Reducer_Add mf, w_GetResult = Reducer_GetResult mf\<rparr>"

record 'w heap_reader =
  next_batch_readers :: "kv_batches list"
  min_heap :: "element list"
  polled :: "element list"
  wrapper :: 'w

definition SortMergeReaderWithMinHeap :: "kv_batches list \<Rightarrow> 'w \<Rightarrow> 'w heap_reader" where
  "SortMergeReaderWithMinHeap readers w = \<lparr>next_batch_readers = readers, min_heap = [], polled = [], wrapper = w\<rparr>"

section \<open>Reading\<close>

text \<open>The next batch of one reader that is not empty.\<close>

fun open_batch :: "kv_batches \<Rightarrow> element option result" where
  "open_batch [] = Inr None"
| "open_batch (Inl e # bs) = Inl e"
| "open_batch (Inr [] # bs) = open_batch bs"
| "open_batch (Inr (kv # kvs) # bs) = Inr (Some \<lparr>el_kv = kv, el_rest = kvs, el_reader = bs\<rparr>)"

definition push_reader :: "element list \<Rightarrow> kv_batches \<Rightarrow> element list result" where
  "push_reader heap bs = rbind (open_batch bs) (\<lambda>r. Inr (case r of None \<Rightarrow> heap | Some e \<Rightarrow> e # heap))"

definition NextBatch :: "'w heap_reader \<Rightarrow> (bool \<times> 'w heap_reader) result" where
  "NextBatch st = rbind (rfold push_reader (min_heap st) (next_batch_readers st)) (\<lambda>heap.
     Inr (heap \<noteq> [], st\<lparr>min_heap := heap, next_batch_readers := []\<rparr>))"

fun refill :: "element list \<Rightarrow> element list \<Rightarrow> kv_batches list \<Rightarrow> element list \<times> kv_batches list" where
  "refill [] heap readers = (heap, readers)"
| "refill (e # es) heap readers = (case Element_Update e of
     Some e' \<Rightarrow> refill es (e' # heap) readers
   | None \<Rightarrow> refill es heap (readers @ [el_reader e]))"

function poll_loop ::
  "'w wrapper_ops \<Rightarrow> row_compare \<Rightarrow> row_compare option \<Rightarrow> row \<Rightarrow> bool \<Rightarrow> 'w heap_reader \<Rightarrow> 'w heap_reader result" where
  "poll_loop ops key_cmp seq_cmp key is_first st =
     (case pq_pop (HeapSorter key_cmp seq_cmp) (min_heap st) of
        None \<Rightarrow> Inr st
      | Some (e, heap') \<Rightarrow>
          if \<not> is_first \<and> key_cmp key (kv_key (el_kv e)) \<noteq> 0 then Inr st
          else rbind (w_Add ops (wrapper st) (el_kv e)) (\<lambda>w.
            poll_loop ops key_cmp seq_cmp key False (st\<lparr>wrapper := w, polled := polled st @ [e], min_heap := heap'\<rparr>)))"
  by pat_completeness auto
termination by (relation "measure (\<lambda>(ops, kc, sc, key, b, st). length (min_heap st))") auto

declare poll_loop.simps [simp del]

text \<open>
  \<open>NextImpl\<close> returns whether a record or a group was polled; without a wrapper (\<open>None\<close>) the record is
  the result.
\<close>

definition NextImpl ::
  "'w wrapper_ops option \<Rightarrow> row_compare \<Rightarrow> row_compare option \<Rightarrow> 'w heap_reader \<Rightarrow>
   (bool \<times> key_value option \<times> 'w heap_reader) result" where
  "NextImpl merge key_cmp seq_cmp st =
     (let (heap, readers) = refill (polled st) (min_heap st) (next_batch_readers st);
          st1 = st\<lparr>min_heap := heap, next_batch_readers := readers, polled := []\<rparr> in
      if readers \<noteq> [] then Inr (False, None, st1)
      else case pq_pop (HeapSorter key_cmp seq_cmp) heap of
        None \<Rightarrow> Inl (Invalid ''Min heap is empty. This is a bug.'')
      | Some (e, heap') \<Rightarrow>
        (case merge of
           None \<Rightarrow> Inr (True, Some (el_kv e), st1\<lparr>polled := [e], min_heap := heap'\<rparr>)
         | Some ops \<Rightarrow>
             rbind (poll_loop ops key_cmp seq_cmp (kv_key (el_kv e)) True (st1\<lparr>wrapper := w_Reset ops (wrapper st1)\<rparr>))
               (\<lambda>st2. Inr (True, None, st2))))"

text \<open>
  \<open>HasNext\<close> loops until a group has a result; the first argument bounds the rounds, and \<open>None\<close> means the
  bound was too small. \<open>read_all\<close> is a caller that reads every batch to its end.
\<close>

fun HasNext ::
  "nat \<Rightarrow> 'w wrapper_ops option \<Rightarrow> row_compare \<Rightarrow> row_compare option \<Rightarrow> 'w heap_reader \<Rightarrow>
   (key_value option \<times> 'w heap_reader) result option" where
  "HasNext 0 merge key_cmp seq_cmp st = None"
| "HasNext (Suc n) merge key_cmp seq_cmp st =
     (case NextImpl merge key_cmp seq_cmp st of
        Inl e \<Rightarrow> Some (Inl e)
      | Inr (has_more, r, st1) \<Rightarrow>
        (case merge of
           None \<Rightarrow> Some (Inr (if has_more then r else None, st1))
         | Some ops \<Rightarrow>
             if \<not> has_more then Some (Inr (None, st1))
             else case w_GetResult ops (wrapper st1) of
               Inl e \<Rightarrow> Some (Inl e)
             | Inr (Some kv, w) \<Rightarrow> Some (Inr (Some kv, st1\<lparr>wrapper := w\<rparr>))
             | Inr (None, w) \<Rightarrow> HasNext n merge key_cmp seq_cmp (st1\<lparr>wrapper := w\<rparr>)))"

fun read_all ::
  "nat \<Rightarrow> 'w wrapper_ops option \<Rightarrow> row_compare \<Rightarrow> row_compare option \<Rightarrow> bool \<Rightarrow> 'w heap_reader \<Rightarrow>
   key_value list result option" where
  "read_all 0 merge key_cmp seq_cmp in_batch st = None"
| "read_all (Suc n) merge key_cmp seq_cmp in_batch st =
     (if \<not> in_batch then
        (case NextBatch st of
           Inl e \<Rightarrow> Some (Inl e)
         | Inr (False, st1) \<Rightarrow> Some (Inr [])
         | Inr (True, st1) \<Rightarrow> read_all n merge key_cmp seq_cmp True st1)
      else case HasNext n merge key_cmp seq_cmp st of
          None \<Rightarrow> None
        | Some (Inl e) \<Rightarrow> Some (Inl e)
        | Some (Inr (None, st1)) \<Rightarrow> read_all n merge key_cmp seq_cmp False st1
        | Some (Inr (Some kv, st1)) \<Rightarrow>
            map_option (\<lambda>r. rbind r (\<lambda>kvs. Inr (kv # kvs))) (read_all n merge key_cmp seq_cmp True st1))"

section \<open>The contracts\<close>

text \<open>
  The order of the records: by key, then by the user-defined sequence, then by sequence number. A
  wrapper computes a function of the records since its reset.
\<close>

locale merge_order = key_comparator key_cmp for key_cmp +
  fixes seq_cmp :: "row_compare option"
  assumes seq_comparison: "seq_cmp = Some cmp \<Longrightarrow> comparison cmp"

interpretation schema_merge: merge_order "FieldsComparator_CompareTo (schema_comparator types sort_idx asc)"
  "map_option (\<lambda>idx. FieldsComparator_CompareTo (schema_comparator value_types idx seq_asc)) seq_fields"
  for types sort_idx asc value_types seq_asc seq_fields
proof (intro merge_order.intro merge_order_axioms.intro schema_keys.key_comparator_axioms)
  fix cmp
  assume "map_option (\<lambda>idx. FieldsComparator_CompareTo (schema_comparator value_types idx seq_asc)) seq_fields = Some cmp"
  then show "comparison cmp" using key_order.comparison_axioms by (cases seq_fields) auto
qed

locale group_merge =
  fixes ops :: "'w wrapper_ops" and wspec :: "key_value list \<Rightarrow> key_value option result"
  assumes wrapper_run: "rbind (rbind (rfold (w_Add ops) (w_Reset ops w) kvs) (w_GetResult ops)) (\<lambda>(r, _). Inr r) = wspec kvs"

lemma reducer_group_merge:
  "merge_function mf spec \<Longrightarrow> group_merge (ReducerMergeFunctionWrapper mf) (reducer_spec spec)"
  using merge_function.reducer_all_spec [of mf spec]
  by unfold_locales (simp add: ReducerMergeFunctionWrapper_def reducer_all_def)

interpretation reduce_deduplicate: group_merge "ReducerMergeFunctionWrapper (DeduplicateMergeFunction b)"
  "reducer_spec (deduplicate_spec b)" for b
  by (rule reducer_group_merge [OF deduplicate.merge_function_axioms])

interpretation reduce_first_row: group_merge "ReducerMergeFunctionWrapper (FirstRowMergeFunction b)"
  "reducer_spec (first_row_spec b)" for b
  by (rule reducer_group_merge [OF first_row.merge_function_axioms])

definition kv_after :: "row_compare \<Rightarrow> row_compare option \<Rightarrow> key_value \<Rightarrow> key_value \<Rightarrow> bool" where
  "kv_after key_cmp seq_cmp a b =
     (let r = key_cmp (kv_key a) (kv_key b) in
      if r \<noteq> 0 then r > 0
      else let s = (case seq_cmp of None \<Rightarrow> 0 | Some cmp \<Rightarrow> cmp (kv_value a) (kv_value b)) in
        if s \<noteq> 0 then s > 0 else sequence_number a > sequence_number b)"

lemma HeapSorter_kv: "HeapSorter key_cmp seq_cmp a b = kv_after key_cmp seq_cmp (el_kv a) (el_kv b)"
  by (simp add: HeapSorter_def kv_after_def)

lemma mset_concat_map: "mset (concat (map f xs)) = (\<Sum>x \<in># mset xs. mset (f x))"
  by (induction xs) simp_all

lemma sorted_wrt_mono_in: "sorted_wrt P xs \<Longrightarrow> (\<And>a b. a \<in> set xs \<Longrightarrow> b \<in> set xs \<Longrightarrow> P a b \<Longrightarrow> Q a b) \<Longrightarrow> sorted_wrt Q xs"
  by (induction xs) auto

text \<open>What reading to the end yields: the records in groups of equal keys, in order.\<close>

definition key_groups :: "row_compare \<Rightarrow> row_compare option \<Rightarrow> key_value multiset \<Rightarrow> key_value list list \<Rightarrow> bool" where
  "key_groups key_cmp seq_cmp M gs \<longleftrightarrow> mset (concat gs) = M \<and> [] \<notin> set gs \<and>
     (\<forall>g \<in> set gs. sorted_wrt (\<lambda>a b. key_cmp (kv_key a) (kv_key b) = 0 \<and> \<not> kv_after key_cmp seq_cmp a b) g) \<and>
     sorted_wrt (\<lambda>g h. \<forall>a \<in> set g. \<forall>b \<in> set h. key_cmp (kv_key a) (kv_key b) < 0) gs"

lemma key_groups_Nil [simp]: "key_groups key_cmp seq_cmp {#} []"
  by (simp add: key_groups_def)

lemma key_groups_append:
  assumes "key_groups key_cmp seq_cmp M gs" "key_groups key_cmp seq_cmp N hs"
    "\<And>a b. a \<in># M \<Longrightarrow> b \<in># N \<Longrightarrow> key_cmp (kv_key a) (kv_key b) < 0"
  shows "key_groups key_cmp seq_cmp (M + N) (gs @ hs)"
proof -
  have "set (concat gs) = set_mset M" "set (concat hs) = set_mset N"
    using assms(1,2) unfolding key_groups_def by (metis set_mset_mset)+
  then have "\<forall>g \<in> set gs. \<forall>h \<in> set hs. \<forall>a \<in> set g. \<forall>b \<in> set h. key_cmp (kv_key a) (kv_key b) < 0"
    using assms(3) by (metis UN_I set_concat)
  then show ?thesis using assms(1,2) by (auto simp: key_groups_def sorted_wrt_append)
qed

context merge_order
begin

definition kv_cmp :: "key_value \<Rightarrow> key_value \<Rightarrow> int" where
  "kv_cmp a b = (if key_cmp (kv_key a) (kv_key b) = 0 then
       (if (case seq_cmp of None \<Rightarrow> 0 | Some cmp \<Rightarrow> cmp (kv_value a) (kv_value b)) = 0
        then cmp_of (sequence_number a) (sequence_number b)
        else (case seq_cmp of None \<Rightarrow> 0 | Some cmp \<Rightarrow> cmp (kv_value a) (kv_value b)))
     else key_cmp (kv_key a) (kv_key b))"

lemma kv_cmp_comparison: "comparison kv_cmp"
proof -
  have "comparison (\<lambda>a b. case seq_cmp of None \<Rightarrow> 0 | Some cmp \<Rightarrow> cmp (kv_value a) (kv_value b))"
  proof (cases seq_cmp)
    case None
    then show ?thesis by (simp add: comparison_const)
  next
    case (Some cmp)
    then show ?thesis using comparison.cmp_on [OF seq_comparison [OF Some], of kv_value] by simp
  qed
  from comparison.cmp_lexicographic [OF cmp_on [of kv_key] comparison.cmp_lexicographic [OF this linear.cmp_on [of sequence_number]]]
  show ?thesis by (simp add: kv_cmp_def [abs_def])
qed

lemma kv_after_cmp: "kv_after key_cmp seq_cmp a b \<longleftrightarrow> kv_cmp a b > 0"
  by (auto simp: kv_after_def kv_cmp_def Let_def cmp_simps)

lemma kv_after_strict_weak: "strict_weak (kv_after key_cmp seq_cmp)"
  using comparison.strict_weak_greater [OF kv_cmp_comparison] by (simp add: kv_after_cmp [abs_def])

lemma HeapSorter_strict_weak: "strict_weak (HeapSorter key_cmp seq_cmp)"
  using kv_after_strict_weak unfolding strict_weak_def HeapSorter_kv by blast

lemma not_after_key: "\<not> kv_after key_cmp seq_cmp a b \<Longrightarrow> key_cmp (kv_key a) (kv_key b) \<le> 0"
  by (auto simp: kv_after_def Let_def split: if_splits)

end

section \<open>Polling a group\<close>

text \<open>The elements the poll loop takes from the heap, without the merge function.\<close>

function poll_group :: "row_compare \<Rightarrow> row_compare option \<Rightarrow> row \<Rightarrow> bool \<Rightarrow> element list \<Rightarrow> element list \<times> element list" where
  "poll_group key_cmp seq_cmp key is_first heap =
     (case pq_pop (HeapSorter key_cmp seq_cmp) heap of
        None \<Rightarrow> ([], heap)
      | Some (e, heap') \<Rightarrow>
          if \<not> is_first \<and> key_cmp key (kv_key (el_kv e)) \<noteq> 0 then ([], heap)
          else map_prod (\<lambda>es. e # es) id (poll_group key_cmp seq_cmp key False heap'))"
  by pat_completeness auto
termination by (relation "measure (\<lambda>(kc, sc, key, b, heap). length heap)") auto

declare poll_group.simps [simp del]

lemma poll_loop_group:
  "poll_loop ops key_cmp seq_cmp key b st =
     (let (es, heap') = poll_group key_cmp seq_cmp key b (min_heap st) in
      rbind (rfold (w_Add ops) (wrapper st) (map el_kv es)) (\<lambda>w.
        Inr (st\<lparr>wrapper := w, polled := polled st @ es, min_heap := heap'\<rparr>)))"
proof (induction ops key_cmp seq_cmp key b st rule: poll_loop.induct)
  case (1 ops key_cmp seq_cmp key b st)
  let ?pop = "pq_pop (HeapSorter key_cmp seq_cmp) (min_heap st)"
  show ?case
  proof (cases ?pop)
    case None
    then show ?thesis unfolding poll_loop.simps [of ops key_cmp seq_cmp key b st] poll_group.simps [of key_cmp seq_cmp key b "min_heap st"] by simp
  next
    case (Some p)
    obtain e heap' where p: "p = (e, heap')" by fastforce
    obtain es h where g: "poll_group key_cmp seq_cmp key False heap' = (es, h)" by fastforce
    show ?thesis
    proof (cases "\<not> b \<and> key_cmp key (kv_key (el_kv e)) \<noteq> 0")
      case True
      then show ?thesis
        using Some p unfolding poll_loop.simps [of ops key_cmp seq_cmp key b st] poll_group.simps [of key_cmp seq_cmp key b "min_heap st"] by simp
    next
      case False
      have step: "poll_loop ops key_cmp seq_cmp key False (st\<lparr>wrapper := w, polled := polled st @ [e], min_heap := heap'\<rparr>) =
          rbind (rfold (w_Add ops) w (map el_kv es)) (\<lambda>w'. Inr (st\<lparr>wrapper := w', polled := polled st @ e # es, min_heap := h\<rparr>))"
        if "w_Add ops (wrapper st) (el_kv e) = Inr w" for w
        using 1 [OF Some p [symmetric] False that] g by simp
      have "poll_group key_cmp seq_cmp key b (min_heap st) = (e # es, h)"
        using Some p False g unfolding poll_group.simps [of key_cmp seq_cmp key b "min_heap st"] by auto
      moreover have "poll_loop ops key_cmp seq_cmp key b st = rbind (w_Add ops (wrapper st) (el_kv e)) (\<lambda>w.
          poll_loop ops key_cmp seq_cmp key False (st\<lparr>wrapper := w, polled := polled st @ [e], min_heap := heap'\<rparr>))"
        using Some p False unfolding poll_loop.simps [of ops key_cmp seq_cmp key b st] by auto
      ultimately show ?thesis using step by (cases "w_Add ops (wrapper st) (el_kv e)") simp_all
    qed
  qed
qed

context merge_order
begin

lemma pop_least:
  assumes "pq_pop (HeapSorter key_cmp seq_cmp) heap = Some (e, heap')" "x \<in> set heap"
  shows "\<not> kv_after key_cmp seq_cmp (el_kv e) (el_kv x)" "key_cmp (kv_key (el_kv e)) (kv_key (el_kv x)) \<le> 0"
  using strict_weak.pq_pop_max [OF HeapSorter_strict_weak assms] not_after_key by (simp_all add: HeapSorter_kv)

text \<open>A poll takes exactly the elements of the least key, in the order of the records.\<close>

lemma poll_group_spec:
  assumes "poll_group key_cmp seq_cmp key False heap = (es, heap')" "\<forall>x \<in> set heap. key_cmp key (kv_key (el_kv x)) \<le> 0"
  shows "mset heap = mset es + mset heap' \<and> (\<forall>e \<in> set es. key_cmp key (kv_key (el_kv e)) = 0) \<and>
    (\<forall>x \<in> set heap'. key_cmp key (kv_key (el_kv x)) < 0) \<and> sorted_wrt (\<lambda>a b. \<not> kv_after key_cmp seq_cmp (el_kv a) (el_kv b)) es"
  using assms
proof (induction heap arbitrary: es rule: measure_induct_rule [where f = length])
  case (less heap)
  show ?case
  proof (cases "pq_pop (HeapSorter key_cmp seq_cmp) heap")
    case None
    then show ?thesis using less.prems unfolding poll_group.simps [of key_cmp seq_cmp key False heap] by simp
  next
    case (Some p)
    obtain e h where p: "p = (e, h)" by fastforce
    have pop: "pq_pop (HeapSorter key_cmp seq_cmp) heap = Some (e, h)" using Some p by simp
    note least = pop_least [OF pop]
    have sets: "set heap = insert e (set h)" "mset heap = add_mset e (mset h)" using pq_pop_set [OF pop] pq_pop_mset [OF pop] by simp_all
    show ?thesis
    proof (cases "key_cmp key (kv_key (el_kv e)) = 0")
      case True
      then obtain es' where g: "poll_group key_cmp seq_cmp key False h = (es', heap')" "es = e # es'"
        using less.prems(1) Some p unfolding poll_group.simps [of key_cmp seq_cmp key False heap]
        by (cases "poll_group key_cmp seq_cmp key False h") auto
      have IH: "mset h = mset es' + mset heap'" "\<forall>e \<in> set es'. key_cmp key (kv_key (el_kv e)) = 0"
        "\<forall>x \<in> set heap'. key_cmp key (kv_key (el_kv x)) < 0" "sorted_wrt (\<lambda>a b. \<not> kv_after key_cmp seq_cmp (el_kv a) (el_kv b)) es'"
        using less.IH [OF _ g(1)] less.prems(2) sets(1) pq_pop_length [OF pop] by auto
      have "set es' \<subseteq> set heap" using IH(1) sets(1) by (metis Un_upper1 mset_append mset_eq_setD set_append subset_insertI2)
      then show ?thesis using IH g(2) sets(2) True least(1) by auto
    next
      case False
      then have r: "es = []" "heap' = heap"
        using less.prems(1) Some p unfolding poll_group.simps [of key_cmp seq_cmp key False heap] by simp_all
      have "key_cmp key (kv_key (el_kv e)) < 0" using False less.prems(2) sets(1) by (simp add: order_less_le)
      then have "\<forall>x \<in> set heap. key_cmp key (kv_key (el_kv x)) < 0" using least(2) cmp_trans_less by blast
      then show ?thesis using r by simp
    qed
  qed
qed

lemma poll_group_first:
  assumes "pq_pop (HeapSorter key_cmp seq_cmp) heap = Some (e, h)" "poll_group key_cmp seq_cmp (kv_key (el_kv e)) True heap = (es, heap')"
  shows "mset heap = mset es + mset heap' \<and> es \<noteq> [] \<and> (\<forall>x \<in> set es. key_cmp (kv_key (el_kv e)) (kv_key (el_kv x)) = 0) \<and>
    (\<forall>x \<in> set heap'. key_cmp (kv_key (el_kv e)) (kv_key (el_kv x)) < 0) \<and>
    sorted_wrt (\<lambda>a b. \<not> kv_after key_cmp seq_cmp (el_kv a) (el_kv b)) es"
proof -
  let ?key = "kv_key (el_kv e)"
  note least = pop_least [OF assms(1)]
  have sets: "set heap = insert e (set h)" "mset heap = add_mset e (mset h)"
    using pq_pop_set [OF assms(1)] pq_pop_mset [OF assms(1)] by simp_all
  obtain es' where g: "poll_group key_cmp seq_cmp ?key False h = (es', heap')" "es = e # es'"
    using assms unfolding poll_group.simps [of key_cmp seq_cmp ?key True heap]
    by (cases "poll_group key_cmp seq_cmp ?key False h") auto
  have IH: "mset h = mset es' + mset heap'" "\<forall>x \<in> set es'. key_cmp ?key (kv_key (el_kv x)) = 0"
    "\<forall>x \<in> set heap'. key_cmp ?key (kv_key (el_kv x)) < 0" "sorted_wrt (\<lambda>a b. \<not> kv_after key_cmp seq_cmp (el_kv a) (el_kv b)) es'"
    using poll_group_spec [OF g(1)] least(2) sets(1) by auto
  have "set es' \<subseteq> set heap" using IH(1) sets(1) by (metis Un_upper1 mset_append mset_eq_setD set_append subset_insertI2)
  then show ?thesis using IH g(2) sets(2) least(1) by auto
qed

end

section \<open>Unread records\<close>

definition batch_records :: "kv_batches \<Rightarrow> key_value list" where
  "batch_records bs = concat (map (\<lambda>b. case b of Inl _ \<Rightarrow> [] | Inr kvs \<Rightarrow> kvs) bs)"

definition readable :: "kv_batches \<Rightarrow> bool" where
  "readable bs \<longleftrightarrow> (\<forall>b \<in> set bs. is_ok b)"

definition heap_stream :: "element \<Rightarrow> key_value list" where
  "heap_stream e = el_kv e # el_rest e @ batch_records (el_reader e)"

definition polled_stream :: "element \<Rightarrow> key_value list" where
  "polled_stream e = el_rest e @ batch_records (el_reader e)"

definition streams :: "'w heap_reader \<Rightarrow> key_value list list" where
  "streams st = map heap_stream (min_heap st) @ map polled_stream (polled st) @ map batch_records (next_batch_readers st)"

definition state_readers :: "'w heap_reader \<Rightarrow> kv_batches list" where
  "state_readers st = map el_reader (min_heap st) @ map el_reader (polled st) @ next_batch_readers st"

text \<open>Every reader can be read and its unread records have increasing keys.\<close>

definition reader_ok :: "row_compare \<Rightarrow> 'w heap_reader \<Rightarrow> bool" where
  "reader_ok key_cmp st \<longleftrightarrow> (\<forall>s \<in> set (streams st). sorted_wrt (\<lambda>a b. key_cmp (kv_key a) (kv_key b) < 0) s) \<and>
     (\<forall>bs \<in> set (state_readers st). readable bs)"

definition unread :: "'w heap_reader \<Rightarrow> key_value multiset" where
  "unread st = mset (concat (streams st))"

text \<open>The bound of the loops: records count twice, so that opening a batch lowers it too.\<close>

definition reader_work :: "kv_batches list \<Rightarrow> nat" where
  "reader_work readers = (\<Sum>bs \<leftarrow> readers. length bs + 1)"

definition work :: "'w heap_reader \<Rightarrow> nat" where
  "work st = 2 * size (unread st) + reader_work (state_readers st)"

lemma open_batch_ok:
  assumes "readable bs"
  obtains r where "open_batch bs = Inr r"
    "case r of None \<Rightarrow> batch_records bs = []
     | Some e \<Rightarrow> heap_stream e = batch_records bs \<and> readable (el_reader e) \<and> length (el_reader e) < length bs"
  using assms
proof (induction bs arbitrary: thesis rule: open_batch.induct)
  case (3 bs)
  have "readable bs" using 3(3) by (simp add: readable_def)
  then obtain r where r: "open_batch bs = Inr r" "case r of None \<Rightarrow> batch_records bs = []
     | Some e \<Rightarrow> heap_stream e = batch_records bs \<and> readable (el_reader e) \<and> length (el_reader e) < length bs"
    using 3(1) by blast
  show ?case by (rule 3(2) [of r]) (use r in \<open>auto simp: batch_records_def split: option.splits\<close>)
next
  case (4 kv kvs bs)
  show ?case by (rule 4(1)) (use 4(2) in \<open>auto simp: batch_records_def heap_stream_def readable_def\<close>)
qed (auto simp: readable_def batch_records_def)

lemma push_readers_ok:
  assumes "\<forall>bs \<in> set readers. readable bs"
  shows "\<exists>heap'. rfold push_reader heap readers = Inr heap' \<and>
    mset (concat (map heap_stream heap')) = mset (concat (map heap_stream heap)) + mset (concat (map batch_records readers)) \<and>
    heap_stream ` set heap' \<subseteq> heap_stream ` set heap \<union> batch_records ` set readers \<and>
    (\<forall>e \<in> set heap'. e \<in> set heap \<or> readable (el_reader e)) \<and>
    reader_work (map el_reader heap') + length readers \<le> reader_work (map el_reader heap) + reader_work readers"
  using assms
proof (induction readers arbitrary: heap)
  case (Cons bs readers)
  obtain r where r: "open_batch bs = Inr r" "case r of None \<Rightarrow> batch_records bs = []
     | Some e \<Rightarrow> heap_stream e = batch_records bs \<and> readable (el_reader e) \<and> length (el_reader e) < length bs"
    using open_batch_ok [of bs] Cons.prems by auto
  define h where "h = (case r of None \<Rightarrow> heap | Some e \<Rightarrow> e # heap)"
  obtain heap' where h': "rfold push_reader h readers = Inr heap'"
    "mset (concat (map heap_stream heap')) = mset (concat (map heap_stream h)) + mset (concat (map batch_records readers))"
    "heap_stream ` set heap' \<subseteq> heap_stream ` set h \<union> batch_records ` set readers"
    "\<forall>e \<in> set heap'. e \<in> set h \<or> readable (el_reader e)"
    "reader_work (map el_reader heap') + length readers \<le> reader_work (map el_reader h) + reader_work readers"
    using Cons.IH [of h] Cons.prems by auto
  have "rfold push_reader heap (bs # readers) = Inr heap'" using r(1) h'(1) by (simp add: push_reader_def h_def)
  moreover have h: "mset (concat (map heap_stream h)) = mset (concat (map heap_stream heap)) + mset (batch_records bs)"
    "heap_stream ` set h \<subseteq> heap_stream ` set heap \<union> {batch_records bs}" "\<forall>e \<in> set h. e \<in> set heap \<or> readable (el_reader e)"
    "reader_work (map el_reader h) + 1 \<le> reader_work (map el_reader heap) + (length bs + 1)"
    using r(2) by (auto simp: h_def reader_work_def split: option.splits)
  moreover have "mset (concat (map heap_stream heap')) = mset (concat (map heap_stream heap)) + mset (concat (map batch_records (bs # readers)))"
    using h'(2) h(1) by simp
  moreover have "heap_stream ` set heap' \<subseteq> heap_stream ` set heap \<union> batch_records ` set (bs # readers)" using h'(3) h(2) by auto
  moreover have "\<forall>e \<in> set heap'. e \<in> set heap \<or> readable (el_reader e)" using h'(4) h(3) by blast
  moreover have "reader_work (map el_reader heap') + length (bs # readers) \<le> reader_work (map el_reader heap) + reader_work (bs # readers)"
  proof -
    have "reader_work (bs # readers) = length bs + 1 + reader_work readers" by (simp add: reader_work_def)
    then show ?thesis using h'(5) h(4) by simp
  qed
  ultimately show ?case by blast
qed simp

text \<open>A state in which a caller may ask for the next batch, and one in which it reads a batch.\<close>

definition between_batches :: "row_compare \<Rightarrow> 'w heap_reader \<Rightarrow> bool" where
  "between_batches key_cmp st \<longleftrightarrow> reader_ok key_cmp st \<and> polled st = [] \<and> (next_batch_readers st \<noteq> [] \<or> min_heap st = [])"

definition in_batch :: "row_compare \<Rightarrow> 'w heap_reader \<Rightarrow> bool" where
  "in_batch key_cmp st \<longleftrightarrow> reader_ok key_cmp st \<and> next_batch_readers st = [] \<and> (min_heap st \<noteq> [] \<or> polled st \<noteq> [])"

lemma NextBatch_ok:
  assumes "between_batches key_cmp st"
  obtains st' where "NextBatch st = Inr (min_heap st' \<noteq> [], st')" "unread st' = unread st"
    "min_heap st' = [] \<Longrightarrow> unread st = {#}" "min_heap st' \<noteq> [] \<Longrightarrow> in_batch key_cmp st' \<and> work st' < work st"
proof -
  have readable: "\<forall>bs \<in> set (next_batch_readers st). readable bs" and pol: "polled st = []"
    using assms by (auto simp: between_batches_def reader_ok_def state_readers_def)
  obtain h where h: "rfold push_reader (min_heap st) (next_batch_readers st) = Inr h"
    "mset (concat (map heap_stream h)) = mset (concat (map heap_stream (min_heap st))) + mset (concat (map batch_records (next_batch_readers st)))"
    "heap_stream ` set h \<subseteq> heap_stream ` set (min_heap st) \<union> batch_records ` set (next_batch_readers st)"
    "\<forall>e \<in> set h. e \<in> set (min_heap st) \<or> readable (el_reader e)"
    "reader_work (map el_reader h) + length (next_batch_readers st) \<le> reader_work (map el_reader (min_heap st)) + reader_work (next_batch_readers st)"
    using push_readers_ok [OF readable, of "min_heap st"] by blast
  define st' where "st' = st\<lparr>min_heap := h, next_batch_readers := []\<rparr>"
  have u: "unread st' = unread st" using h(2) pol by (simp add: unread_def streams_def st'_def)
  show thesis
  proof (rule that [of st'])
    show "NextBatch st = Inr (min_heap st' \<noteq> [], st')" using h(1) by (simp add: NextBatch_def st'_def)
    show "unread st' = unread st" by (fact u)
    show "unread st = {#}" if "min_heap st' = []" using that u pol by (simp add: unread_def streams_def st'_def)
    assume ne: "min_heap st' \<noteq> []"
    have "in_batch key_cmp st'"
      using assms h(3,4) ne pol by (fastforce simp: in_batch_def between_batches_def reader_ok_def streams_def state_readers_def st'_def)
    have "next_batch_readers st \<noteq> []" using assms ne h(1) by (auto simp: between_batches_def st'_def)
    then have "0 < length (next_batch_readers st)" by simp
    moreover have "work st' + length (next_batch_readers st) \<le> work st" using h(5) u pol
      by (simp add: work_def state_readers_def st'_def reader_work_def)
    ultimately have "work st' < work st" by linarith
    with \<open>in_batch key_cmp st'\<close> show "in_batch key_cmp st' \<and> work st' < work st" by simp
  qed
qed

lemma refill_ok:
  "refill es heap readers = (h, r) \<Longrightarrow>
     mset (concat (map heap_stream h)) + mset (concat (map batch_records r)) =
       mset (concat (map heap_stream heap)) + mset (concat (map polled_stream es)) + mset (concat (map batch_records readers)) \<and>
     heap_stream ` set h \<union> batch_records ` set r \<subseteq> heap_stream ` set heap \<union> polled_stream ` set es \<union> batch_records ` set readers \<and>
     el_reader ` set h \<union> set r \<subseteq> el_reader ` set heap \<union> el_reader ` set es \<union> set readers \<and>
     reader_work (map el_reader h) + reader_work r = reader_work (map el_reader heap) + reader_work (map el_reader es) + reader_work readers \<and>
     (es \<noteq> [] \<or> heap \<noteq> [] \<or> readers \<noteq> [] \<longrightarrow> h \<noteq> [] \<or> r \<noteq> [])"
proof (induction es heap readers rule: refill.induct)
  case (2 e es heap readers)
  show ?case
  proof (cases "el_rest e")
    case Nil
    then have s: "polled_stream e = batch_records (el_reader e)" by (simp add: polled_stream_def)
    have "refill es heap (readers @ [el_reader e]) = (h, r)" using 2(3) Nil by simp
    note IH = 2(1) [OF _ this]
    show ?thesis using IH Nil s by (auto simp: reader_work_def)
  next
    case (Cons kv kvs)
    let ?e = "e\<lparr>el_kv := kv, el_rest := kvs\<rparr>"
    have s: "heap_stream ?e = polled_stream e" using Cons by (simp add: polled_stream_def heap_stream_def)
    have "refill es (?e # heap) readers = (h, r)" using 2(3) Cons by simp
    note IH = 2(2) [OF _ this]
    show ?thesis using IH Cons s by (auto simp: reader_work_def)
  qed
qed (simp add: reader_work_def)

section \<open>Reading a batch\<close>

text \<open>\<open>emits st gs st'\<close>: reading from \<open>st\<close> to \<open>st'\<close> took the groups \<open>gs\<close>, which come before what is left.\<close>

definition emits :: "row_compare \<Rightarrow> row_compare option \<Rightarrow> 'w heap_reader \<Rightarrow> key_value list list \<Rightarrow> 'w heap_reader \<Rightarrow> bool" where
  "emits key_cmp seq_cmp st gs st' \<longleftrightarrow> (\<exists>M. unread st = M + unread st' \<and> key_groups key_cmp seq_cmp M gs \<and>
     (\<forall>a \<in># M. \<forall>b \<in># unread st'. key_cmp (kv_key a) (kv_key b) < 0))"

lemma emits_Nil: "unread st = unread st' \<Longrightarrow> emits key_cmp seq_cmp st [] st'"
  by (auto simp: emits_def intro: exI [of _ "{#}"])

lemma emits_append:
  assumes "emits key_cmp seq_cmp st gs st1" "emits key_cmp seq_cmp st1 hs st2"
  shows "emits key_cmp seq_cmp st (gs @ hs) st2"
proof -
  obtain M where M: "unread st = M + unread st1" "key_groups key_cmp seq_cmp M gs"
    "\<And>a b. a \<in># M \<Longrightarrow> b \<in># unread st1 \<Longrightarrow> key_cmp (kv_key a) (kv_key b) < 0"
    using assms(1) by (auto simp: emits_def)
  obtain N where N: "unread st1 = N + unread st2" "key_groups key_cmp seq_cmp N hs"
    "\<And>a b. a \<in># N \<Longrightarrow> b \<in># unread st2 \<Longrightarrow> key_cmp (kv_key a) (kv_key b) < 0"
    using assms(2) by (auto simp: emits_def)
  have "key_groups key_cmp seq_cmp (M + N) (gs @ hs)" by (rule key_groups_append [OF M(2) N(2)]) (use M(3) N(1) in auto)
  then show ?thesis unfolding emits_def using M N by (intro exI [of _ "M + N"]) auto
qed

definition refilled :: "'w heap_reader \<Rightarrow> 'w heap_reader" where
  "refilled st = (let (heap, readers) = refill (polled st) (min_heap st) (next_batch_readers st) in
     st\<lparr>min_heap := heap, next_batch_readers := readers, polled := []\<rparr>)"

lemma refilled_ok:
  assumes "in_batch key_cmp st"
  shows "unread (refilled st) = unread st" "work (refilled st) = work st" "reader_ok key_cmp (refilled st)"
    "polled (refilled st) = []" "wrapper (refilled st) = wrapper st"
    "next_batch_readers (refilled st) = [] \<Longrightarrow> min_heap (refilled st) \<noteq> []"
proof -
  obtain h r where hr: "refill (polled st) (min_heap st) (next_batch_readers st) = (h, r)" by fastforce
  have st': "refilled st = st\<lparr>min_heap := h, next_batch_readers := r, polled := []\<rparr>" using hr by (simp add: refilled_def)
  note ok = refill_ok [OF hr]
  show u: "unread (refilled st) = unread st" using ok by (simp add: st' unread_def streams_def ac_simps)
  show "work (refilled st) = work st"
    using ok u by (simp add: work_def st' state_readers_def reader_work_def)
  show "polled (refilled st) = []" "wrapper (refilled st) = wrapper st" by (simp_all add: st')
  show "min_heap (refilled st) \<noteq> []" if "next_batch_readers (refilled st) = []"
    using ok that assms by (auto simp: st' in_batch_def)
  have "set (streams (refilled st)) \<subseteq> set (streams st)" "set (state_readers (refilled st)) \<subseteq> set (state_readers st)"
    using ok by (auto simp: st' streams_def state_readers_def)
  then show "reader_ok key_cmp (refilled st)" using assms by (auto simp: in_batch_def reader_ok_def)
qed

context merge_order
begin

text \<open>A round of a reader with a full heap polls the group of the least key.\<close>

lemma poll_round:
  assumes "reader_ok key_cmp st" "polled st = []" "next_batch_readers st = []" "min_heap st \<noteq> []"
  obtains e heap' es h where "pq_pop (HeapSorter key_cmp seq_cmp) (min_heap st) = Some (e, heap')"
    "poll_group key_cmp seq_cmp (kv_key (el_kv e)) True (min_heap st) = (es, h)"
    "\<And>w. emits key_cmp seq_cmp st [map el_kv es] (st\<lparr>wrapper := w, polled := es, min_heap := h\<rparr>) \<and>
       in_batch key_cmp (st\<lparr>wrapper := w, polled := es, min_heap := h\<rparr>) \<and>
       work (st\<lparr>wrapper := w, polled := es, min_heap := h\<rparr>) < work st \<and>
       size (unread (st\<lparr>wrapper := w, polled := es, min_heap := h\<rparr>)) < size (unread st)"
proof -
  obtain e heap' where pop: "pq_pop (HeapSorter key_cmp seq_cmp) (min_heap st) = Some (e, heap')"
    using assms(4) by (cases "pq_pop (HeapSorter key_cmp seq_cmp) (min_heap st)") auto
  obtain es h where g: "poll_group key_cmp seq_cmp (kv_key (el_kv e)) True (min_heap st) = (es, h)" by fastforce
  let ?k = "kv_key (el_kv e)"
  have spec: "mset (min_heap st) = mset es + mset h" "es \<noteq> []" "\<And>x. x \<in> set es \<Longrightarrow> key_cmp ?k (kv_key (el_kv x)) = 0"
    "\<And>x. x \<in> set h \<Longrightarrow> key_cmp ?k (kv_key (el_kv x)) < 0" "sorted_wrt (\<lambda>a b. \<not> kv_after key_cmp seq_cmp (el_kv a) (el_kv b)) es"
    using poll_group_first [OF pop g] by blast+
  have heap: "set (min_heap st) = set es \<union> set h" using spec(1) by (metis mset_append mset_eq_setD set_append)
  have sorted: "\<And>x. x \<in> set (min_heap st) \<Longrightarrow> sorted_wrt (\<lambda>a b. key_cmp (kv_key a) (kv_key b) < 0) (heap_stream x)"
    using assms(1) by (auto simp: reader_ok_def streams_def)
  have msum: "mset (concat (map f (min_heap st))) = mset (concat (map f es)) + mset (concat (map f h))" for f :: "element \<Rightarrow> key_value list"
    using spec(1) by (simp add: mset_concat_map)
  have cons: "mset (concat (map heap_stream es)) = mset (map el_kv es) + mset (concat (map polled_stream es))"
    by (induction es) (simp_all add: heap_stream_def polled_stream_def)
  have group: "key_groups key_cmp seq_cmp (mset (map el_kv es)) [map el_kv es]"
  proof -
    have "sorted_wrt (\<lambda>a b. key_cmp (kv_key (el_kv a)) (kv_key (el_kv b)) = 0 \<and> \<not> kv_after key_cmp seq_cmp (el_kv a) (el_kv b)) es"
      using spec(3,5) cmp_eq_trans cmp_eq_sym by (intro sorted_wrt_mono_in [OF spec(5)]) blast
    then show ?thesis using spec(2) by (simp add: key_groups_def sorted_wrt_map)
  qed
  have later: "key_cmp (kv_key a) (kv_key b) < 0"
    if "a \<in> set (map el_kv es)" "b \<in> set (concat (map polled_stream es)) \<union> set (concat (map heap_stream h))" for a b
  proof -
    have ka: "key_cmp (kv_key a) ?k = 0" using that(1) spec(3) cmp_eq_sym by auto
    have "key_cmp ?k (kv_key b) < 0"
      using that(2)
    proof
      assume "b \<in> set (concat (map polled_stream es))"
      then obtain x where x: "x \<in> set es" "b \<in> set (polled_stream x)" by auto
      then have "key_cmp (kv_key (el_kv x)) (kv_key b) < 0"
        using sorted [of x] heap by (auto simp: heap_stream_def polled_stream_def)
      then show ?thesis using spec(3) [OF x(1)] cmp_le_trans_less by (metis order_refl)
    next
      assume "b \<in> set (concat (map heap_stream h))"
      then obtain x where x: "x \<in> set h" "b = el_kv x \<or> b \<in> set (polled_stream x)" by (auto simp: heap_stream_def polled_stream_def)
      then have "b = el_kv x \<or> key_cmp (kv_key (el_kv x)) (kv_key b) < 0"
        using sorted [of x] heap by (auto simp: heap_stream_def polled_stream_def)
      then show ?thesis using spec(4) [OF x(1)] cmp_trans_less by (metis order_less_imp_le)
    qed
    then show ?thesis using ka cmp_le_trans_less by (metis order_refl)
  qed
  show thesis
  proof (rule that [OF pop g])
    fix w
    let ?st = "st\<lparr>wrapper := w, polled := es, min_heap := h\<rparr>"
    have u: "unread st = mset (map el_kv es) + unread ?st"
      using msum [of heap_stream] cons assms(2,3) by (simp add: unread_def streams_def)
    have u': "set_mset (unread ?st) = set (concat (map polled_stream es)) \<union> set (concat (map heap_stream h))"
      using assms(3) by (auto simp: unread_def streams_def)
    have "emits key_cmp seq_cmp st [map el_kv es] ?st"
      unfolding emits_def using u group later u' by (intro exI [of _ "mset (map el_kv es)"]) simp
    moreover have "in_batch key_cmp ?st"
    proof -
      have "sorted_wrt (\<lambda>a b. key_cmp (kv_key a) (kv_key b) < 0) (polled_stream x)" if "x \<in> set es" for x
        using sorted [of x] heap that by (simp add: heap_stream_def polled_stream_def)
      then show ?thesis
        using assms(1,3) heap spec(2) sorted by (auto simp: in_batch_def reader_ok_def streams_def state_readers_def)
    qed
    moreover have "size (unread ?st) < size (unread st)" using u spec(2) by simp
    moreover have "reader_work (map el_reader (min_heap st)) = reader_work (map el_reader es) + reader_work (map el_reader h)"
    proof -
      have rw: "reader_work (map el_reader xs) = (\<Sum>x \<in># mset xs. length (el_reader x) + 1)" for xs
        by (induction xs) (simp_all add: reader_work_def)
      show ?thesis unfolding rw spec(1) by simp
    qed
    then have "work ?st < work st" using \<open>size (unread ?st) < size (unread st)\<close> assms(2,3)
      by (simp add: work_def state_readers_def reader_work_def)
    ultimately show "emits key_cmp seq_cmp st [map el_kv es] ?st \<and> in_batch key_cmp ?st \<and> work ?st < work st \<and>
      size (unread ?st) < size (unread st)" by simp
  qed
qed

end

section \<open>Reading to the end\<close>

text \<open>The records the groups merge to, up to the first error.\<close>

definition merged_records ::
  "(key_value list \<Rightarrow> key_value option result) \<Rightarrow> key_value list list \<Rightarrow> key_value list result" where
  "merged_records wspec gs = rbind (rmap wspec gs) (\<lambda>rs. Inr (map the (filter (\<lambda>r. r \<noteq> None) rs)))"

lemma merged_records_simps [simp]:
  "merged_records wspec [] = Inr []"
  "merged_records wspec (g # gs) = rbind (wspec g) (\<lambda>r. rbind (merged_records wspec gs) (\<lambda>kvs.
     Inr (case r of None \<Rightarrow> kvs | Some kv \<Rightarrow> kv # kvs)))"
  by (cases "wspec g"; cases "rmap wspec gs"; auto simp: merged_records_def split: option.splits)+

lemma merged_records_append:
  "merged_records wspec (gs @ hs) = rbind (merged_records wspec gs) (\<lambda>a. rbind (merged_records wspec hs) (\<lambda>b. Inr (a @ b)))"
proof (induction gs)
  case (Cons g gs)
  then show ?case by (cases "wspec g"; cases "merged_records wspec gs"; cases "merged_records wspec hs") (auto split: option.splits)
qed simp

locale sort_merge = merge_order key_cmp seq_cmp + group_merge ops wspec
  for key_cmp and seq_cmp and ops :: "'w wrapper_ops" and wspec
begin

text \<open>
  One call of \<open>HasNext\<close> with enough rounds: it fails as the merge of the groups it takes fails, finds the
  end of a batch, or returns the first record the groups merge to.
\<close>

lemma NextImpl_round:
  assumes "in_batch key_cmp st"
  shows "next_batch_readers (refilled st) \<noteq> [] \<Longrightarrow> NextImpl (Some ops) key_cmp seq_cmp st = Inr (False, None, refilled st)"
    "next_batch_readers (refilled st) = [] \<Longrightarrow> \<exists>g st2. (\<forall>w. emits key_cmp seq_cmp st [g] (st2\<lparr>wrapper := w\<rparr>) \<and>
       in_batch key_cmp (st2\<lparr>wrapper := w\<rparr>) \<and> work (st2\<lparr>wrapper := w\<rparr>) < work st \<and> size (unread (st2\<lparr>wrapper := w\<rparr>)) < size (unread st)) \<and>
       NextImpl (Some ops) key_cmp seq_cmp st = rbind (rfold (w_Add ops) (w_Reset ops (wrapper st)) g)
         (\<lambda>w. Inr (True, None, st2\<lparr>wrapper := w\<rparr>))"
proof -
  obtain h0 r0 where hr: "refill (polled st) (min_heap st) (next_batch_readers st) = (h0, r0)" by fastforce
  note ok = refilled_ok [OF assms]
  have st1: "refilled st = st\<lparr>min_heap := h0, next_batch_readers := r0, polled := []\<rparr>" using hr by (simp add: refilled_def)
  show "NextImpl (Some ops) key_cmp seq_cmp st = Inr (False, None, refilled st)" if "next_batch_readers (refilled st) \<noteq> []"
    using that hr st1 by (simp add: NextImpl_def)
  assume none: "next_batch_readers (refilled st) = []"
  obtain e heap' es h where pop: "pq_pop (HeapSorter key_cmp seq_cmp) (min_heap (refilled st)) = Some (e, heap')"
    and g: "poll_group key_cmp seq_cmp (kv_key (el_kv e)) True (min_heap (refilled st)) = (es, h)"
    and round: "\<And>w. emits key_cmp seq_cmp (refilled st) [map el_kv es] ((refilled st)\<lparr>wrapper := w, polled := es, min_heap := h\<rparr>) \<and>
       in_batch key_cmp ((refilled st)\<lparr>wrapper := w, polled := es, min_heap := h\<rparr>) \<and>
       work ((refilled st)\<lparr>wrapper := w, polled := es, min_heap := h\<rparr>) < work (refilled st) \<and>
       size (unread ((refilled st)\<lparr>wrapper := w, polled := es, min_heap := h\<rparr>)) < size (unread (refilled st))"
    using poll_round [OF ok(3,4) none ok(6) [OF none]] by blast
  let ?st2 = "(refilled st)\<lparr>polled := es, min_heap := h\<rparr>"
  have upd: "?st2\<lparr>wrapper := w\<rparr> = (refilled st)\<lparr>wrapper := w, polled := es, min_heap := h\<rparr>" for w by simp
  have "NextImpl (Some ops) key_cmp seq_cmp st = rbind (rfold (w_Add ops) (w_Reset ops (wrapper st)) (map el_kv es))
      (\<lambda>w. Inr (True, None, ?st2\<lparr>wrapper := w\<rparr>))"
    unfolding upd using none pop g hr st1 by (simp add: NextImpl_def poll_loop_group rbind_assoc)
  moreover have "emits key_cmp seq_cmp st [map el_kv es] (?st2\<lparr>wrapper := w\<rparr>)" for w
    unfolding upd using emits_append [OF emits_Nil [of st "refilled st"], of key_cmp seq_cmp "[map el_kv es]"] round [of w] ok(1) by simp
  ultimately show "\<exists>g st2. (\<forall>w. emits key_cmp seq_cmp st [g] (st2\<lparr>wrapper := w\<rparr>) \<and>
       in_batch key_cmp (st2\<lparr>wrapper := w\<rparr>) \<and> work (st2\<lparr>wrapper := w\<rparr>) < work st \<and> size (unread (st2\<lparr>wrapper := w\<rparr>)) < size (unread st)) \<and>
       NextImpl (Some ops) key_cmp seq_cmp st = rbind (rfold (w_Add ops) (w_Reset ops (wrapper st)) g)
         (\<lambda>w. Inr (True, None, st2\<lparr>wrapper := w\<rparr>))"
    unfolding upd using round ok(1,2) by (intro exI [of _ "map el_kv es"] exI [of _ ?st2]) (simp add: upd)
qed

lemma HasNext_ok:
  assumes "in_batch key_cmp st" "size (unread st) < n"
  shows "(\<exists>gs st1. emits key_cmp seq_cmp st gs st1 \<and> between_batches key_cmp st1 \<and> work st1 \<le> work st \<and> merged_records wspec gs = Inr [] \<and>
        HasNext n (Some ops) key_cmp seq_cmp st = Some (Inr (None, st1)))
    \<or> (\<exists>gs st1 kv. emits key_cmp seq_cmp st gs st1 \<and> in_batch key_cmp st1 \<and> work st1 < work st \<and> merged_records wspec gs = Inr [kv] \<and>
        HasNext n (Some ops) key_cmp seq_cmp st = Some (Inr (Some kv, st1)))
    \<or> (\<exists>gs st1 e. emits key_cmp seq_cmp st gs st1 \<and> reader_ok key_cmp st1 \<and> merged_records wspec gs = Inl e \<and>
        HasNext n (Some ops) key_cmp seq_cmp st = Some (Inl e))"
  using assms
proof (induction n arbitrary: st)
  case (Suc n)
  show ?case
  proof (cases "next_batch_readers (refilled st) = []")
    case False
    note ok = refilled_ok [OF Suc.prems(1)]
    have "HasNext (Suc n) (Some ops) key_cmp seq_cmp st = Some (Inr (None, refilled st))"
      using NextImpl_round(1) [OF Suc.prems(1) False] by simp
    moreover have "between_batches key_cmp (refilled st)" using ok(3,4) False by (simp add: between_batches_def)
    ultimately show ?thesis using emits_Nil [OF ok(1) [symmetric]] ok(2) by (metis order_refl merged_records_simps(1))
  next
    case True
    obtain g st2 where st2: "\<And>w. emits key_cmp seq_cmp st [g] (st2\<lparr>wrapper := w\<rparr>)" "\<And>w. in_batch key_cmp (st2\<lparr>wrapper := w\<rparr>)"
      "\<And>w. work (st2\<lparr>wrapper := w\<rparr>) < work st" "\<And>w. size (unread (st2\<lparr>wrapper := w\<rparr>)) < size (unread st)"
      and impl: "NextImpl (Some ops) key_cmp seq_cmp st = rbind (rfold (w_Add ops) (w_Reset ops (wrapper st)) g)
         (\<lambda>w. Inr (True, None, st2\<lparr>wrapper := w\<rparr>))"
      using NextImpl_round(2) [OF Suc.prems(1) True] by blast
    have ok2: "reader_ok key_cmp (st2\<lparr>wrapper := w\<rparr>)" for w using st2(2) by (simp add: in_batch_def)
    note run = wrapper_run [of "wrapper st" g, symmetric]
    show ?thesis
    proof (cases "rfold (w_Add ops) (w_Reset ops (wrapper st)) g")
      case (Inl e)
      then have "HasNext (Suc n) (Some ops) key_cmp seq_cmp st = Some (Inl e)" "merged_records wspec [g] = Inl e" using impl run by simp_all
      then show ?thesis using st2(1) ok2 by blast
    next
      case (Inr w)
      show ?thesis
      proof (cases "w_GetResult ops w")
        case (Inl e)
        then have "HasNext (Suc n) (Some ops) key_cmp seq_cmp st = Some (Inl e)" "merged_records wspec [g] = Inl e"
          using impl run Inr by simp_all
        then show ?thesis using st2(1) ok2 by blast
      next
        case (Inr p)
        obtain r w' where p: "p = (r, w')" by fastforce
        have spec: "wspec g = Inr r" using run \<open>rfold _ _ _ = Inr w\<close> Inr p by simp
        have upd: "st2\<lparr>wrapper := w, wrapper := w'\<rparr> = st2\<lparr>wrapper := w'\<rparr>" by simp
        show ?thesis
        proof (cases r)
          case (Some kv)
          then have "HasNext (Suc n) (Some ops) key_cmp seq_cmp st = Some (Inr (Some kv, st2\<lparr>wrapper := w'\<rparr>))" "merged_records wspec [g] = Inr [kv]"
            using impl \<open>rfold _ _ _ = Inr w\<close> Inr p spec by simp_all
          then show ?thesis using st2 by blast
        next
          case None
          let ?s = "st2\<lparr>wrapper := w'\<rparr>"
          have step: "HasNext (Suc n) (Some ops) key_cmp seq_cmp st = HasNext n (Some ops) key_cmp seq_cmp ?s"
            using impl \<open>rfold _ _ _ = Inr w\<close> Inr p None by simp
          have res: "merged_records wspec ([g] @ gs) = merged_records wspec gs" for gs using spec None by (simp add: rbind_assoc)
          have sz: "size (unread ?s) < n" using st2(4) [of w'] Suc.prems(2) by linarith
          have w: "work ?s < work st" by (rule st2(3))
          note app = emits_append [OF st2(1) [of w']]
          from Suc.IH [OF st2(2) sz] consider
              (a) gs st1 where "emits key_cmp seq_cmp ?s gs st1" "between_batches key_cmp st1" "work st1 \<le> work ?s" "merged_records wspec gs = Inr []"
                "HasNext n (Some ops) key_cmp seq_cmp ?s = Some (Inr (None, st1))"
            | (b) gs st1 kv where "emits key_cmp seq_cmp ?s gs st1" "in_batch key_cmp st1" "work st1 < work ?s" "merged_records wspec gs = Inr [kv]"
                "HasNext n (Some ops) key_cmp seq_cmp ?s = Some (Inr (Some kv, st1))"
            | (c) gs st1 e where "emits key_cmp seq_cmp ?s gs st1" "reader_ok key_cmp st1" "merged_records wspec gs = Inl e"
                "HasNext n (Some ops) key_cmp seq_cmp ?s = Some (Inl e)"
            by blast
          then show ?thesis
          proof cases
            case a
            then show ?thesis using app [OF a(1)] res [of gs] step w by (intro disjI1 exI [of _ "[g] @ gs"] exI [of _ st1]) simp
          next
            case b
            then show ?thesis using app [OF b(1)] res [of gs] step w
              by (intro disjI2 disjI1 exI [of _ "[g] @ gs"] exI [of _ st1] exI [of _ kv]) simp
          next
            case c
            then show ?thesis using app [OF c(1)] res [of gs] step
              by (intro disjI2 exI [of _ "[g] @ gs"] exI [of _ st1] exI [of _ e]) simp
          qed
        qed
      qed
    qed
  qed
qed simp

lemma key_groups_of_emits:
  assumes "emits key_cmp seq_cmp st gs st1" "key_groups key_cmp seq_cmp (unread st1) hs"
  shows "key_groups key_cmp seq_cmp (unread st) (gs @ hs)"
proof -
  obtain M where M: "unread st = M + unread st1" "key_groups key_cmp seq_cmp M gs"
    "\<And>a b. a \<in># M \<Longrightarrow> b \<in># unread st1 \<Longrightarrow> key_cmp (kv_key a) (kv_key b) < 0"
    using assms(1) by (auto simp: emits_def)
  show ?thesis using key_groups_append [OF M(2) assms(2) M(3)] M(1) by simp
qed

text \<open>Every multiset of records has its groups, so an error in the middle is one of the whole.\<close>

lemma key_groups_exist: "\<exists>gs. key_groups key_cmp seq_cmp M gs"
proof (induction "size M" arbitrary: M rule: less_induct)
  case less
  show ?case
  proof (cases "M = {#}")
    case True
    then show ?thesis using key_groups_Nil by blast
  next
    case False
    obtain xs where xs: "mset xs = M" by (metis ex_mset)
    let ?s = "stable_sort (\<lambda>a b. kv_after key_cmp seq_cmp b a) xs"
    have sw: "strict_weak (\<lambda>a b. kv_after key_cmp seq_cmp b a)"
      using kv_after_strict_weak unfolding strict_weak_def by blast
    have sorted: "sorted_wrt (\<lambda>a b. \<not> kv_after key_cmp seq_cmp a b) ?s" by (rule strict_weak.sorted_stable_sort [OF sw])
    obtain x rest where s: "?s = x # rest" using False xs by (cases ?s) (auto dest: arg_cong [of _ _ mset])
    let ?eq = "\<lambda>y. key_cmp (kv_key x) (kv_key y) = 0"
    define N where "N = filter_mset (\<lambda>y. \<not> ?eq y) M"
    have "mset ?s = M" using xs by simp
    then have M: "M = mset (filter ?eq ?s) + N" using multiset_partition [of M ?eq] by (simp add: N_def)
    have "x \<in># mset (filter ?eq ?s)" using s by simp
    then have "0 < size (mset (filter ?eq ?s))" by (metis empty_iff nonempty_has_size set_mset_empty)
    then have "size N < size M" using arg_cong [OF M, of size] by simp
    then obtain hs where hs: "key_groups key_cmp seq_cmp N hs" using less by blast
    have group: "key_groups key_cmp seq_cmp (mset (filter ?eq ?s)) [filter ?eq ?s]"
    proof -
      have "sorted_wrt (\<lambda>a b. key_cmp (kv_key a) (kv_key b) = 0 \<and> \<not> kv_after key_cmp seq_cmp a b) (filter ?eq ?s)"
      proof (rule sorted_wrt_mono_in [OF sorted_wrt_filter [OF sorted, of ?eq]])
        fix a b assume "a \<in> set (filter ?eq ?s)" "b \<in> set (filter ?eq ?s)" "\<not> kv_after key_cmp seq_cmp a b"
        then show "key_cmp (kv_key a) (kv_key b) = 0 \<and> \<not> kv_after key_cmp seq_cmp a b"
          using cmp_eq_trans [of "kv_key a" "kv_key x" "kv_key b"] cmp_eq_sym [of "kv_key a" "kv_key x"] by simp
      qed
      moreover have "filter ?eq ?s \<noteq> []" using s by simp
      ultimately show ?thesis by (simp add: key_groups_def)
    qed
    have "key_cmp (kv_key a) (kv_key b) < 0" if "a \<in># mset (filter ?eq ?s)" "b \<in># N" for a b
    proof -
      have "b \<in> set rest" "\<not> ?eq b" using that(2) \<open>mset ?s = M\<close> s by (auto simp: N_def simp flip: set_mset_mset)
      then have "key_cmp (kv_key x) (kv_key b) < 0" using sorted s not_after_key by (fastforce simp: order_less_le)
      moreover have "key_cmp (kv_key a) (kv_key x) = 0" using that(1) cmp_eq_sym by auto
      ultimately show ?thesis using cmp_le_trans_less by (metis order_refl)
    qed
    then show ?thesis using key_groups_append [OF group hs] M by auto
  qed
qed

lemma read_all_ok:
  assumes "if batch then in_batch key_cmp st else between_batches key_cmp st"
    "2 * work st + (if batch then 2 else 1) < n"
  shows "\<exists>gs. key_groups key_cmp seq_cmp (unread st) gs \<and> read_all n (Some ops) key_cmp seq_cmp batch st = Some (merged_records wspec gs)"
  using assms
proof (induction n arbitrary: batch st)
  case (Suc n)
  show ?case
  proof (cases batch)
    case False
    then have bb: "between_batches key_cmp st" using Suc.prems(1) by simp
    obtain st' where b: "NextBatch st = Inr (min_heap st' \<noteq> [], st')" "unread st' = unread st"
      "min_heap st' = [] \<Longrightarrow> unread st = {#}" "min_heap st' \<noteq> [] \<Longrightarrow> in_batch key_cmp st' \<and> work st' < work st"
      using NextBatch_ok [OF bb] by blast
    show ?thesis
    proof (cases "min_heap st' = []")
      case True
      then have "read_all (Suc n) (Some ops) key_cmp seq_cmp batch st = Some (merged_records wspec [])" using False b(1) by simp
      then show ?thesis using b(3) True by (intro exI [of _ "[]"]) simp
    next
      case ne: False
      then have "read_all (Suc n) (Some ops) key_cmp seq_cmp batch st = read_all n (Some ops) key_cmp seq_cmp True st'"
        using False b(1) by simp
      moreover have "2 * work st' + 2 < n" using b(4) [OF ne] Suc.prems(2) False by simp
      ultimately show ?thesis using Suc.IH [of True st'] b(2) b(4) [OF ne] by simp
    qed
  next
    case True
    then have inb: "in_batch key_cmp st" and fuel: "2 * work st + 2 < Suc n" using Suc.prems by simp_all
    have "size (unread st) < n" using fuel by (simp add: work_def)
    from HasNext_ok [OF inb this] consider
        (a) gs st1 where "emits key_cmp seq_cmp st gs st1" "between_batches key_cmp st1" "work st1 \<le> work st" "merged_records wspec gs = Inr []"
          "HasNext n (Some ops) key_cmp seq_cmp st = Some (Inr (None, st1))"
      | (b) gs st1 kv where "emits key_cmp seq_cmp st gs st1" "in_batch key_cmp st1" "work st1 < work st" "merged_records wspec gs = Inr [kv]"
          "HasNext n (Some ops) key_cmp seq_cmp st = Some (Inr (Some kv, st1))"
      | (c) gs st1 e where "emits key_cmp seq_cmp st gs st1" "reader_ok key_cmp st1" "merged_records wspec gs = Inl e"
          "HasNext n (Some ops) key_cmp seq_cmp st = Some (Inl e)"
      by blast
    then show ?thesis
    proof cases
      case a
      obtain hs where "key_groups key_cmp seq_cmp (unread st1) hs" "read_all n (Some ops) key_cmp seq_cmp False st1 = Some (merged_records wspec hs)"
        using Suc.IH [of False st1] a(2,3) fuel by auto
      then show ?thesis using True a(4,5) key_groups_of_emits [OF a(1)] by (intro exI [of _ "gs @ hs"]) (simp add: merged_records_append)
    next
      case b
      obtain hs where "key_groups key_cmp seq_cmp (unread st1) hs" "read_all n (Some ops) key_cmp seq_cmp True st1 = Some (merged_records wspec hs)"
        using Suc.IH [of True st1] b(2,3) fuel by auto
      then show ?thesis using True b(4,5) key_groups_of_emits [OF b(1)] by (intro exI [of _ "gs @ hs"]) (simp add: merged_records_append)
    next
      case c
      obtain hs where "key_groups key_cmp seq_cmp (unread st1) hs" using key_groups_exist by blast
      then show ?thesis using True c(3,4) key_groups_of_emits [OF c(1)] by (intro exI [of _ "gs @ hs"]) (simp add: merged_records_append)
    qed
  qed
qed simp

end

interpretation deduplicating: sort_merge "FieldsComparator_CompareTo (schema_comparator types sort_idx asc)"
  "map_option (\<lambda>idx. FieldsComparator_CompareTo (schema_comparator value_types idx seq_asc)) seq_fields"
  "ReducerMergeFunctionWrapper (DeduplicateMergeFunction b)" "reducer_spec (deduplicate_spec b)"
  for types sort_idx asc value_types seq_asc seq_fields b
  by (intro sort_merge.intro schema_merge.merge_order_axioms reduce_deduplicate.group_merge_axioms)

lemma new_reader_between:
  assumes "\<forall>bs \<in> set readers. readable bs \<and> sorted_wrt (\<lambda>a b. key_cmp (kv_key a) (kv_key b) < 0) (batch_records bs)"
  shows "between_batches key_cmp (SortMergeReaderWithMinHeap readers w)"
    "unread (SortMergeReaderWithMinHeap readers w) = mset (concat (map batch_records readers))"
  using assms
  by (auto simp: between_batches_def reader_ok_def streams_def state_readers_def unread_def SortMergeReaderWithMinHeap_def)

section \<open>Properties\<close>

text \<open>
  C1. Reading a sort-merge reader with a min-heap to its end, over any readers whose records have
  increasing keys, any key comparator, any user-defined sequence and any merge function behind the
  reducer, ends and returns what merging the groups of equal keys returns: the groups hold every record
  exactly once, in the order of keys, and inside a group in the order of the sequence.
\<close>

theorem min_heap_reads_groups:
  assumes "FieldsComparator_Create types sort_idx asc = Inr fc" "\<forall>cmp. seq_cmp = Some cmp \<longrightarrow> comparison cmp"
    "merge_function mf spec"
    "\<forall>bs \<in> set readers. readable bs \<and>
       sorted_wrt (\<lambda>a b. FieldsComparator_CompareTo fc (kv_key a) (kv_key b) < 0) (batch_records bs)"
    "2 * work (SortMergeReaderWithMinHeap readers w) + 1 < n"
  shows "\<exists>gs. key_groups (FieldsComparator_CompareTo fc) seq_cmp (mset (concat (map batch_records readers))) gs \<and>
    read_all n (Some (ReducerMergeFunctionWrapper mf)) (FieldsComparator_CompareTo fc) seq_cmp False (SortMergeReaderWithMinHeap readers w) =
      Some (merged_records (reducer_spec spec) gs)"
proof -
  have "sort_merge (FieldsComparator_CompareTo fc) seq_cmp (ReducerMergeFunctionWrapper mf) (reducer_spec spec)"
    using FieldsComparator_key_comparator [OF assms(1)] assms(2) reducer_group_merge [OF assms(3)]
    by (intro sort_merge.intro merge_order.intro merge_order_axioms.intro) auto
  from sort_merge.read_all_ok [OF this, of False "SortMergeReaderWithMinHeap readers w" n]
  show ?thesis using new_reader_between [OF assms(4), of w] assms(5) by simp
qed

theorem min_heap_reads_groups_witness:
  "\<exists>fc gs. FieldsComparator_Create [INT32] [0] True = Inr fc \<and>
     key_groups (FieldsComparator_CompareTo fc) None (mset [example_kv INSERT 1 0 [VInt 1], example_kv DELETE 2 0 [VInt 2]]) gs \<and>
     read_all 50 (Some (ReducerMergeFunctionWrapper (DeduplicateMergeFunction False))) (FieldsComparator_CompareTo fc) None False
       (SortMergeReaderWithMinHeap [[Inr [example_kv INSERT 1 0 [VInt 1]]], [Inr [], Inr [example_kv DELETE 2 0 [VInt 2]]]]
          \<lparr>red_inner = None, initial_kv = None, is_initialized = False\<rparr>) =
       Some (merged_records (reducer_spec (deduplicate_spec False)) gs)"
proof -
  obtain fc where fc: "FieldsComparator_Create [INT32] [0] True = Inr fc" by (simp add: FieldsComparator_Create_def)
  show ?thesis
    using min_heap_reads_groups [OF fc, of None "DeduplicateMergeFunction False" "deduplicate_spec False"
        "[[Inr [example_kv INSERT 1 0 [VInt 1]]], [Inr [], Inr [example_kv DELETE 2 0 [VInt 2]]]]"
        "\<lparr>red_inner = None, initial_kv = None, is_initialized = False\<rparr>" 50] deduplicate.merge_function_axioms fc
    by (auto simp: readable_def batch_records_def work_def reader_work_def unread_def streams_def state_readers_def
        SortMergeReaderWithMinHeap_def)
qed

end
