(* ===== verification/Field_Values.thy ===== *)
theory Field_Values
  imports Key_Value
begin

unbundle bit_operations_syntax

text \<open>
  Values of typed fields: \<open>InternalRow::CreateFieldGetter\<close> (\<^verbatim>\<open>common/data/internal_row.cpp\<close>) and the
  helpers of the field aggregators (\<^verbatim>\<open>core/mergetree/compact/aggregate/field_aggregate_utils.cpp\<close>): reading
  a value of a type, equality by type, through arrays, maps and rows, and the hash that goes with it. The
  lemmas show that \<open>Equals\<close> is an equivalence relation without errors on the values of a type, that maps
  compare as multisets of entries, and that equal values of a hashable type have equal hashes.
\<close>

section \<open>Reading a field\<close>

text \<open>The elements of an array, the entries of a map and the fields of a nested row.\<close>

definition GetArray :: "row \<Rightarrow> nat \<Rightarrow> variant list" where
  "GetArray r i = (case row_field r i of VArray a \<Rightarrow> a | _ \<Rightarrow> [])"

definition GetMap :: "row \<Rightarrow> nat \<Rightarrow> (variant \<times> variant) list" where
  "GetMap r i = (case row_field r i of VMap m \<Rightarrow> m | _ \<Rightarrow> [])"

definition GetRow :: "row \<Rightarrow> nat \<Rightarrow> variant" where
  "GetRow r i = (case row_field r i of VRow k fs \<Rightarrow> VRow k fs | _ \<Rightarrow> VRow INSERT [])"

fun typed_getter :: "nat \<Rightarrow> arrow_type \<Rightarrow> bool \<Rightarrow> (row \<Rightarrow> variant) result" where
  "typed_getter i BOOL use_view = Inr (\<lambda>r. VBool (GetBoolean r i))"
| "typed_getter i INT8 use_view = Inr (\<lambda>r. VByte (GetByte r i))"
| "typed_getter i INT16 use_view = Inr (\<lambda>r. VShort (GetShort r i))"
| "typed_getter i INT32 use_view = Inr (\<lambda>r. VInt (GetInt r i))"
| "typed_getter i INT64 use_view = Inr (\<lambda>r. VLong (GetLong r i))"
| "typed_getter i FLOAT use_view = Inr (\<lambda>r. VFloat (GetFloat r i))"
| "typed_getter i DOUBLE use_view = Inr (\<lambda>r. VDouble (GetDouble r i))"
| "typed_getter i DATE32 use_view = Inr (\<lambda>r. VInt (GetDate r i))"
| "typed_getter i STRING use_view =
     Inr (\<lambda>r. if use_view then VStringView (GetStringView r i) else VString (GetStringView r i))"
| "typed_getter i BINARY use_view =
     Inr (\<lambda>r. if use_view then VStringView (GetStringView r i) else VBytes (GetStringView r i))"
| "typed_getter i TIMESTAMP use_view = Inr (\<lambda>r. VTimestamp (GetTimestamp r i))"
| "typed_getter i (DECIMAL128 p s) use_view = Inr (\<lambda>r. VDecimal (GetDecimal r i p s))"
| "typed_getter i (STRUCT fs) use_view = Inr (\<lambda>r. GetRow r i)"
| "typed_getter i (LIST t) use_view = Inr (\<lambda>r. VArray (GetArray r i))"
| "typed_getter i (FIXED_SIZE_LIST t) use_view = Inr (\<lambda>r. VArray (GetArray r i))"
| "typed_getter i (MAP k v) use_view = Inr (\<lambda>r. VMap (GetMap r i))"
| "typed_getter i OTHER_TYPE use_view = Inl (Invalid ''type {} not support in data getter'')"

definition CreateFieldGetter :: "nat \<Rightarrow> arrow_type \<Rightarrow> bool \<Rightarrow> (row \<Rightarrow> variant) result" where
  "CreateFieldGetter i t use_view =
     rbind (typed_getter i t use_view) (\<lambda>getter. Inr (\<lambda>r. if IsNullAt r i then VNull else getter r))"

definition CreateFieldGetters :: "arrow_type list \<Rightarrow> bool \<Rightarrow> (row \<Rightarrow> variant) list result" where
  "CreateFieldGetters types use_view =
     rmap (\<lambda>i. CreateFieldGetter i (types ! i) use_view) [0..<length types]"

text \<open>\<open>FieldAggregateUtils::GetValue\<close>: strings and binaries are views.\<close>

fun typed_value :: "row \<Rightarrow> nat \<Rightarrow> arrow_type \<Rightarrow> variant result" where
  "typed_value r i BOOL = Inr (VBool (GetBoolean r i))"
| "typed_value r i INT8 = Inr (VByte (GetByte r i))"
| "typed_value r i INT16 = Inr (VShort (GetShort r i))"
| "typed_value r i DATE32 = Inr (VInt (GetDate r i))"
| "typed_value r i INT32 = Inr (VInt (GetInt r i))"
| "typed_value r i INT64 = Inr (VLong (GetLong r i))"
| "typed_value r i FLOAT = Inr (VFloat (GetFloat r i))"
| "typed_value r i DOUBLE = Inr (VDouble (GetDouble r i))"
| "typed_value r i STRING = Inr (VStringView (GetStringView r i))"
| "typed_value r i BINARY = Inr (VStringView (GetStringView r i))"
| "typed_value r i TIMESTAMP = Inr (VTimestamp (GetTimestamp r i))"
| "typed_value r i (DECIMAL128 p s) = Inr (VDecimal (GetDecimal r i p s))"
| "typed_value r i (LIST t) = Inr (VArray (GetArray r i))"
| "typed_value r i (FIXED_SIZE_LIST t) = Inr (VArray (GetArray r i))"
| "typed_value r i (MAP k v) = Inr (VMap (GetMap r i))"
| "typed_value r i (STRUCT fs) = Inr (GetRow r i)"
| "typed_value r i OTHER_TYPE = Inl (Invalid ''type {} is not supported by field aggregation'')"

definition GetValue :: "row \<Rightarrow> nat \<Rightarrow> arrow_type \<Rightarrow> variant result" where
  "GetValue r i t = (if IsNullAt r i then Inr VNull else typed_value r i t)"

section \<open>Equality of values\<close>

text \<open>
  \<open>DataDefine::GetVariantValue\<close>: the alternative of the variant, which the source asserts; another
  alternative gives a fixed value.
\<close>

fun variant_bool :: "variant \<Rightarrow> bool" where
  "variant_bool (VBool b) = b"
| "variant_bool _ = False"

fun variant_char :: "variant \<Rightarrow> 8 word" where
  "variant_char (VByte b) = b"
| "variant_char _ = 0"

fun variant_int16 :: "variant \<Rightarrow> 16 word" where
  "variant_int16 (VShort b) = b"
| "variant_int16 _ = 0"

fun variant_int32 :: "variant \<Rightarrow> 32 word" where
  "variant_int32 (VInt b) = b"
| "variant_int32 _ = 0"

fun variant_int64 :: "variant \<Rightarrow> 64 word" where
  "variant_int64 (VLong b) = b"
| "variant_int64 _ = 0"

fun variant_float :: "variant \<Rightarrow> fp" where
  "variant_float (VFloat b) = b"
| "variant_float _ = Fin False 0"

fun variant_double :: "variant \<Rightarrow> fp" where
  "variant_double (VDouble b) = b"
| "variant_double _ = Fin False 0"

fun variant_timestamp :: "variant \<Rightarrow> timestamp" where
  "variant_timestamp (VTimestamp b) = b"
| "variant_timestamp _ = \<lparr>millisecond = 0, nano_of_millisecond = 0\<rparr>"

fun variant_decimal :: "variant \<Rightarrow> decimal" where
  "variant_decimal (VDecimal b) = b"
| "variant_decimal _ = \<lparr>precision = 0, scale = 0, dvalue = 0\<rparr>"

fun variant_row :: "variant \<Rightarrow> RowKind \<times> row" where
  "variant_row (VRow k fs) = (k, fs)"
| "variant_row _ = (INSERT, [])"

fun variant_array :: "variant \<Rightarrow> variant list" where
  "variant_array (VArray a) = a"
| "variant_array _ = []"

fun variant_map :: "variant \<Rightarrow> (variant \<times> variant) list" where
  "variant_map (VMap m) = m"
| "variant_map _ = []"

text \<open>Loops that stop at the first element that fails, or that satisfies, a fallible test.\<close>

fun rall :: "('a \<Rightarrow> bool result) \<Rightarrow> 'a list \<Rightarrow> bool result" where
  "rall p [] = Inr True"
| "rall p (x # xs) = rbind (p x) (\<lambda>b. if b then rall p xs else Inr False)"

fun rindex :: "('a \<Rightarrow> bool result) \<Rightarrow> 'a list \<Rightarrow> nat option result" where
  "rindex p [] = Inr None"
| "rindex p (x # xs) =
     rbind (p x) (\<lambda>b. if b then Inr (Some 0) else rbind (rindex p xs) (\<lambda>r. Inr (map_option Suc r)))"

lemma rall_eq: "(\<And>x. x \<in> set xs \<Longrightarrow> p x = q x) \<Longrightarrow> rall p xs = rall q xs"
  by (induction xs) (auto intro!: rbind_cong)

lemma rall_cong [fundef_cong]: "xs = ys \<Longrightarrow> (\<And>x. x \<in> set ys \<Longrightarrow> p x = q x) \<Longrightarrow> rall p xs = rall q ys"
  using rall_eq by blast

definition EqualGetters :: "(variant \<Rightarrow> variant \<Rightarrow> bool result) \<Rightarrow> row \<Rightarrow> nat \<Rightarrow> row \<Rightarrow> nat \<Rightarrow> arrow_type \<Rightarrow> bool result" where
  "EqualGetters equals lhs lhs_pos rhs rhs_pos t =
     rbind (GetValue lhs lhs_pos t) (\<lambda>lhs_value.
     rbind (GetValue rhs rhs_pos t) (\<lambda>rhs_value. equals lhs_value rhs_value))"

lemma EqualGetters_cong [fundef_cong]:
  "(\<And>a b. f a b = g a b) \<Longrightarrow> EqualGetters f l i r j t = EqualGetters g l i r j t"
  by (simp add: EqualGetters_def)

text \<open>
  Rows, arrays and maps, given the equality of their components. A row whose arity is not the type's,
  which no getter produces, is compared by address in the source and differs from every row here.
\<close>

definition EqualRows :: "(nat \<Rightarrow> variant \<Rightarrow> variant \<Rightarrow> bool result) \<Rightarrow> RowKind \<times> row \<Rightarrow> RowKind \<times> row \<Rightarrow>
    (string \<times> arrow_type) list \<Rightarrow> bool result" where
  "EqualRows equals lhs rhs fs =
     (if length (snd lhs) \<noteq> length (snd rhs) \<or> length (snd lhs) \<noteq> length fs then Inr False
      else if fst lhs \<noteq> fst rhs then Inr False
      else rall (\<lambda>i. EqualGetters (equals i) (snd lhs) i (snd rhs) i (snd (fs ! i))) [0..<length fs])"

definition EqualArrays :: "(variant \<Rightarrow> variant \<Rightarrow> bool result) \<Rightarrow> variant list \<Rightarrow> variant list \<Rightarrow> arrow_type \<Rightarrow> bool result" where
  "EqualArrays equals lhs rhs t =
     (if length lhs \<noteq> length rhs then Inr False
      else rall (\<lambda>i. EqualGetters equals lhs i rhs i t) [0..<length lhs])"

fun match_entries :: "(nat \<Rightarrow> nat \<Rightarrow> bool result) \<Rightarrow> bool list \<Rightarrow> nat list \<Rightarrow> bool result" where
  "match_entries equals matched [] = Inr True"
| "match_entries equals matched (i # is) =
     rbind (rindex (\<lambda>j. if matched ! j then Inr False else equals i j) [0..<length matched]) (\<lambda>found.
     case found of None \<Rightarrow> Inr False | Some j \<Rightarrow> match_entries equals (matched[j := True]) is)"

definition EqualMaps :: "(variant \<Rightarrow> variant \<Rightarrow> bool result) \<Rightarrow> (variant \<Rightarrow> variant \<Rightarrow> bool result) \<Rightarrow>
    (variant \<times> variant) list \<Rightarrow> (variant \<times> variant) list \<Rightarrow> arrow_type \<Rightarrow> arrow_type \<Rightarrow> bool result" where
  "EqualMaps equal_keys equal_values lhs rhs key_type item_type =
     (if length lhs \<noteq> length rhs then Inr False
      else match_entries (\<lambda>i j.
        rbind (EqualGetters equal_keys (map fst lhs) i (map fst rhs) j key_type) (\<lambda>key_equal.
        if \<not> key_equal then Inr False
        else EqualGetters equal_values (map snd lhs) i (map snd rhs) j item_type))
        (replicate (length rhs) False) [0..<length lhs])"

lemma EqualRows_cong [fundef_cong]:
  assumes "fs = fs'" "\<And>i a b. i < length fs' \<Longrightarrow> f i a b = g i a b"
  shows "EqualRows f l r fs = EqualRows g l r fs'"
proof -
  have "rall (\<lambda>i. EqualGetters (f i) (snd l) i (snd r) i (snd (fs' ! i))) [0..<length fs'] =
    rall (\<lambda>i. EqualGetters (g i) (snd l) i (snd r) i (snd (fs' ! i))) [0..<length fs']"
    by (intro rall_eq EqualGetters_cong) (simp add: assms(2))
  then show ?thesis by (simp add: EqualRows_def assms(1))
qed

lemma size_struct_field:
  assumes "i < length fs"
  shows "size (snd (fs ! i)) < size (STRUCT fs)"
proof -
  have "size (snd (fs ! i)) < size_prod (\<lambda>_. 0) size (fs ! i)" by (cases "fs ! i") simp
  then have "size (snd (fs ! i)) < size_list (size_prod (\<lambda>_. 0) size) fs"
    using size_list_estimation [OF nth_mem [OF assms]] by blast
  then show ?thesis by simp
qed

function Equals :: "variant \<Rightarrow> variant \<Rightarrow> arrow_type \<Rightarrow> bool result" where
  "Equals lhs rhs t =
     (if IsVariantNull lhs \<or> IsVariantNull rhs then Inr (IsVariantNull lhs \<and> IsVariantNull rhs)
      else case t of
        BOOL \<Rightarrow> Inr (variant_bool lhs = variant_bool rhs)
      | INT8 \<Rightarrow> Inr (variant_char lhs = variant_char rhs)
      | INT16 \<Rightarrow> Inr (variant_int16 lhs = variant_int16 rhs)
      | DATE32 \<Rightarrow> Inr (variant_int32 lhs = variant_int32 rhs)
      | INT32 \<Rightarrow> Inr (variant_int32 lhs = variant_int32 rhs)
      | INT64 \<Rightarrow> Inr (variant_int64 lhs = variant_int64 rhs)
      | FLOAT \<Rightarrow> Inr (CompareFloatingPoint (variant_float lhs) (variant_float rhs) = 0)
      | DOUBLE \<Rightarrow> Inr (CompareFloatingPoint (variant_double lhs) (variant_double rhs) = 0)
      | STRING \<Rightarrow> Inr (VariantStringView lhs = VariantStringView rhs)
      | BINARY \<Rightarrow> Inr (VariantStringView lhs = VariantStringView rhs)
      | TIMESTAMP \<Rightarrow> Inr (variant_timestamp lhs = variant_timestamp rhs)
      | DECIMAL128 p s \<Rightarrow> Inr (CompareTo (variant_decimal lhs) (variant_decimal rhs) = 0)
      | STRUCT fs \<Rightarrow> EqualRows (\<lambda>i a b. Equals a b (snd (fs ! i))) (variant_row lhs) (variant_row rhs) fs
      | LIST e \<Rightarrow> EqualArrays (\<lambda>a b. Equals a b e) (variant_array lhs) (variant_array rhs) e
      | FIXED_SIZE_LIST e \<Rightarrow> EqualArrays (\<lambda>a b. Equals a b e) (variant_array lhs) (variant_array rhs) e
      | MAP k v \<Rightarrow> EqualMaps (\<lambda>a b. Equals a b k) (\<lambda>a b. Equals a b v) (variant_map lhs) (variant_map rhs) k v
      | OTHER_TYPE \<Rightarrow> Inl (Invalid ''type {} is not supported by field aggregation''))"
  by pat_completeness auto
termination
  by (relation "measure (\<lambda>(_, _, t). size t)")
    (simp_all add: size_struct_field [simplified])

declare Equals.simps [simp del]

section \<open>Hash of a value\<close>

text \<open>
  The bits of a floating point value: sign, exponent and fraction, for a NaN its own sign and fraction. The hash functions of the standard
  library and the numbers of the arrow types are arguments.
\<close>

definition fp_bits :: "fp_format \<Rightarrow> fp \<Rightarrow> int" where
  "fp_bits f v =
     (let frac = 2 ^ nat (fp_prec f - 1);
          ones = fp_emax f - fp_emin f + 2;
          sign = (\<lambda>s. if s then frac * (ones + 1) else 0)
      in case v of
        NaN s p \<Rightarrow> sign s + ones * frac + int p
      | Inf s \<Rightarrow> sign s + ones * frac
      | Fin s q \<Rightarrow> sign s + (if q = 0 then 0
          else let e = max (rat_exponent q) (fp_emin f); m = \<lfloor>q / pow2 (e - fp_prec f + 1)\<rfloor>
               in if m < frac then m else (e - fp_emin f + 1) * frac + (m - frac)))"

definition CanonicalizeFloatToIntBits :: "fp \<Rightarrow> 32 word" where
  "CanonicalizeFloatToIntBits v = (if isnan v then 0x7fc00000 else word_of_int (fp_bits binary32 v))"

definition CanonicalizeDoubleToLongBits :: "fp \<Rightarrow> 64 word" where
  "CanonicalizeDoubleToLongBits v = (if isnan v then 0x7ff8000000000000 else word_of_int (fp_bits binary64 v))"

record std_hash =
  type_id :: "arrow_type \<Rightarrow> 32 word"
  hash_bool :: "bool \<Rightarrow> 64 word"
  hash_char :: "8 word \<Rightarrow> 64 word"
  hash_int16 :: "16 word \<Rightarrow> 64 word"
  hash_int32 :: "32 word \<Rightarrow> 64 word"
  hash_int64 :: "64 word \<Rightarrow> 64 word"
  hash_string :: "bytes \<Rightarrow> 64 word"

definition CombineHash :: "64 word \<Rightarrow> 64 word \<Rightarrow> 64 word" where
  "CombineHash lhs rhs = lhs XOR (rhs + 0x9e3779b97f4a7c15 + push_bit 6 lhs + drop_bit 2 lhs)"

fun IsHashableType :: "arrow_type \<Rightarrow> bool" where
  "IsHashableType BOOL = True"
| "IsHashableType INT8 = True"
| "IsHashableType INT16 = True"
| "IsHashableType INT32 = True"
| "IsHashableType DATE32 = True"
| "IsHashableType INT64 = True"
| "IsHashableType FLOAT = True"
| "IsHashableType DOUBLE = True"
| "IsHashableType STRING = True"
| "IsHashableType BINARY = True"
| "IsHashableType TIMESTAMP = True"
| "IsHashableType _ = False"

definition Hash :: "std_hash \<Rightarrow> variant \<Rightarrow> arrow_type \<Rightarrow> 64 word" where
  "Hash h v t =
     (let result = hash_int32 h (type_id h t) in
      if IsVariantNull v then result
      else case t of
        BOOL \<Rightarrow> CombineHash result (hash_bool h (variant_bool v))
      | INT8 \<Rightarrow> CombineHash result (hash_char h (variant_char v))
      | INT16 \<Rightarrow> CombineHash result (hash_int16 h (variant_int16 v))
      | INT32 \<Rightarrow> CombineHash result (hash_int32 h (variant_int32 v))
      | DATE32 \<Rightarrow> CombineHash result (hash_int32 h (variant_int32 v))
      | INT64 \<Rightarrow> CombineHash result (hash_int64 h (variant_int64 v))
      | FLOAT \<Rightarrow> CombineHash result (hash_int32 h (CanonicalizeFloatToIntBits (variant_float v)))
      | DOUBLE \<Rightarrow> CombineHash result (hash_int64 h (CanonicalizeDoubleToLongBits (variant_double v)))
      | STRING \<Rightarrow> CombineHash result (hash_string h (VariantStringView v))
      | BINARY \<Rightarrow> CombineHash result (hash_string h (VariantStringView v))
      | TIMESTAMP \<Rightarrow> CombineHash result
          (CombineHash (hash_int64 h (word_of_int (millisecond (variant_timestamp v))))
            (hash_int32 h (word_of_int (nano_of_millisecond (variant_timestamp v)))))
      | _ \<Rightarrow> 0)"

text \<open>The values a field of a type holds: null, or an alternative of the type with components of its types.\<close>

function has_type :: "arrow_type \<Rightarrow> variant \<Rightarrow> bool" where
  "has_type t v =
     (case v of
        VNull \<Rightarrow> True
      | VBool _ \<Rightarrow> t = BOOL
      | VByte _ \<Rightarrow> t = INT8
      | VShort _ \<Rightarrow> t = INT16
      | VInt _ \<Rightarrow> t = INT32 \<or> t = DATE32
      | VLong _ \<Rightarrow> t = INT64
      | VFloat _ \<Rightarrow> t = FLOAT
      | VDouble _ \<Rightarrow> t = DOUBLE
      | VString _ \<Rightarrow> t = STRING
      | VBytes _ \<Rightarrow> t = BINARY
      | VStringView _ \<Rightarrow> t = STRING \<or> t = BINARY
      | VTimestamp _ \<Rightarrow> t = TIMESTAMP
      | VDecimal d \<Rightarrow> t = DECIMAL128 (precision d) (scale d)
      | VRow k r \<Rightarrow> (case t of
            STRUCT fs \<Rightarrow> length r = length fs \<and> (\<forall>i<length fs. has_type (snd (fs ! i)) (r ! i))
          | _ \<Rightarrow> False)
      | VArray a \<Rightarrow> (case t of
            LIST e \<Rightarrow> \<forall>x\<in>set a. has_type e x
          | FIXED_SIZE_LIST e \<Rightarrow> \<forall>x\<in>set a. has_type e x
          | _ \<Rightarrow> False)
      | VMap m \<Rightarrow> (case t of
            MAP k e \<Rightarrow> \<forall>x\<in>set m. has_type k (fst x) \<and> has_type e (snd x)
          | _ \<Rightarrow> False))"
  by pat_completeness auto
termination
  by (relation "measure (\<lambda>(t, _). size t)") (simp_all add: size_struct_field [simplified])

declare has_type.simps [simp del]

lemma has_type_simps [simp]:
  "has_type t VNull"
  "has_type t (VBool b) \<longleftrightarrow> t = BOOL"
  "has_type t (VByte c) \<longleftrightarrow> t = INT8"
  "has_type t (VShort h) \<longleftrightarrow> t = INT16"
  "has_type t (VInt i) \<longleftrightarrow> t = INT32 \<or> t = DATE32"
  "has_type t (VLong l) \<longleftrightarrow> t = INT64"
  "has_type t (VFloat f) \<longleftrightarrow> t = FLOAT"
  "has_type t (VDouble f) \<longleftrightarrow> t = DOUBLE"
  "has_type t (VString s) \<longleftrightarrow> t = STRING"
  "has_type t (VBytes s) \<longleftrightarrow> t = BINARY"
  "has_type t (VStringView s) \<longleftrightarrow> t = STRING \<or> t = BINARY"
  "has_type t (VTimestamp ts) \<longleftrightarrow> t = TIMESTAMP"
  "has_type t (VDecimal d) \<longleftrightarrow> t = DECIMAL128 (precision d) (scale d)"
  by (simp_all add: has_type.simps [of t])

lemma has_type_nested:
  "has_type t (VRow k r) \<longleftrightarrow> (\<exists>fs. t = STRUCT fs \<and> length r = length fs \<and> (\<forall>i<length fs. has_type (snd (fs ! i)) (r ! i)))"
  "has_type t (VArray a) \<longleftrightarrow> (\<exists>e. (t = LIST e \<or> t = FIXED_SIZE_LIST e) \<and> (\<forall>x\<in>set a. has_type e x))"
  "has_type t (VMap m) \<longleftrightarrow> (\<exists>k e. t = MAP k e \<and> (\<forall>x\<in>set m. has_type k (fst x) \<and> has_type e (snd x)))"
  by (subst has_type.simps; cases t; simp)+

section \<open>Loops over fallible tests\<close>

lemma rall_Inr: "(\<And>x. x \<in> set xs \<Longrightarrow> p x = Inr (P x)) \<Longrightarrow> rall p xs = Inr (\<forall>x\<in>set xs. P x)"
  by (induction xs) auto

lemma rindex_Inr:
  assumes "\<And>x. x \<in> set xs \<Longrightarrow> p x = Inr (P x)"
  obtains "rindex p xs = Inr None" "\<And>x. x \<in> set xs \<Longrightarrow> \<not> P x"
  | i where "rindex p xs = Inr (Some i)" "i < length xs" "P (xs ! i)" "\<And>j. j < i \<Longrightarrow> \<not> P (xs ! j)"
  using assms
proof (induction xs arbitrary: thesis)
  case (Cons x xs)
  show ?case
  proof (cases "P x")
    case True
    then show ?thesis using Cons.prems(2) [of 0] Cons.prems(3) by simp
  next
    case False
    show ?thesis
    proof (rule Cons.IH)
      assume "rindex p xs = Inr None" "\<And>y. y \<in> set xs \<Longrightarrow> \<not> P y"
      then show thesis using False Cons.prems(1,3) by auto
    next
      fix i assume i: "rindex p xs = Inr (Some i)" "i < length xs" "P (xs ! i)" "\<And>j. j < i \<Longrightarrow> \<not> P (xs ! j)"
      have "\<not> P ((x # xs) ! j)" if "j < Suc i" for j using that False i(4) by (cases j) simp_all
      then show thesis using i False Cons.prems(2) [of "Suc i"] Cons.prems(3) by simp
    qed (use Cons.prems(3) in auto)
  qed
qed simp

text \<open>
  The greedy matching finds an injection of related indices if there is one, because the relation is
  rectangular.
\<close>

lemma match_entries_injection:
  assumes "\<And>i j. i \<in> set is \<Longrightarrow> j < length matched \<Longrightarrow> equals i j = Inr (E i j)"
    and "\<And>i j i' j'. E i j \<Longrightarrow> E i' j \<Longrightarrow> E i j' \<Longrightarrow> E i' j'"
    and "distinct is"
  shows "match_entries equals matched is =
    Inr (\<exists>f. inj_on f (set is) \<and> (\<forall>i\<in>set is. f i < length matched \<and> \<not> matched ! f i \<and> E i (f i)))"
    (is "_ = Inr (?R matched is)")
  using assms(1,3)
proof (induction "is" arbitrary: matched)
  case (Cons i "is")
  let ?p = "\<lambda>j. if matched ! j then Inr False else equals i j"
  have p: "?p j = Inr (\<not> matched ! j \<and> E i j)" if "j \<in> set [0..<length matched]" for j
    using that Cons.prems(1) by simp
  show ?case
  proof (rule rindex_Inr [of "[0..<length matched]" ?p, OF p])
    assume r: "rindex ?p [0..<length matched] = Inr None"
      and none: "\<And>j. j \<in> set [0..<length matched] \<Longrightarrow> \<not> (\<not> matched ! j \<and> E i j)"
    have "\<not> ?R matched (i # is)" using none by auto
    then show ?thesis using r by simp
  next
    fix j0 assume r: "rindex ?p [0..<length matched] = Inr (Some j0)" and "j0 < length [0..<length matched]"
      and "\<not> matched ! ([0..<length matched] ! j0) \<and> E i ([0..<length matched] ! j0)"
    then have j0: "j0 < length matched" "\<not> matched ! j0" "E i j0" by auto
    let ?m = "matched[j0 := True]"
    have IH: "match_entries equals ?m is = Inr (?R ?m is)"
      by (rule Cons.IH) (use Cons.prems in auto)
    have "?R ?m is \<longleftrightarrow> ?R matched (i # is)"
    proof
      assume "?R ?m is"
      then obtain f where f: "inj_on f (set is)" "\<forall>k\<in>set is. f k < length matched \<and> \<not> ?m ! f k \<and> E k (f k)" by auto
      have ne: "f k \<noteq> j0" "\<not> matched ! f k" if "k \<in> set is" for k
        using f(2) that j0(1) by (metis nth_list_update_eq nth_list_update_neq)+
      have "inj_on (f(i := j0)) (set (i # is))"
        using f(1) ne Cons.prems(2) by (auto simp: inj_on_def)
      moreover have "\<forall>k\<in>set (i # is). (f(i := j0)) k < length matched \<and> \<not> matched ! (f(i := j0)) k \<and> E k ((f(i := j0)) k)"
        using f(2) ne j0 Cons.prems(2) by auto
      ultimately show "?R matched (i # is)" by blast
    next
      assume "?R matched (i # is)"
      then obtain f where f: "inj_on f (set (i # is))"
        "\<forall>k\<in>set (i # is). f k < length matched \<and> \<not> matched ! f k \<and> E k (f k)" by blast
      let ?g = "\<lambda>k. if f k = j0 then f i else f k"
      have ne: "f k \<noteq> f i" if "k \<in> set is" for k using f(1) that Cons.prems(2) by (auto simp: inj_on_def)
      have inj: "inj_on ?g (set is)" using f(1) ne by (auto simp: inj_on_def split: if_splits)
      have "?g k < length ?m \<and> \<not> ?m ! ?g k \<and> E k (?g k)" if k: "k \<in> set is" for k
      proof -
        have "?g k \<noteq> j0" using ne [OF k] by auto
        moreover have "E k (?g k)" using f(2) k assms(2) [OF j0(3), of k "f i"] by auto
        ultimately show ?thesis using f(2) k by auto
      qed
      then show "?R ?m is" using inj by blast
    qed
    then show ?thesis using r IH by simp
  qed
qed simp

section \<open>The equality is an equivalence relation\<close>

text \<open>
  What the aggregators rely on: an equality test that returns no error on the values of interest and is
  reflexive, symmetric and transitive there.
\<close>

locale value_equality =
  fixes dom :: "'a \<Rightarrow> bool" and eq :: "'a \<Rightarrow> 'a \<Rightarrow> bool result"
  assumes eq_ok: "dom a \<Longrightarrow> dom b \<Longrightarrow> is_ok (eq a b)"
    and eq_refl: "dom a \<Longrightarrow> eq a a = Inr True"
    and eq_sym: "dom a \<Longrightarrow> dom b \<Longrightarrow> eq a b = Inr True \<Longrightarrow> eq b a = Inr True"
    and eq_trans: "dom a \<Longrightarrow> dom b \<Longrightarrow> dom c \<Longrightarrow> eq a b = Inr True \<Longrightarrow> eq b c = Inr True \<Longrightarrow> eq a c = Inr True"
begin

lemma eq_Inr: "dom a \<Longrightarrow> dom b \<Longrightarrow> eq a b = Inr (eq a b = Inr True)"
  using eq_ok [of a b] by (auto simp: is_ok_def)

lemma eq_commute: "dom a \<Longrightarrow> dom b \<Longrightarrow> eq a b = eq b a"
  using eq_Inr [of a b] eq_Inr [of b a] eq_sym [of a b] eq_sym [of b a] by metis

end

lemma row_field_simps [simp]:
  "i < length r \<Longrightarrow> row_field r i = r ! i"
  "row_field [] i = VNull"
  by (simp_all add: row_field_def)

lemmas field_defs = IsNullAt_def IsVariantNull_def GetBoolean_def GetByte_def GetShort_def GetInt_def GetDate_def
  GetLong_def GetFloat_def GetDouble_def GetStringView_def GetTimestamp_def GetDecimal_def GetArray_def GetMap_def
  GetRow_def

lemma Equals_null [simp]: "Equals VNull v t = Inr (v = VNull)" "Equals v VNull t = Inr (v = VNull)"
  by (auto simp: Equals.simps [of _ _ t] IsVariantNull_def)

text \<open>Reading a field turns strings and binaries into views, which the equality does not see.\<close>

fun field_view :: "variant \<Rightarrow> variant" where
  "field_view (VString s) = VStringView s"
| "field_view (VBytes s) = VStringView s"
| "field_view v = v"

lemma field_view_other: "has_type t v \<Longrightarrow> t \<noteq> STRING \<Longrightarrow> t \<noteq> BINARY \<Longrightarrow> field_view v = v"
  by (cases v) simp_all

lemma field_view_string [simp]: "VariantStringView (field_view v) = VariantStringView v" "field_view v = VNull \<longleftrightarrow> v = VNull"
  by (cases v; simp)+

lemma has_type_field_view: "has_type t v \<Longrightarrow> has_type t (field_view v)"
  by (cases v) auto

lemma GetValue_typed: "has_type t (row_field r i) \<Longrightarrow> GetValue r i t = Inr (field_view (row_field r i))"
  by (cases "row_field r i") (auto simp: GetValue_def field_defs has_type_nested)

lemma Equals_field_view:
  assumes "has_type t a" "has_type t b"
  shows "Equals (field_view a) (field_view b) t = Equals a b t"
proof (cases "t = STRING \<or> t = BINARY")
  case True
  then show ?thesis by (auto simp: Equals.simps [of _ _ t] IsVariantNull_def)
next
  case False
  then show ?thesis using assms by (simp add: field_view_other)
qed

lemma EqualGetters_Equals:
  assumes "has_type t (row_field l i)" "has_type t (row_field r j)"
  shows "EqualGetters (\<lambda>a b. Equals a b t) l i r j t = Equals (row_field l i) (row_field r j) t"
  using assms by (simp add: EqualGetters_def GetValue_typed Equals_field_view)

lemma Equals_equivalenceI:
  assumes "\<And>a b. a \<noteq> VNull \<Longrightarrow> b \<noteq> VNull \<Longrightarrow> has_type t a \<Longrightarrow> has_type t b \<Longrightarrow> Equals a b t = Inr (R a b)"
    and "\<And>a. has_type t a \<Longrightarrow> a \<noteq> VNull \<Longrightarrow> R a a"
    and "\<And>a b. has_type t a \<Longrightarrow> has_type t b \<Longrightarrow> a \<noteq> VNull \<Longrightarrow> b \<noteq> VNull \<Longrightarrow> R a b \<Longrightarrow> R b a"
    and "\<And>a b c. has_type t a \<Longrightarrow> has_type t b \<Longrightarrow> has_type t c \<Longrightarrow> a \<noteq> VNull \<Longrightarrow> b \<noteq> VNull \<Longrightarrow> c \<noteq> VNull \<Longrightarrow>
      R a b \<Longrightarrow> R b c \<Longrightarrow> R a c"
  shows "value_equality (has_type t) (\<lambda>a b. Equals a b t)"
proof
  have iff: "Equals x y t = Inr (if x = VNull \<or> y = VNull then x = VNull \<and> y = VNull else R x y)"
    if "has_type t x" "has_type t y" for x y
    using that assms(1) [of x y] by (cases "x = VNull"; cases "y = VNull") simp_all
  fix a b c assume typed: "has_type t a" "has_type t b" "has_type t c"
  show "is_ok (Equals a b t)" using iff typed by simp
  show "Equals a a t = Inr True" using iff typed assms(2) [of a] by simp
  have R: "(Equals x y t = Inr True) = (x = VNull \<and> y = VNull \<or> x \<noteq> VNull \<and> y \<noteq> VNull \<and> R x y)"
    if "has_type t x" "has_type t y" for x y using iff [OF that] by simp
  show "Equals b a t = Inr True" if "Equals a b t = Inr True"
    using that assms(3) [of a b] unfolding R [OF typed(1,2)] R [OF typed(2,1)] using typed by blast
  show "Equals a c t = Inr True" if "Equals a b t = Inr True" "Equals b c t = Inr True"
    using that assms(4) [of a b c] unfolding R [OF typed(1,2)] R [OF typed(2,3)] R [OF typed(1,3)] using typed by blast
qed

lemma Equals_by_key:
  assumes "\<And>a b. a \<noteq> VNull \<Longrightarrow> b \<noteq> VNull \<Longrightarrow> has_type t a \<Longrightarrow> has_type t b \<Longrightarrow> Equals a b t = Inr (key a = key b)"
  shows "value_equality (has_type t) (\<lambda>a b. Equals a b t)"
  by (rule Equals_equivalenceI [where R = "\<lambda>a b. key a = key b"]) (simp_all add: assms)

lemma CompareFloatingPoint_0: "CompareFloatingPoint a b = 0 \<longleftrightarrow> fp_key a = fp_key b"
  by (simp add: CompareFloatingPoint_key cmp_simps)

lemma typed_decimal: "has_type (DECIMAL128 p s) v \<Longrightarrow> v \<noteq> VNull \<Longrightarrow> \<exists>d. v = VDecimal d \<and> scale d = s"
  by (cases v) (auto simp: has_type_nested)

lemma Equals_scalar:
  assumes "\<not> (\<exists>fs. t = STRUCT fs)" "\<not> (\<exists>e. t = LIST e \<or> t = FIXED_SIZE_LIST e)" "\<not> (\<exists>k v. t = MAP k v)" "t \<noteq> OTHER_TYPE"
  shows "value_equality (has_type t) (\<lambda>a b. Equals a b t)"
proof (cases t)
  case (DECIMAL128 p s)
  show ?thesis
    by (rule Equals_by_key [where key = "\<lambda>v. dvalue (variant_decimal v)"])
      (auto simp: DECIMAL128 Equals.simps IsVariantNull_def CompareTo_same_scale sgn_0_0 dest!: typed_decimal)
next
  case FLOAT
  show ?thesis by (rule Equals_by_key [where key = "\<lambda>v. fp_key (variant_float v)"])
      (simp add: FLOAT Equals.simps IsVariantNull_def CompareFloatingPoint_0)
next
  case DOUBLE
  show ?thesis by (rule Equals_by_key [where key = "\<lambda>v. fp_key (variant_double v)"])
      (simp add: DOUBLE Equals.simps IsVariantNull_def CompareFloatingPoint_0)
next
  case BOOL
  show ?thesis by (rule Equals_by_key [where key = variant_bool]) (simp add: BOOL Equals.simps IsVariantNull_def)
next
  case INT8
  show ?thesis by (rule Equals_by_key [where key = variant_char]) (simp add: INT8 Equals.simps IsVariantNull_def)
next
  case INT16
  show ?thesis by (rule Equals_by_key [where key = variant_int16]) (simp add: INT16 Equals.simps IsVariantNull_def)
next
  case INT32
  show ?thesis by (rule Equals_by_key [where key = variant_int32]) (simp add: INT32 Equals.simps IsVariantNull_def)
next
  case DATE32
  show ?thesis by (rule Equals_by_key [where key = variant_int32]) (simp add: DATE32 Equals.simps IsVariantNull_def)
next
  case INT64
  show ?thesis by (rule Equals_by_key [where key = variant_int64]) (simp add: INT64 Equals.simps IsVariantNull_def)
next
  case STRING
  show ?thesis by (rule Equals_by_key [where key = VariantStringView]) (simp add: STRING Equals.simps IsVariantNull_def)
next
  case BINARY
  show ?thesis by (rule Equals_by_key [where key = VariantStringView]) (simp add: BINARY Equals.simps IsVariantNull_def)
next
  case TIMESTAMP
  show ?thesis by (rule Equals_by_key [where key = variant_timestamp]) (simp add: TIMESTAMP Equals.simps IsVariantNull_def)
qed (use assms in auto)

lemma EqualArrays_typed:
  assumes "value_equality (has_type t) (\<lambda>a b. Equals a b t)" "\<forall>x\<in>set l. has_type t x" "\<forall>x\<in>set r. has_type t x"
  shows "EqualArrays (\<lambda>a b. Equals a b t) l r t = Inr (list_all2 (\<lambda>a b. Equals a b t = Inr True) l r)"
proof (cases "length l = length r")
  case True
  have "rall (\<lambda>i. EqualGetters (\<lambda>a b. Equals a b t) l i r i t) [0..<length l] =
      Inr (\<forall>i\<in>set [0..<length l]. Equals (l ! i) (r ! i) t = Inr True)"
    by (rule rall_Inr)
      (use True assms(2,3) value_equality.eq_Inr [OF assms(1)] in \<open>simp add: EqualGetters_Equals\<close>)
  then show ?thesis using True by (auto simp: EqualArrays_def list_all2_conv_all_nth)
qed (simp add: EqualArrays_def list_all2_conv_all_nth)

lemma Equals_array:
  assumes e: "value_equality (has_type e) (\<lambda>a b. Equals a b e)" and t: "t = LIST e \<or> t = FIXED_SIZE_LIST e"
  shows "value_equality (has_type t) (\<lambda>a b. Equals a b t)"
proof (rule Equals_equivalenceI [where R = "\<lambda>a b. list_all2 (\<lambda>a b. Equals a b e = Inr True) (variant_array a) (variant_array b)"])
  have typed: "\<forall>x\<in>set (variant_array a). has_type e x" if "has_type t a" for a
    using t that by (cases a) (auto simp: has_type_nested)
  fix a b c assume a: "has_type t a" and b: "has_type t b" and c: "has_type t c"
  show "Equals a b t = Inr (list_all2 (\<lambda>a b. Equals a b e = Inr True) (variant_array a) (variant_array b))"
    if "a \<noteq> VNull" "b \<noteq> VNull"
    using t that EqualArrays_typed [OF e typed [OF a] typed [OF b]]
    by (auto simp: Equals.simps [of _ _ t] IsVariantNull_def)
  show "list_all2 (\<lambda>a b. Equals a b e = Inr True) (variant_array a) (variant_array a)"
    using typed [OF a] value_equality.eq_refl [OF e] by (simp add: list_all2_same)
  show "list_all2 (\<lambda>a b. Equals a b e = Inr True) (variant_array b) (variant_array a)"
    if "list_all2 (\<lambda>a b. Equals a b e = Inr True) (variant_array a) (variant_array b)"
    using that typed [OF a] typed [OF b] value_equality.eq_sym [OF e] by (simp add: list_all2_conv_all_nth)
  show "list_all2 (\<lambda>a b. Equals a b e = Inr True) (variant_array a) (variant_array c)"
    if "list_all2 (\<lambda>a b. Equals a b e = Inr True) (variant_array a) (variant_array b)"
      "list_all2 (\<lambda>a b. Equals a b e = Inr True) (variant_array b) (variant_array c)"
    unfolding list_all2_conv_all_nth
  proof (intro conjI allI impI)
    show "length (variant_array a) = length (variant_array c)" using that by (simp add: list_all2_conv_all_nth)
    fix i assume i: "i < length (variant_array a)"
    show "Equals (variant_array a ! i) (variant_array c ! i) e = Inr True"
      by (rule value_equality.eq_trans [OF e, of _ "variant_array b ! i"])
        (use that i typed [OF a] typed [OF b] typed [OF c] in \<open>simp_all add: list_all2_conv_all_nth\<close>)
  qed
qed

definition same_fields :: "(string \<times> arrow_type) list \<Rightarrow> RowKind \<times> row \<Rightarrow> RowKind \<times> row \<Rightarrow> bool" where
  "same_fields fs l r \<longleftrightarrow> fst l = fst r \<and> (\<forall>i<length fs. Equals (snd l ! i) (snd r ! i) (snd (fs ! i)) = Inr True)"

lemma Equals_struct:
  assumes e: "\<And>i. i < length fs \<Longrightarrow> value_equality (has_type (snd (fs ! i))) (\<lambda>a b. Equals a b (snd (fs ! i)))"
  shows "value_equality (has_type (STRUCT fs)) (\<lambda>a b. Equals a b (STRUCT fs))"
proof (rule Equals_equivalenceI [where R = "\<lambda>a b. same_fields fs (variant_row a) (variant_row b)"])
  have typed: "length (snd (variant_row a)) = length fs"
    "\<And>i. i < length fs \<Longrightarrow> has_type (snd (fs ! i)) (snd (variant_row a) ! i)"
    if "has_type (STRUCT fs) a" "a \<noteq> VNull" for a
    using that by (cases a; auto simp: has_type_nested)+
  fix a b c assume a: "has_type (STRUCT fs) a" "a \<noteq> VNull"
  show "same_fields fs (variant_row a) (variant_row a)"
    using typed [OF a] value_equality.eq_refl [OF e] by (simp add: same_fields_def)
  assume b: "has_type (STRUCT fs) b" "b \<noteq> VNull"
  have "rall (\<lambda>i. EqualGetters (\<lambda>a b. Equals a b (snd (fs ! i))) (snd (variant_row a)) i (snd (variant_row b)) i (snd (fs ! i)))
      [0..<length fs] = Inr (\<forall>i\<in>set [0..<length fs].
        Equals (snd (variant_row a) ! i) (snd (variant_row b) ! i) (snd (fs ! i)) = Inr True)"
    by (rule rall_Inr)
      (use typed [OF a] typed [OF b] value_equality.eq_Inr [OF e] in \<open>simp add: EqualGetters_Equals\<close>)
  then show "Equals a b (STRUCT fs) = Inr (same_fields fs (variant_row a) (variant_row b))"
    using a b typed [OF a] typed [OF b]
    by (auto simp: Equals.simps [of a] IsVariantNull_def EqualRows_def same_fields_def)
  show "same_fields fs (variant_row b) (variant_row a)" if "same_fields fs (variant_row a) (variant_row b)"
    using that typed [OF a] typed [OF b] value_equality.eq_sym [OF e] by (simp add: same_fields_def)
  assume c: "has_type (STRUCT fs) c" "c \<noteq> VNull"
  show "same_fields fs (variant_row a) (variant_row c)"
    if "same_fields fs (variant_row a) (variant_row b)" "same_fields fs (variant_row b) (variant_row c)"
    unfolding same_fields_def
  proof (intro conjI allI impI)
    show "fst (variant_row a) = fst (variant_row c)" using that by (simp add: same_fields_def)
    fix i assume i: "i < length fs"
    show "Equals (snd (variant_row a) ! i) (snd (variant_row c) ! i) (snd (fs ! i)) = Inr True"
      by (rule value_equality.eq_trans [OF e [OF i], of _ "snd (variant_row b) ! i"])
        (use that i typed [OF a] typed [OF b] typed [OF c] in \<open>simp_all add: same_fields_def\<close>)
  qed
qed

text \<open>Two maps are equal when their entries can be paired off.\<close>

definition same_entry :: "arrow_type \<Rightarrow> arrow_type \<Rightarrow> variant \<times> variant \<Rightarrow> variant \<times> variant \<Rightarrow> bool" where
  "same_entry k v x y \<longleftrightarrow> Equals (fst x) (fst y) k = Inr True \<and> Equals (snd x) (snd y) v = Inr True"

definition same_entries :: "arrow_type \<Rightarrow> arrow_type \<Rightarrow> (variant \<times> variant) list \<Rightarrow> (variant \<times> variant) list \<Rightarrow> bool" where
  "same_entries k v l r \<longleftrightarrow> length l = length r \<and>
     (\<exists>f. inj_on f {..<length l} \<and> (\<forall>i<length l. f i < length l \<and> same_entry k v (l ! i) (r ! f i)))"

definition entry_typed :: "arrow_type \<Rightarrow> arrow_type \<Rightarrow> variant \<times> variant \<Rightarrow> bool" where
  "entry_typed k v x \<longleftrightarrow> has_type k (fst x) \<and> has_type v (snd x)"

lemma same_entry_equivalence:
  assumes "value_equality (has_type k) (\<lambda>a b. Equals a b k)" "value_equality (has_type v) (\<lambda>a b. Equals a b v)"
  shows "value_equality (entry_typed k v) (\<lambda>x y. Inr (same_entry k v x y))"
proof
  fix x y z assume x: "entry_typed k v x" and y: "entry_typed k v y" and z: "entry_typed k v z"
  show "is_ok (Inr (same_entry k v x y))" by simp
  show "Inr (same_entry k v x x) = Inr True"
    using x value_equality.eq_refl [OF assms(1)] value_equality.eq_refl [OF assms(2)] by (simp add: same_entry_def entry_typed_def)
  show "Inr (same_entry k v y x) = Inr True" if "Inr (same_entry k v x y) = Inr True"
    using that x y value_equality.eq_sym [OF assms(1)] value_equality.eq_sym [OF assms(2)]
    by (simp add: same_entry_def entry_typed_def)
  show "Inr (same_entry k v x z) = Inr True"
    if "Inr (same_entry k v x y) = Inr True" "Inr (same_entry k v y z) = Inr True"
    using that x y z value_equality.eq_trans [OF assms(1), of "fst x" "fst y" "fst z"]
      value_equality.eq_trans [OF assms(2), of "snd x" "snd y" "snd z"]
    by (simp add: same_entry_def entry_typed_def)
qed

lemma EqualMaps_typed:
  assumes k: "value_equality (has_type k) (\<lambda>a b. Equals a b k)" and v: "value_equality (has_type v) (\<lambda>a b. Equals a b v)"
    and l: "\<forall>x\<in>set l. entry_typed k v x" and r: "\<forall>x\<in>set r. entry_typed k v x"
  shows "EqualMaps (\<lambda>a b. Equals a b k) (\<lambda>a b. Equals a b v) l r k v = Inr (same_entries k v l r)"
proof (cases "length l = length r")
  case True
  let ?n = "length l"
  let ?eq = "\<lambda>i j. rbind (EqualGetters (\<lambda>a b. Equals a b k) (map fst l) i (map fst r) j k) (\<lambda>key_equal.
        if \<not> key_equal then Inr False else EqualGetters (\<lambda>a b. Equals a b v) (map snd l) i (map snd r) j v)"
  let ?E = "\<lambda>i j. i < ?n \<and> j < ?n \<and> same_entry k v (l ! i) (r ! j)"
  have typed: "entry_typed k v (l ! i)" "entry_typed k v (r ! i)" if "i < ?n" for i using that l r True by simp_all
  have eq: "?eq i j = Inr (?E i j)" if "i < ?n" "j < ?n" for i j
    using typed(1) [OF that(1)] typed(2) [OF that(2)] that True
      value_equality.eq_Inr [OF k, of "fst (l ! i)" "fst (r ! j)"] value_equality.eq_Inr [OF v, of "snd (l ! i)" "snd (r ! j)"]
    by (cases "Equals (fst (l ! i)) (fst (r ! j)) k = Inr True")
      (auto simp: entry_typed_def same_entry_def EqualGetters_Equals)
  have rect: "?E i' j'" if "?E i j" "?E i' j" "?E i j'" for i j i' j'
    using that typed value_equality.eq_sym [OF same_entry_equivalence [OF k v], of "l ! i" "r ! j"]
      value_equality.eq_trans [OF same_entry_equivalence [OF k v], of "l ! i'" "r ! j" "l ! i"]
      value_equality.eq_trans [OF same_entry_equivalence [OF k v], of "l ! i'" "l ! i" "r ! j'"] by simp
  have "match_entries ?eq (replicate (length r) False) [0..<?n] =
      Inr (\<exists>f. inj_on f (set [0..<?n]) \<and> (\<forall>i\<in>set [0..<?n]. f i < length (replicate (length r) False) \<and>
        \<not> replicate (length r) False ! f i \<and> ?E i (f i)))"
  proof (rule match_entries_injection [where E = ?E])
    show "?E i' j'" if "?E i j" "?E i' j" "?E i j'" for i j i' j' by (rule rect [OF that])
  qed (use eq True in simp_all)
  also have "\<dots> = Inr (same_entries k v l r)"
    using True by (auto simp: same_entries_def atLeast0LessThan)
  finally show ?thesis using True by (simp add: EqualMaps_def)
qed (simp add: EqualMaps_def same_entries_def)

lemma same_entries_sym:
  assumes e: "value_equality (entry_typed k v) (\<lambda>x y. Inr (same_entry k v x y))"
    and l: "\<forall>x\<in>set l. entry_typed k v x" and r: "\<forall>x\<in>set r. entry_typed k v x" and same: "same_entries k v l r"
  shows "same_entries k v r l"
proof -
  obtain f where n: "length l = length r" and inj: "inj_on f {..<length l}"
    and f: "\<And>i. i < length l \<Longrightarrow> f i < length l \<and> same_entry k v (l ! i) (r ! f i)"
    using same by (auto simp: same_entries_def)
  have bij: "bij_betw f {..<length l} {..<length l}"
    using inj f endo_inj_surj [of "{..<length l}" f] by (auto simp: bij_betw_def image_subset_iff)
  let ?g = "the_inv_into {..<length l} f"
  have g: "?g j < length l" "f (?g j) = j" if "j < length l" for j
    using that bij the_inv_into_into [OF inj, of j "{..<length l}"] f_the_inv_into_f [OF inj, of j]
    by (auto simp: bij_betw_def)
  have "inj_on ?g {..<length r}" using bij_betw_the_inv_into [OF bij] n by (simp add: bij_betw_def)
  moreover have "?g j < length r \<and> same_entry k v (r ! j) (l ! ?g j)" if "j < length r" for j
    using that n g [of j] f [of "?g j"] l r value_equality.eq_sym [OF e, of "l ! ?g j" "r ! j"] by simp
  ultimately show ?thesis using n by (auto simp: same_entries_def)
qed

lemma same_entries_trans:
  assumes e: "value_equality (entry_typed k v) (\<lambda>x y. Inr (same_entry k v x y))"
    and typed: "\<forall>x\<in>set l. entry_typed k v x" "\<forall>x\<in>set m. entry_typed k v x" "\<forall>x\<in>set r. entry_typed k v x"
    and "same_entries k v l m" "same_entries k v m r"
  shows "same_entries k v l r"
proof -
  obtain f g where n: "length l = length m" "length m = length r" and inj: "inj_on f {..<length l}" "inj_on g {..<length l}"
    and f: "\<And>i. i < length l \<Longrightarrow> f i < length l \<and> same_entry k v (l ! i) (m ! f i)"
    and g: "\<And>i. i < length l \<Longrightarrow> g i < length l \<and> same_entry k v (m ! i) (r ! g i)"
    using assms(5,6) by (auto simp: same_entries_def)
  have "inj_on (g \<circ> f) {..<length l}"
    using inj f by (intro comp_inj_on) (auto intro: inj_on_subset)
  moreover have "(g \<circ> f) i < length l \<and> same_entry k v (l ! i) (r ! (g \<circ> f) i)" if "i < length l" for i
    using that n f [of i] g [of "f i"] typed value_equality.eq_trans [OF e, of "l ! i" "m ! f i" "r ! g (f i)"] by simp
  ultimately show ?thesis using n by (auto simp: same_entries_def)
qed

lemma Equals_map:
  assumes k: "value_equality (has_type k) (\<lambda>a b. Equals a b k)" and v: "value_equality (has_type v) (\<lambda>a b. Equals a b v)"
  shows "value_equality (has_type (MAP k v)) (\<lambda>a b. Equals a b (MAP k v))"
proof (rule Equals_equivalenceI [where R = "\<lambda>a b. same_entries k v (variant_map a) (variant_map b)"])
  note e = same_entry_equivalence [OF k v]
  have typed: "\<forall>x\<in>set (variant_map a). entry_typed k v x" if "has_type (MAP k v) a" for a
    using that by (cases a) (auto simp: has_type_nested entry_typed_def)
  fix a b c assume a: "has_type (MAP k v) a" and b: "has_type (MAP k v) b" and c: "has_type (MAP k v) c"
  show "Equals a b (MAP k v) = Inr (same_entries k v (variant_map a) (variant_map b))" if "a \<noteq> VNull" "b \<noteq> VNull"
    using that EqualMaps_typed [OF k v typed [OF a] typed [OF b]] by (simp add: Equals.simps [of a] IsVariantNull_def)
  show "same_entries k v (variant_map a) (variant_map a)"
  proof -
    have "same_entry k v x x" if "x \<in> set (variant_map a)" for x
      using that typed [OF a] value_equality.eq_refl [OF e, of x] by simp
    then show ?thesis unfolding same_entries_def by (intro conjI exI [of _ id]) simp_all
  qed
  show "same_entries k v (variant_map b) (variant_map a)" if "same_entries k v (variant_map a) (variant_map b)"
    using same_entries_sym [OF e typed [OF a] typed [OF b] that] .
  show "same_entries k v (variant_map a) (variant_map c)"
    if "same_entries k v (variant_map a) (variant_map b)" "same_entries k v (variant_map b) (variant_map c)"
    using same_entries_trans [OF e typed [OF a] typed [OF b] typed [OF c] that] .
qed

lemma Equals_equivalence: "value_equality (has_type t) (\<lambda>a b. Equals a b t)"
proof (induction t)
  case (STRUCT fs)
  show ?case
  proof (rule Equals_struct)
    fix i assume "i < length fs"
    then show "value_equality (has_type (snd (fs ! i))) (\<lambda>a b. Equals a b (snd (fs ! i)))"
      using STRUCT [of "fs ! i" "snd (fs ! i)"] by (cases "fs ! i") (simp add: in_set_conv_nth, metis nth_mem)
  qed
next
  case OTHER_TYPE
  have "a = VNull" if "has_type OTHER_TYPE a" for a using that by (cases a) (simp_all add: has_type_nested)
  then show ?case by (intro Equals_equivalenceI [where R = "\<lambda>_ _. True"]) auto
qed (auto intro: Equals_array Equals_map Equals_scalar)

interpretation field_equality: value_equality "has_type t" "\<lambda>a b. Equals a b t" for t
  by (rule Equals_equivalence)

text \<open>
  Equal values of a hashable type have the same hash. Two NaNs compare equal whatever their bits; the
  canonical bits make their hashes agree.
\<close>

lemma fp_key_eq: "fp_key a = fp_key b \<longleftrightarrow> isnan a \<and> isnan b \<or> a = b"
  by (cases a; cases b) (auto simp: fp_key_def split: if_splits)

lemma Canonicalize_eq:
  assumes "fp_key a = fp_key b"
  shows "CanonicalizeFloatToIntBits a = CanonicalizeFloatToIntBits b"
    "CanonicalizeDoubleToLongBits a = CanonicalizeDoubleToLongBits b"
  using assms by (auto simp: fp_key_eq CanonicalizeFloatToIntBits_def CanonicalizeDoubleToLongBits_def)

lemma Hash_Equals:
  assumes "IsHashableType t" "Equals a b t = Inr True"
  shows "Hash h a t = Hash h b t"
proof (cases "a = VNull \<or> b = VNull")
  case False
  then show ?thesis using assms
    by (cases t) (auto simp: Equals.simps Hash_def IsVariantNull_def CompareFloatingPoint_0 Let_def dest: Canonicalize_eq)
qed (use assms in \<open>auto split: if_splits\<close>)

section \<open>Properties\<close>

text \<open>
  C20. On the values of any type, nested ones included, the equality the aggregators use returns no error and
  is an equivalence relation; and equal values of a type that \<open>IsHashableType\<close> accepts have equal hashes,
  whatever the hash functions of the library, which is what the hash sets and hash maps of the aggregators
  need. Among them are NaNs of different bits, which are equal and hash alike.
\<close>

theorem Equals_equivalence_hash:
  "value_equality (has_type t) (\<lambda>a b. Equals a b t) \<and>
   (IsHashableType t \<longrightarrow> Equals a b t = Inr True \<longrightarrow> Hash h a t = Hash h b t)"
  using Equals_equivalence Hash_Equals by blast

definition example_hash :: std_hash where
  "example_hash = \<lparr>type_id = (\<lambda>_. 11), hash_bool = (\<lambda>b. if b then 1 else 0), hash_char = ucast, hash_int16 = ucast,
     hash_int32 = ucast, hash_int64 = id, hash_string = (\<lambda>s. word_of_int (int (length s)))\<rparr>"

theorem Equals_equivalence_hash_witness:
  "value_equality (has_type FLOAT) (\<lambda>a b. Equals a b FLOAT) \<and>
   Equals (VFloat (NaN False 1)) (VFloat (NaN True 5)) FLOAT = Inr True \<and>
   Hash example_hash (VFloat (NaN False 1)) FLOAT = Hash example_hash (VFloat (NaN True 5)) FLOAT"
  using Equals_equivalence_hash [of FLOAT "VFloat (NaN False 1)" "VFloat (NaN True 5)" example_hash]
  by (simp add: Equals.simps IsVariantNull_def CompareFloatingPoint_def)

end
