(* ===== verification/Scalar_Aggregators.thy ===== *)
theory Scalar_Aggregators
  imports Field_Values
begin

unbundle bit_operations_syntax

text \<open>
  The field aggregators that keep, compare or add values (\<^verbatim>\<open>core/mergetree/compact/aggregate\<close>): the
  boolean ones, first and last value, the primary key, max, min and sum. Machine integers keep their width
  and a sum wraps around. The lemmas show that a sum of additions and retractions is the exact balance modulo
  the width, and that max and min follow the key order.
\<close>

section \<open>Aggregators that keep a value\<close>

text \<open>Where one of the values is null, most aggregators return the other one.\<close>

definition skip_null :: "(variant \<Rightarrow> variant \<Rightarrow> variant result) \<Rightarrow> variant \<Rightarrow> variant \<Rightarrow> variant result" where
  "skip_null f accumulator input_field =
     (let accumulator_null = IsVariantNull accumulator; input_null = IsVariantNull input_field in
      if accumulator_null \<or> input_null then Inr (if accumulator_null then input_field else accumulator)
      else f accumulator input_field)"

definition FieldBoolAndAgg_Create :: "arrow_type \<Rightarrow> unit result" where
  "FieldBoolAndAgg_Create t =
     (if t \<noteq> BOOL then Inl (Invalid ''invalid field type {} for {}, supposed to be boolean'') else Inr ())"

definition FieldBoolAndAgg_Agg :: "variant \<Rightarrow> variant \<Rightarrow> variant result" where
  "FieldBoolAndAgg_Agg = skip_null (\<lambda>accumulator input_field.
     Inr (VBool (variant_bool accumulator \<and> variant_bool input_field)))"

definition FieldBoolOrAgg_Create :: "arrow_type \<Rightarrow> unit result" where
  "FieldBoolOrAgg_Create t =
     (if t \<noteq> BOOL then Inl (Invalid ''invalid field type {} for {}, supposed to be boolean'') else Inr ())"

definition FieldBoolOrAgg_Agg :: "variant \<Rightarrow> variant \<Rightarrow> variant result" where
  "FieldBoolOrAgg_Agg = skip_null (\<lambda>accumulator input_field.
     Inr (VBool (variant_bool accumulator \<or> variant_bool input_field)))"

text \<open>The first value aggregators have a flag, returned updated.\<close>

definition FieldFirstNonNullValueAgg_Agg :: "bool \<Rightarrow> variant \<Rightarrow> variant \<Rightarrow> variant \<times> bool" where
  "FieldFirstNonNullValueAgg_Agg initialized accumulator input_field =
     (if \<not> initialized \<and> \<not> IsVariantNull input_field then (input_field, True) else (accumulator, initialized))"

definition FieldFirstValueAgg_Agg :: "bool \<Rightarrow> variant \<Rightarrow> variant \<Rightarrow> variant \<times> bool" where
  "FieldFirstValueAgg_Agg initialized accumulator input_field =
     (if \<not> initialized then (input_field, True) else (accumulator, initialized))"

definition FieldLastNonNullValueAgg_Agg :: "variant \<Rightarrow> variant \<Rightarrow> variant" where
  "FieldLastNonNullValueAgg_Agg accumulator input_field =
     (if IsVariantNull input_field then accumulator else input_field)"

definition FieldLastNonNullValueAgg_Retract :: "variant \<Rightarrow> variant \<Rightarrow> variant" where
  "FieldLastNonNullValueAgg_Retract accumulator input_field =
     (if IsVariantNull input_field then accumulator else VNull)"

definition FieldLastValueAgg_Agg :: "variant \<Rightarrow> variant \<Rightarrow> variant" where
  "FieldLastValueAgg_Agg accumulator input_field = input_field"

definition FieldLastValueAgg_Retract :: "variant \<Rightarrow> variant \<Rightarrow> variant" where
  "FieldLastValueAgg_Retract accumulator input_field = VNull"

definition FieldPrimaryKeyAgg_Agg :: "variant \<Rightarrow> variant \<Rightarrow> variant" where
  "FieldPrimaryKeyAgg_Agg accumulator input_field = input_field"

definition FieldPrimaryKeyAgg_Retract :: "variant \<Rightarrow> variant \<Rightarrow> variant" where
  "FieldPrimaryKeyAgg_Retract accumulator input_field = input_field"

section \<open>Max and min\<close>

text \<open>
  \<open>std::variant\<close>'s \<open>operator<\<close>: the positions of the alternatives, then the values. The alternatives
  that no aggregator compares this way are not distinguished.
\<close>

fun variant_index :: "variant \<Rightarrow> nat" where
  "variant_index VNull = 0"
| "variant_index (VBool _) = 1"
| "variant_index (VByte _) = 2"
| "variant_index (VShort _) = 3"
| "variant_index (VInt _) = 4"
| "variant_index (VLong _) = 5"
| "variant_index (VFloat _) = 6"
| "variant_index (VDouble _) = 7"
| "variant_index (VString _) = 8"
| "variant_index (VBytes _) = 9"
| "variant_index (VTimestamp _) = 10"
| "variant_index (VDecimal _) = 11"
| "variant_index (VRow _ _) = 12"
| "variant_index (VArray _) = 13"
| "variant_index (VMap _) = 14"
| "variant_index (VStringView _) = 15"

definition variant_less :: "variant \<Rightarrow> variant \<Rightarrow> bool" where
  "variant_less a b \<longleftrightarrow>
     (if variant_index a \<noteq> variant_index b then variant_index a < variant_index b
      else case a of
        VShort x \<Rightarrow> sint x < sint (variant_int16 b)
      | VInt x \<Rightarrow> sint x < sint (variant_int32 b)
      | VLong x \<Rightarrow> sint x < sint (variant_int64 b)
      | VString x \<Rightarrow> x < VariantStringView b
      | VTimestamp x \<Rightarrow> timestamp_less x (variant_timestamp b)
      | VDecimal x \<Rightarrow> CompareTo x (variant_decimal b) < 0
      | VStringView x \<Rightarrow> x < VariantStringView b
      | _ \<Rightarrow> False)"

fun CreateMaxFunc :: "arrow_type \<Rightarrow> (variant \<Rightarrow> variant \<Rightarrow> variant) result" where
  "CreateMaxFunc INT8 = Inr (\<lambda>a i. if sint (variant_char a) < sint (variant_char i) then i else a)"
| "CreateMaxFunc INT16 = Inr (\<lambda>a i. if variant_less a i then i else a)"
| "CreateMaxFunc INT32 = Inr (\<lambda>a i. if variant_less a i then i else a)"
| "CreateMaxFunc DATE32 = Inr (\<lambda>a i. if variant_less a i then i else a)"
| "CreateMaxFunc INT64 = Inr (\<lambda>a i. if variant_less a i then i else a)"
| "CreateMaxFunc TIMESTAMP = Inr (\<lambda>a i. if variant_less a i then i else a)"
| "CreateMaxFunc (DECIMAL128 p s) = Inr (\<lambda>a i. if variant_less a i then i else a)"
| "CreateMaxFunc STRING = Inr (\<lambda>a i. if variant_less a i then i else a)"
| "CreateMaxFunc BINARY = Inr (\<lambda>a i. if variant_less a i then i else a)"
| "CreateMaxFunc FLOAT = Inr (\<lambda>a i. if CompareFloatingPoint (variant_float a) (variant_float i) < 0 then i else a)"
| "CreateMaxFunc DOUBLE = Inr (\<lambda>a i. if CompareFloatingPoint (variant_double a) (variant_double i) < 0 then i else a)"
| "CreateMaxFunc _ = Inl (Invalid ''type {} not support in FieldMaxAgg'')"

fun CreateMinFunc :: "arrow_type \<Rightarrow> (variant \<Rightarrow> variant \<Rightarrow> variant) result" where
  "CreateMinFunc INT8 = Inr (\<lambda>a i. if sint (variant_char a) < sint (variant_char i) then a else i)"
| "CreateMinFunc INT16 = Inr (\<lambda>a i. if variant_less a i then a else i)"
| "CreateMinFunc INT32 = Inr (\<lambda>a i. if variant_less a i then a else i)"
| "CreateMinFunc DATE32 = Inr (\<lambda>a i. if variant_less a i then a else i)"
| "CreateMinFunc INT64 = Inr (\<lambda>a i. if variant_less a i then a else i)"
| "CreateMinFunc TIMESTAMP = Inr (\<lambda>a i. if variant_less a i then a else i)"
| "CreateMinFunc (DECIMAL128 p s) = Inr (\<lambda>a i. if variant_less a i then a else i)"
| "CreateMinFunc STRING = Inr (\<lambda>a i. if variant_less a i then a else i)"
| "CreateMinFunc BINARY = Inr (\<lambda>a i. if variant_less a i then a else i)"
| "CreateMinFunc FLOAT = Inr (\<lambda>a i. if CompareFloatingPoint (variant_float a) (variant_float i) < 0 then a else i)"
| "CreateMinFunc DOUBLE = Inr (\<lambda>a i. if CompareFloatingPoint (variant_double a) (variant_double i) < 0 then a else i)"
| "CreateMinFunc _ = Inl (Invalid ''type {} not support in FieldMinAgg'')"

definition FieldMaxAgg_Agg :: "(variant \<Rightarrow> variant \<Rightarrow> variant) \<Rightarrow> variant \<Rightarrow> variant \<Rightarrow> variant result" where
  "FieldMaxAgg_Agg max_func = skip_null (\<lambda>a i. Inr (max_func a i))"

definition FieldMinAgg_Agg :: "(variant \<Rightarrow> variant \<Rightarrow> variant) \<Rightarrow> variant \<Rightarrow> variant \<Rightarrow> variant result" where
  "FieldMinAgg_Agg min_func = skip_null (\<lambda>a i. Inr (min_func a i))"

section \<open>Sum\<close>

text \<open>
  Integer addition at the width of the type. Signed overflow, which the language leaves open for the
  32, 64 and 128 bit types, wraps around as the narrower types do.
\<close>

definition wrap128 :: "int \<Rightarrow> int" where
  "wrap128 v = signed_take_bit 127 v"

fun CreateSumFunc :: "arrow_type \<Rightarrow> (variant \<Rightarrow> variant \<Rightarrow> variant) result" where
  "CreateSumFunc INT8 = Inr (\<lambda>a i. VByte (variant_char a + variant_char i))"
| "CreateSumFunc INT16 = Inr (\<lambda>a i. VShort (variant_int16 a + variant_int16 i))"
| "CreateSumFunc INT32 = Inr (\<lambda>a i. VInt (variant_int32 a + variant_int32 i))"
| "CreateSumFunc INT64 = Inr (\<lambda>a i. VLong (variant_int64 a + variant_int64 i))"
| "CreateSumFunc FLOAT = Inr (\<lambda>a i. VFloat (fp_add binary32 (variant_float a) (variant_float i)))"
| "CreateSumFunc DOUBLE = Inr (\<lambda>a i. VDouble (fp_add binary64 (variant_double a) (variant_double i)))"
| "CreateSumFunc (DECIMAL128 p s) = Inr (\<lambda>a i. let v1 = variant_decimal a; v2 = variant_decimal i in
     VDecimal \<lparr>precision = precision v1, scale = scale v1, dvalue = wrap128 (dvalue v1 + dvalue v2)\<rparr>)"
| "CreateSumFunc _ = Inl (Invalid ''type {} not support in FieldSumAgg'')"

fun CreateNegFunc :: "arrow_type \<Rightarrow> (variant \<Rightarrow> variant) result" where
  "CreateNegFunc INT8 = Inr (\<lambda>i. VByte (- variant_char i))"
| "CreateNegFunc INT16 = Inr (\<lambda>i. VShort (- variant_int16 i))"
| "CreateNegFunc INT32 = Inr (\<lambda>i. VInt (- variant_int32 i))"
| "CreateNegFunc INT64 = Inr (\<lambda>i. VLong (- variant_int64 i))"
| "CreateNegFunc FLOAT = Inr (\<lambda>i. VFloat (fp_neg (variant_float i)))"
| "CreateNegFunc DOUBLE = Inr (\<lambda>i. VDouble (fp_neg (variant_double i)))"
| "CreateNegFunc (DECIMAL128 p s) = Inr (\<lambda>i. let v = variant_decimal i in
     VDecimal \<lparr>precision = precision v, scale = scale v, dvalue = wrap128 (- dvalue v)\<rparr>)"
| "CreateNegFunc _ = Inl (Invalid ''type {} not support in FieldSumAgg'')"

definition FieldSumAgg_Agg :: "(variant \<Rightarrow> variant \<Rightarrow> variant) \<Rightarrow> variant \<Rightarrow> variant \<Rightarrow> variant result" where
  "FieldSumAgg_Agg sum_func = skip_null (\<lambda>a i. Inr (sum_func a i))"

definition FieldSumAgg_Retract :: "(variant \<Rightarrow> variant \<Rightarrow> variant) \<Rightarrow> (variant \<Rightarrow> variant) \<Rightarrow> variant \<Rightarrow> variant \<Rightarrow> variant" where
  "FieldSumAgg_Retract sum_func neg_func accumulator input_field =
     (if \<not> IsVariantNull accumulator \<and> \<not> IsVariantNull input_field then sum_func accumulator (neg_func input_field)
      else if \<not> IsVariantNull accumulator then accumulator
      else if \<not> IsVariantNull input_field then neg_func input_field
      else accumulator)"

section \<open>Sums are exact\<close>

text \<open>The integer a value of an integer or decimal type stands for, and the width of the type.\<close>

fun int_value :: "variant \<Rightarrow> int" where
  "int_value (VByte b) = sint b"
| "int_value (VShort b) = sint b"
| "int_value (VInt b) = sint b"
| "int_value (VLong b) = sint b"
| "int_value (VDecimal d) = dvalue d"
| "int_value _ = 0"

fun int_bits :: "arrow_type \<Rightarrow> nat" where
  "int_bits INT8 = 8"
| "int_bits INT16 = 16"
| "int_bits INT32 = 32"
| "int_bits INT64 = 64"
| "int_bits (DECIMAL128 p s) = 128"
| "int_bits _ = 0"

definition sum_step :: "(variant \<Rightarrow> variant \<Rightarrow> variant) \<Rightarrow> (variant \<Rightarrow> variant) \<Rightarrow> variant \<Rightarrow> bool \<times> variant \<Rightarrow> variant result" where
  "sum_step sum_func neg_func acc op =
     (if fst op then Inr (FieldSumAgg_Retract sum_func neg_func acc (snd op)) else FieldSumAgg_Agg sum_func acc (snd op))"

definition signed_value :: "bool \<times> variant \<Rightarrow> int" where
  "signed_value op = (if fst op then - int_value (snd op) else int_value (snd op))"

lemma sint_add_mod: "sint (a + b) mod 2 ^ LENGTH('a) = (sint a + sint b) mod 2 ^ LENGTH('a)" for a b :: "'a::len word"
  by (metis take_bit_eq_mod uint_sint uint_word_ariths(1) mod_add_eq)

lemma sint_minus_mod: "sint (- a) mod 2 ^ LENGTH('a) = (- sint a) mod 2 ^ LENGTH('a)" for a :: "'a::len word"
  by (metis take_bit_eq_mod uint_sint uint_word_ariths(4) mod_minus_eq)

lemma wrap128_mod: "wrap128 v mod 2 ^ 128 = v mod 2 ^ 128"
proof -
  have "take_bit 128 (signed_take_bit 127 v) = take_bit 128 v"
    by (simp add: take_bit_signed_take_bit)
  then show ?thesis by (simp add: wrap128_def take_bit_eq_mod)
qed

lemma typed_shape:
  "has_type INT8 v \<Longrightarrow> v \<noteq> VNull \<Longrightarrow> \<exists>b. v = VByte b"
  "has_type INT16 v \<Longrightarrow> v \<noteq> VNull \<Longrightarrow> \<exists>b. v = VShort b"
  "has_type INT32 v \<Longrightarrow> v \<noteq> VNull \<Longrightarrow> \<exists>b. v = VInt b"
  "has_type DATE32 v \<Longrightarrow> v \<noteq> VNull \<Longrightarrow> \<exists>b. v = VInt b"
  "has_type INT64 v \<Longrightarrow> v \<noteq> VNull \<Longrightarrow> \<exists>b. v = VLong b"
  "has_type TIMESTAMP v \<Longrightarrow> v \<noteq> VNull \<Longrightarrow> \<exists>ts. v = VTimestamp ts"
  "has_type FLOAT v \<Longrightarrow> v \<noteq> VNull \<Longrightarrow> \<exists>f. v = VFloat f"
  "has_type DOUBLE v \<Longrightarrow> v \<noteq> VNull \<Longrightarrow> \<exists>f. v = VDouble f"
  "has_type (DECIMAL128 p s) v \<Longrightarrow> v \<noteq> VNull \<Longrightarrow> \<exists>d. v = VDecimal d \<and> precision d = p \<and> scale d = s"
  by (cases v; simp add: has_type_nested)+

lemma sum_func_value:
  assumes "CreateSumFunc t = Inr f" "t \<noteq> FLOAT" "t \<noteq> DOUBLE" "has_type t a" "has_type t x" "a \<noteq> VNull" "x \<noteq> VNull"
  shows "has_type t (f a x) \<and> f a x \<noteq> VNull \<and>
    int_value (f a x) mod 2 ^ int_bits t = (int_value a + int_value x) mod 2 ^ int_bits t"
  using assms sint_add_mod [where 'a=8] sint_add_mod [where 'a=16] sint_add_mod [where 'a=32] sint_add_mod [where 'a=64]
    wrap128_mod
  by (cases t) (auto simp: Let_def dest!: typed_shape)

lemma neg_func_value:
  assumes "CreateNegFunc t = Inr g" "t \<noteq> FLOAT" "t \<noteq> DOUBLE" "has_type t x" "x \<noteq> VNull"
  shows "has_type t (g x) \<and> g x \<noteq> VNull \<and> int_value (g x) mod 2 ^ int_bits t = (- int_value x) mod 2 ^ int_bits t"
  using assms sint_minus_mod [where 'a=8] sint_minus_mod [where 'a=16] sint_minus_mod [where 'a=32] sint_minus_mod [where 'a=64]
    wrap128_mod
  by (cases t) (auto simp: Let_def dest!: typed_shape)

lemma sum_step_value:
  assumes f: "CreateSumFunc t = Inr f" and g: "CreateNegFunc t = Inr g" and t: "t \<noteq> FLOAT" "t \<noteq> DOUBLE"
    and a: "has_type t a" and x: "has_type t (snd op)"
  shows "\<exists>v. sum_step f g a op = Inr v \<and> has_type t v \<and> (v = VNull \<longleftrightarrow> a = VNull \<and> snd op = VNull) \<and>
    int_value v mod 2 ^ int_bits t = (int_value a + signed_value op) mod 2 ^ int_bits t"
proof (cases "a = VNull \<or> snd op = VNull")
  case True
  then show ?thesis using a x neg_func_value [OF g t x]
    by (auto simp: sum_step_def signed_value_def FieldSumAgg_Agg_def FieldSumAgg_Retract_def skip_null_def Let_def IsVariantNull_def)
next
  case False
  note n = neg_func_value [OF g t x]
  have "(int_value a + int_value (g (snd op))) mod 2 ^ int_bits t = (int_value a + - int_value (snd op)) mod 2 ^ int_bits t"
    using n False by (metis mod_add_right_eq)
  then show ?thesis
    using False a x n sum_func_value [OF f t a, of "g (snd op)"] sum_func_value [OF f t a x]
    by (auto simp: sum_step_def signed_value_def FieldSumAgg_Agg_def FieldSumAgg_Retract_def skip_null_def Let_def IsVariantNull_def)
qed

lemma sum_steps_value:
  assumes "CreateSumFunc t = Inr f" "CreateNegFunc t = Inr g" "t \<noteq> FLOAT" "t \<noteq> DOUBLE"
    and "has_type t a" "\<forall>op\<in>set ops. has_type t (snd op)"
  shows "\<exists>v. rfold (sum_step f g) a ops = Inr v \<and> has_type t v \<and> (v = VNull \<longleftrightarrow> a = VNull \<and> (\<forall>op\<in>set ops. snd op = VNull)) \<and>
    int_value v mod 2 ^ int_bits t = (int_value a + (\<Sum>op\<leftarrow>ops. signed_value op)) mod 2 ^ int_bits t"
  using assms(5,6)
proof (induction ops arbitrary: a)
  case (Cons op ops)
  obtain b where b: "sum_step f g a op = Inr b" "has_type t b" "b = VNull \<longleftrightarrow> a = VNull \<and> snd op = VNull"
    "int_value b mod 2 ^ int_bits t = (int_value a + signed_value op) mod 2 ^ int_bits t"
    using sum_step_value [OF assms(1-4) Cons.prems(1), of op] Cons.prems(2) by auto
  obtain v where v: "rfold (sum_step f g) b ops = Inr v" "has_type t v" "v = VNull \<longleftrightarrow> b = VNull \<and> (\<forall>op\<in>set ops. snd op = VNull)"
    "int_value v mod 2 ^ int_bits t = (int_value b + (\<Sum>op\<leftarrow>ops. signed_value op)) mod 2 ^ int_bits t"
    using Cons.IH [OF b(2)] Cons.prems(2) by auto
  have "int_value v mod 2 ^ int_bits t = (int_value a + (\<Sum>op\<leftarrow>op # ops. signed_value op)) mod 2 ^ int_bits t"
    using v(4) b(4) by (metis (no_types, lifting) add.assoc list.simps(9) mod_add_left_eq sum_list.Cons)
  then show ?case using b v by simp
qed simp

section \<open>Max and min follow the key order\<close>

text \<open>A fold that keeps the later of two values in some order, skipping nulls, ends with the last one.\<close>

lemma pick_fold:
  assumes d: "comparison d"
    and f: "\<And>a x. P a \<Longrightarrow> P x \<Longrightarrow> a \<noteq> VNull \<Longrightarrow> x \<noteq> VNull \<Longrightarrow> f a x \<in> {a, x} \<and> d a (f a x) \<le> 0 \<and> d x (f a x) \<le> 0"
    and "P a" "\<forall>v\<in>set vs. P v"
  shows "\<exists>m. rfold (skip_null (\<lambda>a i. Inr (f a i))) a vs = Inr m \<and>
    (if \<forall>v\<in>set (a # vs). v = VNull then m = VNull
     else m \<noteq> VNull \<and> m \<in> set (a # vs) \<and> (\<forall>v\<in>set (a # vs). v \<noteq> VNull \<longrightarrow> d v m \<le> 0))"
  using assms(3,4)
proof (induction vs arbitrary: a)
  case Nil
  then show ?case using comparison.cmp_refl [OF d, of a] by simp
next
  case (Cons x vs)
  define b where "b = (if a = VNull then x else if x = VNull then a else f a x)"
  have step: "skip_null (\<lambda>a i. Inr (f a i)) a x = Inr b" by (simp add: skip_null_def IsVariantNull_def b_def)
  have fx: "f a x \<in> {a, x}" "d a (f a x) \<le> 0" "d x (f a x) \<le> 0" if "a \<noteq> VNull" "x \<noteq> VNull"
    using f [of a x] Cons.prems that by simp_all
  have b: "b \<in> {a, x}" "b = VNull \<longleftrightarrow> a = VNull \<and> x = VNull" "a \<noteq> VNull \<Longrightarrow> d a b \<le> 0" "x \<noteq> VNull \<Longrightarrow> d x b \<le> 0"
    using fx comparison.cmp_refl [OF d] by (auto simp: b_def)
  have "P b" using b(1) Cons.prems by auto
  then obtain m where m: "rfold (skip_null (\<lambda>a i. Inr (f a i))) b vs = Inr m"
    "if \<forall>v\<in>set (b # vs). v = VNull then m = VNull
     else m \<noteq> VNull \<and> m \<in> set (b # vs) \<and> (\<forall>v\<in>set (b # vs). v \<noteq> VNull \<longrightarrow> d v m \<le> 0)"
    using Cons.IH [of b] Cons.prems(2) by auto
  have le: "d v m \<le> 0" if "d v b \<le> 0" "d b m \<le> 0" for v
    using that comparison.cmp_trans [OF d, of v b m] by simp
  have "if \<forall>v\<in>set (a # x # vs). v = VNull then m = VNull
     else m \<noteq> VNull \<and> m \<in> set (a # x # vs) \<and> (\<forall>v\<in>set (a # x # vs). v \<noteq> VNull \<longrightarrow> d v m \<le> 0)"
    using m(2) b le by (auto split: if_splits)
  then show ?case using m(1) by (simp add: step)
qed

lemma typed_string:
  "has_type STRING v \<Longrightarrow> field_view v = v \<Longrightarrow> v \<noteq> VNull \<Longrightarrow> \<exists>b. v = VStringView b"
  "has_type BINARY v \<Longrightarrow> field_view v = v \<Longrightarrow> v \<noteq> VNull \<Longrightarrow> \<exists>b. v = VStringView b"
  by (cases v; simp add: has_type_nested)+

lemma variant_less_key_order:
  assumes "CompareField 0 t = Inr c" "t \<noteq> BOOL" "t \<noteq> INT8" "t \<noteq> FLOAT" "t \<noteq> DOUBLE"
    and typed: "has_type t a" "has_type t x" "field_view a = a" "field_view x = x" "a \<noteq> VNull" "x \<noteq> VNull"
  shows "variant_less a x \<longleftrightarrow> c [a] [x] < 0"
proof (cases t)
  case INT16
  then obtain u v where "a = VShort u" "x = VShort v" using typed_shape(2) typed by metis
  then show ?thesis using assms(1) by (auto simp: INT16  row_field_def field_defs variant_less_def Let_def split: if_splits)
next
  case INT32
  then obtain u v where "a = VInt u" "x = VInt v" using typed_shape(3) typed by metis
  then show ?thesis using assms(1) by (auto simp: INT32  row_field_def field_defs variant_less_def Let_def split: if_splits)
next
  case DATE32
  then obtain u v where "a = VInt u" "x = VInt v" using typed_shape(4) typed by metis
  then show ?thesis using assms(1) by (auto simp: DATE32  row_field_def field_defs variant_less_def Let_def split: if_splits)
next
  case INT64
  then obtain u v where "a = VLong u" "x = VLong v" using typed_shape(5) typed by metis
  then show ?thesis using assms(1) by (auto simp: INT64  row_field_def field_defs variant_less_def Let_def split: if_splits)
next
  case TIMESTAMP
  then obtain u v where "a = VTimestamp u" "x = VTimestamp v" using typed_shape(6) typed by metis
  then show ?thesis using assms(1) by (auto simp: TIMESTAMP timestamp_less_def row_field_def field_defs variant_less_def Let_def split: if_splits)
next
  case STRING
  then obtain u v where "a = VStringView u" "x = VStringView v" using typed_string(1) typed by metis
  then show ?thesis using assms(1) by (auto simp: STRING cmp_of_def row_field_def field_defs variant_less_def Let_def split: if_splits)
next
  case BINARY
  then obtain u v where "a = VStringView u" "x = VStringView v" using typed_string(2) typed by metis
  then show ?thesis using assms(1) by (auto simp: BINARY cmp_of_def row_field_def field_defs variant_less_def Let_def split: if_splits)
next
  case (DECIMAL128 p s)
  then obtain u v where "a = VDecimal u" "scale u = s" "x = VDecimal v" "scale v = s" using typed_shape(9) typed by metis
  then show ?thesis using assms(1)
    by (auto simp: DECIMAL128 row_field_def field_defs variant_less_def Let_def CompareTo_same_scale sgn_if split: if_splits)
qed (use assms in auto)

lemma char_float_key_order:
  assumes "CompareField 0 t = Inr c" "has_type t a" "has_type t x" "a \<noteq> VNull" "x \<noteq> VNull"
  shows "t = INT8 \<Longrightarrow> sint (variant_char a) < sint (variant_char x) \<longleftrightarrow> c [a] [x] < 0"
    "t = FLOAT \<Longrightarrow> CompareFloatingPoint (variant_float a) (variant_float x) < 0 \<longleftrightarrow> c [a] [x] < 0"
    "t = DOUBLE \<Longrightarrow> CompareFloatingPoint (variant_double a) (variant_double x) < 0 \<longleftrightarrow> c [a] [x] < 0"
  using assms by (auto simp: row_field_def field_defs Let_def dest!: typed_shape split: if_splits)

lemma max_func_key_order:
  assumes "CreateMaxFunc t = Inr f" "CompareField 0 t = Inr c" "has_type t a" "has_type t x"
    "field_view a = a" "field_view x = x" "a \<noteq> VNull" "x \<noteq> VNull"
  shows "f a x = (if c [a] [x] < 0 then x else a)"
  using variant_less_key_order [OF assms(2) _ _ _ _ assms(3-8)] char_float_key_order [OF assms(2-4,7,8)] assms(1)
  by (cases t) auto

lemma min_func_key_order:
  assumes "CreateMinFunc t = Inr f" "CompareField 0 t = Inr c" "has_type t a" "has_type t x"
    "field_view a = a" "field_view x = x" "a \<noteq> VNull" "x \<noteq> VNull"
  shows "f a x = (if c [a] [x] < 0 then a else x)"
  using variant_less_key_order [OF assms(2) _ _ _ _ assms(3-8)] char_float_key_order [OF assms(2-4,7,8)] assms(1)
  by (cases t) auto

lemma pick_laws:
  assumes c: "comparison c"
  shows "(if c a x < 0 then x else a) \<in> {a, x} \<and> c a (if c a x < 0 then x else a) \<le> 0 \<and> c x (if c a x < 0 then x else a) \<le> 0"
    "(if c a x < 0 then a else x) \<in> {a, x} \<and> c (if c a x < 0 then a else x) a \<le> 0 \<and> c (if c a x < 0 then a else x) x \<le> 0"
  using comparison.cmp_refl [OF c] comparison.cmp_flip [OF c, of a x] comparison.cmp_flip_le [OF c, of x a] by auto

lemma max_func_comparator: "CreateMaxFunc t = Inr f \<Longrightarrow> \<exists>c. CompareField 0 t = Inr c"
  by (cases t) simp_all

section \<open>Properties\<close>

text \<open>
  C22. Summing a field over any sequence of additions and retractions, nulls included, never fails and
  gives a value of the type that is the balance of the sequence modulo the width of the type; it is null only if
  every value was null. So retracting a value undoes adding it, in any order.
\<close>

theorem sum_is_balance:
  assumes "CreateSumFunc t = Inr f" "CreateNegFunc t = Inr g" "t \<noteq> FLOAT" "t \<noteq> DOUBLE"
    "\<forall>op\<in>set ops. has_type t (snd op)"
  shows "\<exists>v. rfold (sum_step f g) VNull ops = Inr v \<and> has_type t v \<and> (v = VNull \<longleftrightarrow> (\<forall>op\<in>set ops. snd op = VNull)) \<and>
    int_value v mod 2 ^ int_bits t = (\<Sum>op\<leftarrow>ops. signed_value op) mod 2 ^ int_bits t"
  using sum_steps_value [OF assms(1-4), of VNull ops] assms(5) by simp

theorem sum_is_balance_witness:
  "\<exists>v. rfold (sum_step (\<lambda>a i. VByte (variant_char a + variant_char i)) (\<lambda>i. VByte (- variant_char i))) VNull
     [(False, VByte 100), (False, VByte 100), (True, VNull), (True, VByte 90)] = Inr v \<and> int_value v mod 256 = 110"
  using sum_is_balance [of INT8 "\<lambda>a i. VByte (variant_char a + variant_char i)" "\<lambda>i. VByte (- variant_char i)"
      "[(False, VByte 100), (False, VByte 100), (True, VNull), (True, VByte 90)]"]
  by (auto simp: signed_value_def)

text \<open>
  C33. The max and the min of a field over any sequence of values, as the field getters read them, are null if all
  values are null, and otherwise values of the sequence that are the greatest and the least in the order
  of the key comparator of the type, floating point specials included.
\<close>

theorem max_min_extreme:
  assumes "CreateMaxFunc t = Inr f" "CreateMinFunc t = Inr g" "\<forall>v\<in>set vs. has_type t v \<and> field_view v = v"
  shows "\<exists>c m n. CompareField 0 t = Inr c \<and> rfold (FieldMaxAgg_Agg f) VNull vs = Inr m \<and>
    rfold (FieldMinAgg_Agg g) VNull vs = Inr n \<and>
    (if \<forall>v\<in>set vs. v = VNull then m = VNull \<and> n = VNull
     else m \<in> set vs \<and> n \<in> set vs \<and> (\<forall>v\<in>set vs. v \<noteq> VNull \<longrightarrow> c [v] [m] \<le> 0 \<and> c [n] [v] \<le> 0))"
proof -
  obtain c where c: "CompareField 0 t = Inr c" using max_func_comparator [OF assms(1)] by blast
  let ?d = "\<lambda>a b. c [a] [b]" and ?P = "\<lambda>v. has_type t v \<and> field_view v = v"
  have d: "comparison ?d" by (rule comparison.cmp_on [OF CompareField_comparison [OF c]])
  have d': "comparison (\<lambda>a b. ?d b a)" by (rule comparison.cmp_swapped [OF d])
  have "\<exists>m. rfold (FieldMaxAgg_Agg f) VNull vs = Inr m \<and> (if \<forall>v\<in>set (VNull # vs). v = VNull then m = VNull
     else m \<noteq> VNull \<and> m \<in> set (VNull # vs) \<and> (\<forall>v\<in>set (VNull # vs). v \<noteq> VNull \<longrightarrow> ?d v m \<le> 0))"
    unfolding FieldMaxAgg_Agg_def
    by (rule pick_fold [OF d, where P = ?P])
      (use pick_laws(1) [OF d] max_func_key_order [OF assms(1) c] assms(3) in simp_all)
  moreover have "\<exists>m. rfold (FieldMinAgg_Agg g) VNull vs = Inr m \<and> (if \<forall>v\<in>set (VNull # vs). v = VNull then m = VNull
     else m \<noteq> VNull \<and> m \<in> set (VNull # vs) \<and> (\<forall>v\<in>set (VNull # vs). v \<noteq> VNull \<longrightarrow> ?d m v \<le> 0))"
    unfolding FieldMinAgg_Agg_def
    by (rule pick_fold [OF d', where P = ?P])
      (use pick_laws(2) [OF d] min_func_key_order [OF assms(2) c] assms(3) in simp_all)
  ultimately show ?thesis using c by (auto split: if_splits)
qed

theorem max_min_extreme_witness:
  "rfold (FieldMaxAgg_Agg (\<lambda>a i. if variant_less a i then i else a)) VNull [VShort 3, VNull, VShort (- 5)] = Inr (VShort 3) \<and>
   rfold (FieldMinAgg_Agg (\<lambda>a i. if variant_less a i then a else i)) VNull [VShort 3, VNull, VShort (- 5)] = Inr (VShort (- 5))"
proof -
  obtain c m n where r: "rfold (FieldMaxAgg_Agg (\<lambda>a i. if variant_less a i then i else a)) VNull [VShort 3, VNull, VShort (- 5)] = Inr m"
    "rfold (FieldMinAgg_Agg (\<lambda>a i. if variant_less a i then a else i)) VNull [VShort 3, VNull, VShort (- 5)] = Inr n"
    using max_min_extreme [of INT16 "\<lambda>a i. if variant_less a i then i else a" "\<lambda>a i. if variant_less a i then a else i"
        "[VShort 3, VNull, VShort (- 5)]"] by auto
  moreover have "m = VShort 3"
    using r(1) by (auto simp: FieldMaxAgg_Agg_def skip_null_def IsVariantNull_def variant_less_def)
  moreover have "n = VShort (- 5)"
    using r(2) by (auto simp: FieldMinAgg_Agg_def skip_null_def IsVariantNull_def variant_less_def)
  ultimately show ?thesis by simp
qed

end
