(* ===== verification/Product_Aggregator.thy ===== *)
theory Product_Aggregator
  imports Scalar_Aggregators
begin

text \<open>
  The product aggregator (\<^verbatim>\<open>core/mergetree/compact/aggregate/field_product_agg.cpp\<close>): exact integer
  products and quotients, or an error; decimals with 256-bit intermediate values, rounded half up to the
  scale of the field and null where they do not fit its precision. The lemmas show that a retraction undoes
  an exact product, that the test for a finite decimal expansion is exact, and that decimal products and
  quotients are correctly rounded.
\<close>

section \<open>Product\<close>

text \<open>
  \<open>arrow::BasicDecimal256\<close>: values are the integers they stand for, the operations that matter are
  arguments. \<open>Divide\<close> gives no result where its status is not success.
\<close>

record decimal256 =
  d256_Multiply :: "int \<Rightarrow> int \<Rightarrow> int"
  d256_ReduceScaleBy :: "int \<Rightarrow> int \<Rightarrow> int"
  d256_IncreaseScaleBy :: "int \<Rightarrow> int \<Rightarrow> int"
  d256_Divide :: "int \<Rightarrow> int \<Rightarrow> (int \<times> int) option"
  d256_FitsInPrecision :: "int \<Rightarrow> int \<Rightarrow> bool"

definition ToDecimal256 :: "decimal \<Rightarrow> int" where
  "ToDecimal256 v = dvalue v"

definition ToInt128 :: "int \<Rightarrow> int" where
  "ToInt128 v = wrap128 v"

definition MultiplyExact :: "'a::len word \<Rightarrow> 'a word \<Rightarrow> 'a word result" where
  "MultiplyExact left right =
     (let product = word_of_int (sint left * sint right) in
      if sint product \<noteq> sint left * sint right then Inl (Invalid ''{} overflow: {} * {}'') else Inr product)"

definition DivideExact :: "'a::len word \<Rightarrow> 'a word \<Rightarrow> 'a word result" where
  "DivideExact left right =
     (if right = 0 then Inl (Invalid ''{} division by zero: {} / {}'')
      else if sint left = - (2 ^ (LENGTH('a) - 1)) \<and> sint right = -1 then Inl (Invalid ''{} overflow: {} / {}'')
      else Inr (word_of_int (sint left sdiv sint right)))"

definition Magnitude :: "int \<Rightarrow> nat" where
  "Magnitude v = nat \<bar>v\<bar>"

text \<open>
  Dividing a factor out of a number. The loop of the source does not end on zero, which its only caller
  rejects before; here zero is left as it is.
\<close>

function strip_factor :: "nat \<Rightarrow> nat \<Rightarrow> nat" where
  "strip_factor p n = (if 0 < n \<and> 1 < p \<and> n mod p = 0 then strip_factor p (n div p) else n)"
  by pat_completeness auto
termination
  by (relation "measure snd") auto

declare strip_factor.simps [simp del]

definition QuotientTerminates :: "int \<Rightarrow> int \<Rightarrow> bool" where
  "QuotientTerminates dividend divisor =
     (let coprime_divisor = strip_factor 5 (strip_factor 2 (Magnitude divisor)) in
      Magnitude dividend mod coprime_divisor = 0)"

definition MultiplyDecimal :: "decimal256 \<Rightarrow> decimal \<Rightarrow> decimal \<Rightarrow> variant result" where
  "MultiplyDecimal d accumulator input_field =
     (let product = d256_Multiply d (ToDecimal256 accumulator) (ToDecimal256 input_field);
          product' = d256_ReduceScaleBy d product (scale accumulator)
      in if \<not> d256_FitsInPrecision d product' (precision accumulator) then Inr VNull
         else Inr (VDecimal \<lparr>precision = precision accumulator, scale = scale accumulator, dvalue = ToInt128 product'\<rparr>))"

definition DivideDecimal :: "decimal256 \<Rightarrow> decimal \<Rightarrow> decimal \<Rightarrow> variant result" where
  "DivideDecimal d accumulator input_field =
     (let divisor = ToDecimal256 input_field;
          dividend = d256_IncreaseScaleBy d (ToDecimal256 accumulator) (scale accumulator)
      in case d256_Divide d dividend divisor of
           None \<Rightarrow> Inl (Invalid ''decimal division by zero: {} / {}'')
         | Some (quot, remainder) \<Rightarrow>
             if \<not> QuotientTerminates (dvalue accumulator) (dvalue input_field)
             then Inl (Invalid ''decimal {} / {} has no finite decimal expansion'')
             else
               let twice_remainder = \<bar>remainder\<bar> + \<bar>remainder\<bar>;
                   rounded = (if twice_remainder \<ge> \<bar>divisor\<bar>
                     then quot + (if (dividend < 0) = (divisor < 0) then 1 else -1) else quot)
               in if \<not> d256_FitsInPrecision d rounded (precision accumulator) then Inr VNull
                  else Inr (VDecimal \<lparr>precision = precision accumulator, scale = scale accumulator, dvalue = ToInt128 rounded\<rparr>))"

fun CreateMultiplyFunc :: "decimal256 \<Rightarrow> arrow_type \<Rightarrow> (variant \<Rightarrow> variant \<Rightarrow> variant result) result" where
  "CreateMultiplyFunc d INT8 = Inr (\<lambda>a i. rbind (MultiplyExact (variant_char a) (variant_char i)) (\<lambda>product. Inr (VByte product)))"
| "CreateMultiplyFunc d INT16 = Inr (\<lambda>a i. rbind (MultiplyExact (variant_int16 a) (variant_int16 i)) (\<lambda>product. Inr (VShort product)))"
| "CreateMultiplyFunc d INT32 = Inr (\<lambda>a i. rbind (MultiplyExact (variant_int32 a) (variant_int32 i)) (\<lambda>product. Inr (VInt product)))"
| "CreateMultiplyFunc d INT64 = Inr (\<lambda>a i. rbind (MultiplyExact (variant_int64 a) (variant_int64 i)) (\<lambda>product. Inr (VLong product)))"
| "CreateMultiplyFunc d FLOAT = Inr (\<lambda>a i. Inr (VFloat (fp_mult binary32 (variant_float a) (variant_float i))))"
| "CreateMultiplyFunc d DOUBLE = Inr (\<lambda>a i. Inr (VDouble (fp_mult binary64 (variant_double a) (variant_double i))))"
| "CreateMultiplyFunc d (DECIMAL128 p s) = Inr (\<lambda>a i. MultiplyDecimal d (variant_decimal a) (variant_decimal i))"
| "CreateMultiplyFunc d _ = Inl (Invalid ''type {} not support in FieldProductAgg'')"

fun CreateDivideFunc :: "decimal256 \<Rightarrow> arrow_type \<Rightarrow> (variant \<Rightarrow> variant \<Rightarrow> variant result) result" where
  "CreateDivideFunc d INT8 = Inr (\<lambda>a i. rbind (DivideExact (variant_char a) (variant_char i)) (\<lambda>q. Inr (VByte q)))"
| "CreateDivideFunc d INT16 = Inr (\<lambda>a i. rbind (DivideExact (variant_int16 a) (variant_int16 i)) (\<lambda>q. Inr (VShort q)))"
| "CreateDivideFunc d INT32 = Inr (\<lambda>a i. rbind (DivideExact (variant_int32 a) (variant_int32 i)) (\<lambda>q. Inr (VInt q)))"
| "CreateDivideFunc d INT64 = Inr (\<lambda>a i. rbind (DivideExact (variant_int64 a) (variant_int64 i)) (\<lambda>q. Inr (VLong q)))"
| "CreateDivideFunc d FLOAT = Inr (\<lambda>a i. Inr (VFloat (fp_div binary32 (variant_float a) (variant_float i))))"
| "CreateDivideFunc d DOUBLE = Inr (\<lambda>a i. Inr (VDouble (fp_div binary64 (variant_double a) (variant_double i))))"
| "CreateDivideFunc d (DECIMAL128 p s) = Inr (\<lambda>a i. DivideDecimal d (variant_decimal a) (variant_decimal i))"
| "CreateDivideFunc d _ = Inl (Invalid ''type {} not support in FieldProductAgg'')"

fun CheckDecimalType :: "arrow_type \<Rightarrow> unit result" where
  "CheckDecimalType (DECIMAL128 p s) =
     (if p > 38 \<or> p < 1 then Inl (Invalid ''Invalid decimal type, precision must in range [{}, {}]'')
      else if p < s then Inl (Invalid ''Invalid decimal type {}, precision must >= scale'')
      else Inr ())"
| "CheckDecimalType _ = Inl (Invalid ''Invalid decimal type: {}'')"

definition check_product_type :: "arrow_type \<Rightarrow> unit result" where
  "check_product_type t = (case t of
     DECIMAL128 p s \<Rightarrow> rbind (CheckDecimalType t) (\<lambda>_.
       if s < 0 then Inl (Invalid ''Invalid decimal type {}, scale must >= 0'') else Inr ())
   | _ \<Rightarrow> Inr ())"

definition FieldProductAgg_Create :: "decimal256 \<Rightarrow> arrow_type \<Rightarrow>
    ((variant \<Rightarrow> variant \<Rightarrow> variant result) \<times> (variant \<Rightarrow> variant \<Rightarrow> variant result)) result" where
  "FieldProductAgg_Create d t =
     rbind (check_product_type t) (\<lambda>_.
     rbind (CreateMultiplyFunc d t) (\<lambda>multiply_func.
     rbind (CreateDivideFunc d t) (\<lambda>divide_func. Inr (multiply_func, divide_func))))"

definition FieldProductAgg_Agg :: "(variant \<Rightarrow> variant \<Rightarrow> variant result) \<Rightarrow> variant \<Rightarrow> variant \<Rightarrow> variant result" where
  "FieldProductAgg_Agg multiply_func = skip_null multiply_func"

definition FieldProductAgg_Retract :: "(variant \<Rightarrow> variant \<Rightarrow> variant result) \<Rightarrow> variant \<Rightarrow> variant \<Rightarrow> variant result" where
  "FieldProductAgg_Retract divide_func accumulator input_field =
     (if IsVariantNull accumulator \<or> IsVariantNull input_field then Inr accumulator
      else divide_func accumulator input_field)"

lemma MultiplyExact_Inr: "MultiplyExact l r = Inr p \<longleftrightarrow> sint p = sint l * sint r"
proof -
  have "p = word_of_int (sint l * sint r)" if "sint p = sint l * sint r"
    unfolding that [symmetric] by simp
  then show ?thesis by (auto simp: MultiplyExact_def Let_def)
qed

lemma fits_sint: "(\<exists>p::'a::len word. sint p = v) \<longleftrightarrow> - (2 ^ (LENGTH('a) - 1)) \<le> v \<and> v < 2 ^ (LENGTH('a) - 1)"
proof
  assume "- (2 ^ (LENGTH('a) - 1)) \<le> v \<and> v < 2 ^ (LENGTH('a) - 1)"
  then have "sint (word_of_int v :: 'a word) = v"
    by (simp add: signed_take_bit_int_eq_self sint_sbintrunc')
  then show "\<exists>p::'a word. sint p = v" by blast
qed (use sint_ge sint_lt in blast)

lemma MultiplyExact_ok:
  "is_ok (MultiplyExact l r) \<longleftrightarrow> - (2 ^ (LENGTH('a) - 1)) \<le> sint l * sint r \<and> sint l * sint r < 2 ^ (LENGTH('a) - 1)"
  for l r :: "'a::len word"
  unfolding is_ok_def MultiplyExact_Inr by (rule fits_sint)

lemma sdiv_mult: "b \<noteq> 0 \<Longrightarrow> (a * b) sdiv b = a" for a b :: int
proof -
  assume b: "b \<noteq> 0"
  have "sgn (a * b) * sgn b * (\<bar>a * b\<bar> div \<bar>b\<bar>) = (sgn a * \<bar>a\<bar>) * (sgn b * sgn b)"
    using b by (simp add: abs_mult sgn_mult ac_simps)
  also have "\<dots> = a" using b by (simp add: sgn_mult_abs sgn_if)
  finally show ?thesis by (simp add: signed_divide_int_def)
qed

lemma DivideExact_undoes:
  assumes "MultiplyExact l r = Inr p" "r \<noteq> 0"
  shows "DivideExact p r = Inr l"
proof -
  have p: "sint p = sint l * sint r" using assms(1) by (simp add: MultiplyExact_Inr)
  have r: "sint r \<noteq> 0" using assms(2) signed_word_eqI [of r 0] by auto
  have "\<not> (sint p = - (2 ^ (LENGTH('a) - 1)) \<and> sint r = -1)" using p sint_lt [of l] by auto
  moreover have "sint p sdiv sint r = sint l" unfolding p by (rule sdiv_mult) (fact r)
  ultimately show ?thesis using assms(2) by (simp add: DivideExact_def)
qed

text \<open>The quotient truncated toward zero; the least value over -1 is the only one that does not fit.\<close>

definition truncated_quotient :: "int \<Rightarrow> int \<Rightarrow> int" where
  "truncated_quotient a b = sgn a * sgn b * (\<bar>a\<bar> div \<bar>b\<bar>)"

lemma truncated_quotient_bounds:
  assumes "- m \<le> a" "a < m" "b \<noteq> 0" "\<not> (a = - m \<and> b = -1)"
  shows "- m \<le> truncated_quotient a b \<and> truncated_quotient a b < m"
proof -
  have q: "\<bar>a\<bar> div \<bar>b\<bar> \<le> \<bar>a\<bar>" "0 \<le> \<bar>a\<bar> div \<bar>b\<bar>"
    using zdiv_mono2 [of "\<bar>a\<bar>" 1 "\<bar>b\<bar>"] assms(3) by (simp_all add: pos_imp_zdiv_nonneg_iff)
  show ?thesis
  proof (cases "a = - m")
    case False
    then have "\<bar>a\<bar> < m" using assms by simp
    then show ?thesis using q by (auto simp: truncated_quotient_def sgn_if)
  next
    case True
    have m: "0 < m" "\<bar>a\<bar> = m" using True assms by auto
    have "\<bar>a\<bar> div \<bar>b\<bar> < m" if "b < 0"
    proof -
      have "1 < \<bar>b\<bar>" using that assms(4) True by auto
      then show ?thesis using int_div_less_self [of "\<bar>a\<bar>" "\<bar>b\<bar>"] m by simp
    qed
    then show ?thesis using q m True assms(3) by (auto simp: truncated_quotient_def sgn_if)
  qed
qed

lemma truncated_quotient_overflow: "0 < m \<Longrightarrow> truncated_quotient (- m) (-1) = m"
  by (simp add: truncated_quotient_def)

lemma DivideExact_Inr:
  fixes l r q :: "'a::len word"
  shows "DivideExact l r = Inr q \<longleftrightarrow> r \<noteq> 0 \<and> sint q = truncated_quotient (sint l) (sint r)"
proof (cases "r = 0 \<or> sint l = - (2 ^ (LENGTH('a) - 1)) \<and> sint r = -1")
  case True
  then show ?thesis
    using truncated_quotient_overflow [of "2 ^ (LENGTH('a) - 1)"] sint_lt [of q] by (auto simp: DivideExact_def)
next
  case False
  have "sint r \<noteq> 0" using False signed_word_eqI [of r 0] by auto
  then have "- (2 ^ (LENGTH('a) - 1)) \<le> truncated_quotient (sint l) (sint r) \<and> truncated_quotient (sint l) (sint r) < 2 ^ (LENGTH('a) - 1)"
    using False sint_ge [of l] sint_lt [of l] truncated_quotient_bounds by blast
  then obtain p :: "'a word" where p: "sint p = truncated_quotient (sint l) (sint r)" using fits_sint by blast
  then have "p = word_of_int (truncated_quotient (sint l) (sint r))" unfolding p [symmetric] by simp
  then have "DivideExact l r = Inr p" using False by (simp add: DivideExact_def signed_divide_int_def truncated_quotient_def)
  moreover have "p = q" if "sint p = sint q" using that by (rule signed_word_eqI)
  ultimately show ?thesis using False p by auto
qed

lemma DivideExact_ok:
  fixes l r :: "'a::len word"
  shows "is_ok (DivideExact l r) \<longleftrightarrow> r \<noteq> 0 \<and> truncated_quotient (sint l) (sint r) < 2 ^ (LENGTH('a) - 1)"
proof -
  have low: "- (2 ^ (LENGTH('a) - 1)) \<le> truncated_quotient (sint l) (sint r)"
    if "r \<noteq> 0"
  proof (cases "sint l = - (2 ^ (LENGTH('a) - 1)) \<and> sint r = -1")
    case True
    then show ?thesis using truncated_quotient_overflow [of "2 ^ (LENGTH('a) - 1)"] by simp
  next
    case False
    have "sint r \<noteq> 0" using that signed_word_eqI [of r 0] by auto
    then show ?thesis using False sint_ge [of l] sint_lt [of l] truncated_quotient_bounds by blast
  qed
  show ?thesis unfolding is_ok_def DivideExact_Inr
    using fits_sint [where 'a = 'a, of "truncated_quotient (sint l) (sint r)"] low by auto
qed

section \<open>Decimal quotients\<close>

lemma strip_factor_spec:
  assumes "0 < n" "1 < p"
  shows "\<exists>k. n = p ^ k * strip_factor p n" "\<not> p dvd strip_factor p n"
proof -
  have "(\<exists>k. n = p ^ k * strip_factor p n) \<and> \<not> p dvd strip_factor p n"
    using assms
  proof (induction p n rule: strip_factor.induct)
    case (1 p n)
    show ?case
    proof (cases "n mod p = 0")
      case True
      then have n: "n = p * (n div p)" and pos: "0 < n div p" using 1(2) by (auto simp: dvd_imp_le div_greater_zero_iff mod_eq_0_iff_dvd)
      have s: "strip_factor p n = strip_factor p (n div p)" using True 1(2,3) by (subst strip_factor.simps) simp
      obtain k where "n div p = p ^ k * strip_factor p (n div p)" using 1 True pos by blast
      then have "n = p ^ Suc k * strip_factor p n" using n s by (metis mult.assoc power_Suc)
      then show ?thesis using s 1 True pos by metis
    next
      case False
      then have "strip_factor p n = n" by (subst strip_factor.simps) simp
      then show ?thesis using False by (metis dvd_imp_mod_0 mult_1 power_0)
    qed
  qed
  then show "\<exists>k. n = p ^ k * strip_factor p n" "\<not> p dvd strip_factor p n" by blast+
qed

lemma coprime_5: "\<not> 5 dvd c \<Longrightarrow> coprime c (5::nat)"
proof -
  assume c: "\<not> 5 dvd c"
  have "gcd c 5 dvd 5" by simp
  then have "gcd c 5 \<le> 5" by (rule dvd_imp_le) simp
  then have "gcd c 5 = 1 \<or> gcd c 5 = 5"
    using \<open>gcd c 5 dvd 5\<close> by (auto simp: le_Suc_eq numeral_eq_Suc dvd_def) presburger+
  then show ?thesis using c by (metis coprime_iff_gcd_eq_1 gcd_dvd1)
qed

text \<open>The test is exact: the quotient has a finite decimal expansion.\<close>

lemma QuotientTerminates_exact:
  assumes "b \<noteq> 0"
  shows "QuotientTerminates a b \<longleftrightarrow> (\<exists>k. b dvd a * 10 ^ k)"
proof -
  define n c d where "n = nat \<bar>b\<bar>" and "c = strip_factor 2 n" and "d = strip_factor 5 c"
  have n: "0 < n" using assms by (simp add: n_def)
  obtain i where i: "n = 2 ^ i * c" and odd: "\<not> 2 dvd c" using strip_factor_spec [OF n, of 2] by (auto simp: c_def)
  have c: "0 < c" using i n by (cases c) auto
  obtain j where j: "c = 5 ^ j * d" and d5: "\<not> 5 dvd d" using strip_factor_spec [OF c, of 5] by (auto simp: d_def)
  have "coprime d (10 ^ k)" for k
  proof -
    have "\<not> 2 dvd d" using odd j by auto
    then have "coprime d 2" by (simp add: coprime_right_2_iff_odd)
    then show ?thesis using coprime_5 [OF d5] coprime_mult_right_iff [of d 2 5] by simp
  qed
  then have "d dvd nat \<bar>a\<bar>" if "n dvd nat \<bar>a\<bar> * 10 ^ k" for k
    using that i j by (metis coprime_dvd_mult_left_iff dvd_mult_right mult.assoc dvd_trans dvd_triv_right)
  moreover have "n dvd nat \<bar>a\<bar> * 10 ^ (i + j)" if "d dvd nat \<bar>a\<bar>"
  proof -
    have "(10::nat) ^ (i + j) = (2 ^ i * 5 ^ j) * (5 ^ i * 2 ^ j)"
      using power_mult_distrib [of "2::nat" 5 i] power_mult_distrib [of "2::nat" 5 j] by (simp add: power_add)
    then have "2 ^ i * 5 ^ j dvd (10::nat) ^ (i + j)" by (metis dvd_triv_left)
    then have "d * (2 ^ i * 5 ^ j) dvd nat \<bar>a\<bar> * 10 ^ (i + j)" using that by (simp add: mult_dvd_mono)
    then show ?thesis using i j by (simp add: ac_simps)
  qed
  moreover have "b dvd a * 10 ^ k \<longleftrightarrow> n dvd nat \<bar>a\<bar> * 10 ^ k" for k
  proof -
    have eq: "nat \<bar>a\<bar> * 10 ^ k = nat \<bar>a * 10 ^ k\<bar>" by (simp add: abs_mult nat_mult_distrib nat_power_eq)
    show ?thesis unfolding n_def eq using int_dvd_int_iff [of "nat \<bar>b\<bar>" "nat \<bar>a * 10 ^ k\<bar>"] by simp
  qed
  ultimately show ?thesis
    by (auto simp: QuotientTerminates_def Magnitude_def n_def [symmetric] c_def [symmetric] d_def [symmetric] mod_eq_0_iff_dvd)
qed

text \<open>
  Rounding half up, away from zero, as \<open>BigDecimal.setScale(scale, HALF_UP)\<close>, and the documented behaviour of
  the decimal operations on the values the aggregator passes: 128-bit factors and decimal digits up to 38.
\<close>

definition half_up :: "int \<Rightarrow> int \<Rightarrow> int" where
  "half_up a b = sgn a * sgn b * ((2 * \<bar>a\<bar> + \<bar>b\<bar>) div (2 * \<bar>b\<bar>))"

definition decimal256_behaviour :: "decimal256 \<Rightarrow> bool" where
  "decimal256_behaviour d \<longleftrightarrow>
     (\<forall>a b. in_int128 a \<longrightarrow> in_int128 b \<longrightarrow> d256_Multiply d a b = a * b) \<and>
     (\<forall>v s. \<bar>v\<bar> \<le> 2 ^ 254 \<longrightarrow> 0 \<le> s \<longrightarrow> s \<le> 38 \<longrightarrow> d256_ReduceScaleBy d v s = half_up v (10 ^ nat s)) \<and>
     (\<forall>v s. in_int128 v \<longrightarrow> 0 \<le> s \<longrightarrow> s \<le> 38 \<longrightarrow> d256_IncreaseScaleBy d v s = v * 10 ^ nat s) \<and>
     (\<forall>v p. 1 \<le> p \<longrightarrow> p \<le> 38 \<longrightarrow> (d256_FitsInPrecision d v p \<longleftrightarrow> \<bar>v\<bar> < 10 ^ nat p)) \<and>
     (\<forall>a b. d256_Divide d a b = (if b = 0 then None else Some (a sdiv b, a smod b)))"

definition exact_decimal256 :: decimal256 where
  "exact_decimal256 =
     \<lparr>d256_Multiply = (*), d256_ReduceScaleBy = (\<lambda>v s. half_up v (10 ^ nat s)),
      d256_IncreaseScaleBy = (\<lambda>v s. v * 10 ^ nat s),
      d256_Divide = (\<lambda>a b. if b = 0 then None else Some (a sdiv b, a smod b)),
      d256_FitsInPrecision = (\<lambda>v p. \<bar>v\<bar> < 10 ^ nat p)\<rparr>"

lemma exact_decimal256_behaviour: "decimal256_behaviour exact_decimal256"
  by (simp add: decimal256_behaviour_def exact_decimal256_def)

lemma half_up_parts: "0 < b \<Longrightarrow> 0 \<le> a \<Longrightarrow> (2 * a + b) div (2 * b) = a div b + (if b \<le> 2 * (a mod b) then 1 else 0)" for a b :: int
proof -
  assume b: "0 < b" and a: "0 \<le> a"
  let ?q = "a div b" and ?r = "a mod b"
  have r: "0 \<le> ?r" "?r < b" using b by simp_all
  have split: "2 * a + b = (2 * ?r + b) + ?q * (2 * b)"
  proof -
    have "?q * (2 * b) = 2 * (b * ?q)" by simp
    then show ?thesis using mult_div_mod_eq [of b a] by linarith
  qed
  have "(2 * a + b) div (2 * b) = ?q + (2 * ?r + b) div (2 * b)"
    unfolding split using b by (subst div_mult_self1) simp_all
  moreover have "(2 * r + b) div (2 * b) = (if b \<le> 2 * r then 1 else 0)" if "0 \<le> r" "r < b" for r
    using that b div_pos_geq [of "2 * b" "2 * r + b"] div_pos_pos_trivial [of "2 * r + b" "2 * b"]
      div_pos_pos_trivial [of "2 * r - b" "2 * b"] by auto
  ultimately show ?thesis using r by simp
qed

text \<open>The truncated quotient, corrected by its remainder, is rounded half up.\<close>

lemma rounded_quotient:
  assumes "b \<noteq> 0"
  shows "(if \<bar>a smod b\<bar> + \<bar>a smod b\<bar> \<ge> \<bar>b\<bar> then a sdiv b + (if (a < 0) = (b < 0) then 1 else -1) else a sdiv b) = half_up a b"
proof -
  have rem: "\<bar>a smod b\<bar> = \<bar>a\<bar> mod \<bar>b\<bar>"
    using assms pos_mod_sign [of "\<bar>b\<bar>" "\<bar>a\<bar>"] by (simp add: signed_modulo_int_def abs_mult sgn_if)
  have h: "half_up a b = sgn a * sgn b * (\<bar>a\<bar> div \<bar>b\<bar> + (if \<bar>b\<bar> \<le> 2 * (\<bar>a\<bar> mod \<bar>b\<bar>) then 1 else 0))"
    using assms by (simp add: half_up_def half_up_parts)
  show ?thesis
    unfolding rem h signed_divide_int_def using assms by (auto simp: sgn_if algebra_simps)
qed

lemma ToInt128_fits: "\<bar>v\<bar> < 10 ^ nat p \<Longrightarrow> p \<le> 38 \<Longrightarrow> ToInt128 v = v"
proof -
  assume v: "\<bar>v\<bar> < 10 ^ nat p" and p: "p \<le> 38"
  have "(10::int) ^ nat p \<le> 10 ^ 38" using p by (intro power_increasing) auto
  also have "(10::int) ^ 38 < 2 ^ 127" by simp
  finally show ?thesis using v by (simp add: ToInt128_def wrap128_def signed_take_bit_int_eq_self)
qed

definition decimal_or_null :: "decimal \<Rightarrow> int \<Rightarrow> variant" where
  "decimal_or_null acc v =
     (if \<bar>v\<bar> < 10 ^ nat (precision acc) then VDecimal \<lparr>precision = precision acc, scale = scale acc, dvalue = v\<rparr> else VNull)"

lemma MultiplyDecimal_correct:
  assumes d: "decimal256_behaviour d" and t: "1 \<le> precision a" "precision a \<le> 38" "0 \<le> scale a" "scale a \<le> 38"
    and "in_int128 (dvalue a)" "in_int128 (dvalue x)"
  shows "MultiplyDecimal d a x = Inr (decimal_or_null a (half_up (dvalue a * dvalue x) (10 ^ nat (scale a))))"
proof -
  have "\<bar>dvalue a\<bar> * \<bar>dvalue x\<bar> \<le> 2 ^ 127 * 2 ^ 127"
    using assms(6,7) by (intro mult_mono) (auto simp: in_int128_def INT128_MINIMUM_VALUE_def INT128_MAXIMUM_VALUE_def)
  then have "\<bar>dvalue a * dvalue x\<bar> \<le> 2 ^ 254" by (simp add: abs_mult)
  then show ?thesis
    using d t assms(6,7) ToInt128_fits [of _ "precision a"]
    by (simp add: MultiplyDecimal_def decimal256_behaviour_def decimal_or_null_def ToDecimal256_def)
qed

lemma DivideDecimal_eq:
  assumes d: "decimal256_behaviour d" and t: "1 \<le> precision a" "precision a \<le> 38" "0 \<le> scale a" "scale a \<le> 38"
    and "in_int128 (dvalue a)"
  shows "DivideDecimal d a x =
    (if dvalue x = 0 then Inl (Invalid ''decimal division by zero: {} / {}'')
     else if \<not> (\<exists>k. dvalue x dvd dvalue a * 10 ^ k) then Inl (Invalid ''decimal {} / {} has no finite decimal expansion'')
     else Inr (decimal_or_null a (half_up (dvalue a * 10 ^ nat (scale a)) (dvalue x))))"
proof (cases "dvalue x = 0")
  case True
  then show ?thesis using d by (simp add: DivideDecimal_def decimal256_behaviour_def ToDecimal256_def)
next
  case False
  let ?n = "dvalue a * 10 ^ nat (scale a)"
  have inc: "d256_IncreaseScaleBy d (dvalue a) (scale a) = ?n" using d t assms(6) by (simp add: decimal256_behaviour_def)
  have div: "d256_Divide d ?n (dvalue x) = Some (?n sdiv dvalue x, ?n smod dvalue x)"
    using d False by (simp add: decimal256_behaviour_def)
  have fits: "d256_FitsInPrecision d v (precision a) \<longleftrightarrow> \<bar>v\<bar> < 10 ^ nat (precision a)" for v
    using d t by (simp add: decimal256_behaviour_def)
  show ?thesis
    unfolding DivideDecimal_def ToDecimal256_def inc div Let_def option.case prod.case rounded_quotient [OF False]
      QuotientTerminates_exact [OF False] fits
    using False ToInt128_fits [of "half_up ?n (dvalue x)" "precision a"] t by (simp add: decimal_or_null_def)
qed

section \<open>Properties\<close>

text \<open>
  C23. The product of an integer field is exact or an error: aggregating two values succeeds exactly when
  their product fits the type and then returns it, and retracting the value, unless it is zero, gives the old
  accumulator back. Dividing integers fails exactly for a zero divisor and where the quotient does not fit
  the type (the least value over -1), and else returns the quotient truncated toward zero. A decimal product is the exact product rounded half up to the scale of the field, and a
  decimal quotient is defined exactly when the divisor is not zero and the quotient has a finite decimal
  expansion, and is then rounded half up; both are null where they do not fit the precision.
\<close>

theorem product_exact:
  fixes l r p q :: "'a::len word"
  assumes "decimal256_behaviour d"
    and "1 \<le> precision a" "precision a \<le> 38" "0 \<le> scale a" "scale a \<le> 38" "in_int128 (dvalue a)" "in_int128 (dvalue x)"
  shows "(is_ok (MultiplyExact l r) \<longleftrightarrow> - (2 ^ (LENGTH('a) - 1)) \<le> sint l * sint r \<and> sint l * sint r < 2 ^ (LENGTH('a) - 1)) \<and>
    (MultiplyExact l r = Inr p \<longrightarrow> sint p = sint l * sint r \<and> (r \<noteq> 0 \<longrightarrow> DivideExact p r = Inr l)) \<and>
    (is_ok (DivideExact l r) \<longleftrightarrow> r \<noteq> 0 \<and> truncated_quotient (sint l) (sint r) < 2 ^ (LENGTH('a) - 1)) \<and>
    (DivideExact l r = Inr q \<longleftrightarrow> r \<noteq> 0 \<and> sint q = truncated_quotient (sint l) (sint r)) \<and>
    MultiplyDecimal d a x = Inr (decimal_or_null a (half_up (dvalue a * dvalue x) (10 ^ nat (scale a)))) \<and>
    (is_ok (DivideDecimal d a x) \<longleftrightarrow> dvalue x \<noteq> 0 \<and> (\<exists>k. dvalue x dvd dvalue a * 10 ^ k)) \<and>
    (is_ok (DivideDecimal d a x) \<longrightarrow>
       DivideDecimal d a x = Inr (decimal_or_null a (half_up (dvalue a * 10 ^ nat (scale a)) (dvalue x))))"
  using MultiplyExact_ok [of l r] MultiplyExact_Inr [of l r p] DivideExact_undoes [of l r p] DivideExact_ok [of l r]
    DivideExact_Inr [of l r q]
    MultiplyDecimal_correct [OF assms] DivideDecimal_eq [OF assms(1-6), of x] by auto

theorem product_exact_witness:
  "MultiplyExact (100 :: 8 word) 2 \<noteq> Inr 200 \<and> DivideExact (100 :: 8 word) 2 = Inr 50 \<and>
   DivideExact (- 7 :: 8 word) 2 = Inr (- 3) \<and> \<not> is_ok (DivideExact (- 128 :: 8 word) (- 1)) \<and>
   MultiplyDecimal exact_decimal256 \<lparr>precision = 4, scale = 2, dvalue = 150\<rparr> \<lparr>precision = 4, scale = 2, dvalue = -75\<rparr> =
     Inr (VDecimal \<lparr>precision = 4, scale = 2, dvalue = -113\<rparr>) \<and>
   \<not> is_ok (DivideDecimal exact_decimal256 \<lparr>precision = 4, scale = 2, dvalue = 150\<rparr> \<lparr>precision = 4, scale = 2, dvalue = 0\<rparr>)"
proof -
  note w = product_exact [OF exact_decimal256_behaviour, of "\<lparr>precision = 4, scale = 2, dvalue = 150\<rparr>"]
  have 1: "MultiplyExact (100 :: 8 word) 2 \<noteq> Inr 200"
    using w [of "\<lparr>precision = 4, scale = 2, dvalue = 0\<rparr>" "100 :: 8 word" 2 200]
    by (auto simp: in_int128_def INT128_MINIMUM_VALUE_def INT128_MAXIMUM_VALUE_def)
  have 2: "DivideExact (100 :: 8 word) 2 = Inr 50"
    using w [of "\<lparr>precision = 4, scale = 2, dvalue = 0\<rparr>" "50 :: 8 word" 2 100]
    by (simp add: in_int128_def INT128_MINIMUM_VALUE_def INT128_MAXIMUM_VALUE_def MultiplyExact_Inr)
  have 3: "DivideExact (- 7 :: 8 word) 2 = Inr (- 3)"
    using w [of "\<lparr>precision = 4, scale = 2, dvalue = 0\<rparr>" "- 7 :: 8 word" 2 0 "- 3"]
    by (simp add: in_int128_def INT128_MINIMUM_VALUE_def INT128_MAXIMUM_VALUE_def truncated_quotient_def)
  have 4: "\<not> is_ok (DivideExact (- 128 :: 8 word) (- 1))"
    using w [of "\<lparr>precision = 4, scale = 2, dvalue = 0\<rparr>" "- 128 :: 8 word" "- 1" 0]
    by (simp add: in_int128_def INT128_MINIMUM_VALUE_def INT128_MAXIMUM_VALUE_def truncated_quotient_def)
  show ?thesis
    using 1 2 3 4 w [of "\<lparr>precision = 4, scale = 2, dvalue = -75\<rparr>" "50 :: 8 word" 2 100]
      w [of "\<lparr>precision = 4, scale = 2, dvalue = 0\<rparr>" "50 :: 8 word" 2 100]
    by (simp add: in_int128_def INT128_MINIMUM_VALUE_def INT128_MAXIMUM_VALUE_def decimal_or_null_def half_up_def)
qed

end
