(* ===== verification/String_Aggregators.thy ===== *)
theory String_Aggregators
  imports Field_Values
begin

unbundle bit_operations_syntax

text \<open>
  The aggregators over strings and binaries: string lists with a delimiter, with or without duplicates
  (\<^verbatim>\<open>core/mergetree/compact/aggregate/field_listagg_agg.h\<close>), with the test for blank strings of
  \<^verbatim>\<open>common/utils/string_utils.cpp\<close>, and sketches (\<^verbatim>\<open>field_sketch_agg.cpp\<close>). The lemmas show that a
  string list is the joined strings that are not blank.
\<close>

section \<open>String lists\<close>

definition IsJavaWhitespace :: "nat \<Rightarrow> bool" where
  "IsJavaWhitespace c \<longleftrightarrow> 0x0009 \<le> c \<and> c \<le> 0x000d \<or> 0x001c \<le> c \<and> c \<le> 0x0020 \<or> c = 0x1680 \<or>
     0x2000 \<le> c \<and> c \<le> 0x2006 \<or> 0x2008 \<le> c \<and> c \<le> 0x200a \<or> c = 0x2028 \<or> c = 0x2029 \<or> c = 0x205f \<or> c = 0x3000"

text \<open>The first byte of a code point gives its high bits and the number of bytes.\<close>

definition utf8_lead :: "8 word \<Rightarrow> (32 word \<times> nat) option" where
  "utf8_lead first =
     (if first \<le> 0x7f then Some (ucast first, 1)
      else if 0xc2 \<le> first \<and> first \<le> 0xdf then Some (ucast (first AND 0x1f), 2)
      else if 0xe0 \<le> first \<and> first \<le> 0xef then Some (ucast (first AND 0x0f), 3)
      else if 0xf0 \<le> first \<and> first \<le> 0xf4 then Some (ucast (first AND 0x07), 4)
      else None)"

fun utf8_continue :: "32 word \<Rightarrow> bytes \<Rightarrow> 32 word option" where
  "utf8_continue code_point [] = Some code_point"
| "utf8_continue code_point (continuation # cs) =
     (if continuation AND 0xc0 \<noteq> 0x80 then None
      else utf8_continue (push_bit 6 code_point OR ucast (continuation AND 0x3f)) cs)"

definition utf8_invalid :: "nat \<Rightarrow> nat \<Rightarrow> bool" where
  "utf8_invalid len c \<longleftrightarrow> len = 3 \<and> c < 0x800 \<or> len = 4 \<and> c < 0x10000 \<or> 0xd800 \<le> c \<and> c \<le> 0xdfff \<or> c > 0x10ffff"

function IsBlank :: "bytes \<Rightarrow> bool" where
  "IsBlank [] = True"
| "IsBlank (first # rest) =
     (case utf8_lead first of
        None \<Rightarrow> False
      | Some (code_point, len) \<Rightarrow>
          if len - 1 > length rest then False
          else case utf8_continue code_point (take (len - 1) rest) of
            None \<Rightarrow> False
          | Some c \<Rightarrow> \<not> utf8_invalid len (unat c) \<and> IsJavaWhitespace (unat c) \<and> IsBlank (drop (len - 1) rest))"
  by pat_completeness auto
termination
  by (relation "measure length") auto

text \<open>\<open>remaining.find(delimiter)\<close>, which finds an empty delimiter at once.\<close>

fun find_bytes :: "bytes \<Rightarrow> bytes \<Rightarrow> nat option" where
  "find_bytes d [] = (if d = [] then Some 0 else None)"
| "find_bytes d (x # xs) =
     (if take (length d) (x # xs) = d then Some 0 else map_option Suc (find_bytes d xs))"

lemma find_bytes_bound: "find_bytes d xs = Some pos \<Longrightarrow> pos + length d \<le> length xs"
proof (induction xs arbitrary: pos)
  case (Cons x xs)
  show ?case
  proof (cases "take (length d) (x # xs) = d")
    case True
    then have "length d \<le> length (x # xs)" by (metis length_take min.cobounded1)
    then show ?thesis using True Cons.prems by simp
  next
    case False
    then show ?thesis using Cons by auto
  qed
qed (simp split: if_splits)

text \<open>
  The tokens between delimiters, in the order of both loops. An empty delimiter, for which the source
  loops forever and which \<open>Create\<close> replaces, gives one token.
\<close>

function tokens :: "bytes \<Rightarrow> bytes \<Rightarrow> bytes list" where
  "tokens d remaining =
     (if d = [] then [remaining]
      else case find_bytes d remaining of
        None \<Rightarrow> [remaining]
      | Some pos \<Rightarrow> take pos remaining # tokens d (drop (pos + length d) remaining))"
  by pat_completeness auto
termination
proof (relation "measure (length \<circ> snd)")
  fix d remaining :: bytes and pos
  assume "d \<noteq> []" "find_bytes d remaining = Some pos"
  then show "((d, drop (pos + length d) remaining), d, remaining) \<in> measure (length \<circ> snd)"
    using find_bytes_bound [of d remaining pos] by (cases d) auto
qed simp

declare tokens.simps [simp del]

fun append_tokens :: "bytes \<Rightarrow> bytes set \<Rightarrow> bytes \<Rightarrow> bytes list \<Rightarrow> bytes" where
  "append_tokens d seen result [] = result"
| "append_tokens d seen result (token # ts) =
     (if \<not> IsBlank token \<and> token \<notin> seen then append_tokens d (insert token seen) (result @ d @ token) ts
      else append_tokens d seen result ts)"

definition AggDistinctImpl :: "bytes \<Rightarrow> bytes \<Rightarrow> bytes \<Rightarrow> bytes" where
  "AggDistinctImpl d acc_str in_str = append_tokens d (set (tokens d acc_str)) acc_str (tokens d in_str)"

definition FieldListaggAgg_Create :: "arrow_type \<Rightarrow> bytes result \<Rightarrow> bool result \<Rightarrow> (bytes \<times> bool) result" where
  "FieldListaggAgg_Create t delimiter_option distinct_option =
     (if t \<noteq> STRING then Inl (Invalid ''invalid field type {} for field '{}' of {}, supposed to be string'')
      else rbind delimiter_option (\<lambda>d. rbind distinct_option (\<lambda>distinct_flag.
        Inr (if distinct_flag \<and> d = [] then [0x20] else d, distinct_flag))))"

definition FieldListaggAgg_Agg :: "bytes \<Rightarrow> bool \<Rightarrow> variant \<Rightarrow> variant \<Rightarrow> variant" where
  "FieldListaggAgg_Agg d distinct_flag accumulator input_field =
     (if IsVariantNull input_field then accumulator
      else let in_str = VariantStringView input_field in
        if IsBlank in_str then accumulator
        else if IsVariantNull accumulator then input_field
        else let acc_str = VariantStringView accumulator in
          if IsBlank acc_str then input_field
          else VString (if distinct_flag then AggDistinctImpl d acc_str in_str else acc_str @ d @ in_str))"

section \<open>Sketches\<close>

text \<open>
  The union of two serialized sketches is the argument \<open>sketch_union\<close>, with no result where it throws.
\<close>

definition OwnedBinary :: "variant \<Rightarrow> variant" where
  "OwnedBinary v = (case v of VBytes b \<Rightarrow> v | _ \<Rightarrow> VBytes (VariantStringView v))"

definition ValidateSketchType :: "arrow_type \<Rightarrow> unit result" where
  "ValidateSketchType t =
     (if t \<noteq> BINARY then Inl (Invalid ''invalid field type {} for field '{}' of {}, supposed to be binary'') else Inr ())"

definition FieldHllSketchAgg_Agg :: "(bytes \<Rightarrow> bytes \<Rightarrow> bytes option) \<Rightarrow> variant \<Rightarrow> variant \<Rightarrow> variant result" where
  "FieldHllSketchAgg_Agg sketch_union accumulator input_field =
     (let accumulator_null = IsVariantNull accumulator; input_null = IsVariantNull input_field in
      if accumulator_null \<and> input_null then Inr VNull
      else if accumulator_null \<or> input_null
        then Inr (OwnedBinary (if accumulator_null then input_field else accumulator))
      else case sketch_union (VariantStringView accumulator) (VariantStringView input_field) of
        Some result \<Rightarrow> Inr (VBytes result)
      | None \<Rightarrow> Inl (Invalid ''Unable to deserialize or union HLL sketch: {}''))"

definition FieldThetaSketchAgg_Agg :: "(bytes \<Rightarrow> bytes \<Rightarrow> bytes option) \<Rightarrow> variant \<Rightarrow> variant \<Rightarrow> variant result" where
  "FieldThetaSketchAgg_Agg sketch_union accumulator input_field =
     (let accumulator_null = IsVariantNull accumulator; input_null = IsVariantNull input_field in
      if accumulator_null \<and> input_null then Inr VNull
      else if accumulator_null \<or> input_null
        then Inr (OwnedBinary (if accumulator_null then input_field else accumulator))
      else case sketch_union (VariantStringView accumulator) (VariantStringView input_field) of
        Some result \<Rightarrow> Inr (VBytes result)
      | None \<Rightarrow> Inl (Invalid ''Unable to deserialize or union theta sketch: {}''))"

section \<open>Properties\<close>

text \<open>The strings of a sequence of values that are neither null nor blank, and their joined string.\<close>

definition listed :: "variant list \<Rightarrow> bytes list" where
  "listed vs = map VariantStringView (filter (\<lambda>v. v \<noteq> VNull \<and> \<not> IsBlank (VariantStringView v)) vs)"

fun join :: "bytes \<Rightarrow> bytes list \<Rightarrow> bytes" where
  "join d [] = []"
| "join d [s] = s"
| "join d (s # t # ss) = s @ d @ join d (t # ss)"

lemma join_snoc: "ss \<noteq> [] \<Longrightarrow> join d (ss @ [s]) = join d ss @ d @ s"
  by (induction ss rule: induct_list012) auto

text \<open>
  A string of whole code points that is not blank stays so when more is appended. (Without it, a string that
  ends inside a code point can become blank.)
\<close>

function whole_code_points :: "bytes \<Rightarrow> bool" where
  "whole_code_points [] = True"
| "whole_code_points (first # rest) =
     (case utf8_lead first of
        None \<Rightarrow> False
      | Some (_, n) \<Rightarrow> n - 1 \<le> length rest \<and> whole_code_points (drop (n - 1) rest))"
  by pat_completeness auto
termination
  by (relation "measure length") auto

lemma IsBlank_append: "IsBlank (s @ t) \<Longrightarrow> whole_code_points s \<Longrightarrow> IsBlank s"
proof (induction s rule: IsBlank.induct)
  case (2 b rest)
  obtain c n where lead: "utf8_lead b = Some (c, n)" and whole: "n - 1 \<le> length rest" "whole_code_points (drop (n - 1) rest)"
    using 2(3) by (auto split: option.splits)
  obtain cp where cp: "utf8_continue c (take (n - 1) rest) = Some cp" "\<not> utf8_invalid n (unat cp)" "IsJavaWhitespace (unat cp)"
    "IsBlank (drop (n - 1) rest @ t)"
    using 2(2) lead whole by (auto split: option.splits if_splits)
  then have "IsBlank (drop (n - 1) rest)" using 2(1) [of "(c, n)" c n cp] lead whole cp by auto
  then show ?case using lead whole cp by simp
qed simp

lemma join_prefix: "\<exists>t. join d (s # ss) = s @ t"
  by (cases ss) auto

lemma listagg_step:
  assumes "\<forall>s\<in>set ss. whole_code_points s \<and> \<not> IsBlank s" "if ss = [] then a = VNull else a \<noteq> VNull \<and> VariantStringView a = join d ss"
    and "ss' = (if v \<noteq> VNull \<and> \<not> IsBlank (VariantStringView v) then ss @ [VariantStringView v] else ss)"
  shows "let b = FieldListaggAgg_Agg d False a v in if ss' = [] then b = VNull else b \<noteq> VNull \<and> VariantStringView b = join d ss'"
proof (cases ss)
  case Nil
  then show ?thesis using assms by (auto simp: FieldListaggAgg_Agg_def IsVariantNull_def Let_def)
next
  case (Cons s ts)
  obtain t where "join d ss = s @ t" using join_prefix [of d s ts] Cons by auto
  then have "\<not> IsBlank (join d ss)" using IsBlank_append [of s t] assms(1) Cons by auto
  then show ?thesis using assms(2,3) join_snoc [of ss d] Cons by (auto simp: FieldListaggAgg_Agg_def IsVariantNull_def Let_def)
qed

lemma listagg_fold:
  assumes "\<forall>v\<in>set vs. whole_code_points (VariantStringView v)" "\<forall>s\<in>set ss. whole_code_points s \<and> \<not> IsBlank s"
    and "if ss = [] then a = VNull else a \<noteq> VNull \<and> VariantStringView a = join d ss"
  shows "let r = foldl (FieldListaggAgg_Agg d False) a vs in
    if ss @ listed vs = [] then r = VNull else r \<noteq> VNull \<and> VariantStringView r = join d (ss @ listed vs)"
  using assms
proof (induction vs arbitrary: a ss)
  case Nil
  then show ?case by (simp add: listed_def)
next
  case (Cons v vs)
  let ?ss = "if v \<noteq> VNull \<and> \<not> IsBlank (VariantStringView v) then ss @ [VariantStringView v] else ss"
  have l: "ss @ listed (v # vs) = ?ss @ listed vs" by (simp add: listed_def)
  show ?case unfolding l foldl.simps
    by (rule Cons.IH) (use Cons.prems listagg_step [OF Cons.prems(2,3), of ?ss v] in \<open>auto simp: Let_def split: if_splits\<close>)
qed

fun new_tokens :: "bytes set \<Rightarrow> bytes list \<Rightarrow> bytes list" where
  "new_tokens seen [] = []"
| "new_tokens seen (t # ts) =
     (if \<not> IsBlank t \<and> t \<notin> seen then t # new_tokens (insert t seen) ts else new_tokens seen ts)"

lemma append_tokens_new: "append_tokens d seen r ts = r @ concat (map ((@) d) (new_tokens seen ts))"
  by (induction d seen r ts rule: append_tokens.induct) auto

lemma set_new_tokens: "set (new_tokens seen ts) = {t \<in> set ts. \<not> IsBlank t \<and> t \<notin> seen}"
  by (induction seen ts rule: new_tokens.induct) auto

lemma distinct_new_tokens: "distinct (new_tokens seen ts)"
  by (induction seen ts rule: new_tokens.induct) (auto simp: set_new_tokens)

lemma find_bytes_take: "find_bytes d xs = Some pos \<Longrightarrow> take (length d) (drop pos xs) = d"
  by (induction d xs arbitrary: pos rule: find_bytes.induct) (auto split: if_splits)

lemma tokens_nonempty: "tokens d s \<noteq> []"
  by (subst tokens.simps) (simp split: option.splits)

lemma join_tokens: "join d (tokens d s) = s"
proof (induction d s rule: tokens.induct)
  case (1 d s)
  show ?case
  proof (cases "d = [] \<or> find_bytes d s = None")
    case True
    then show ?thesis by (subst tokens.simps) auto
  next
    case False
    then obtain pos where pos: "find_bytes d s = Some pos" and d: "d \<noteq> []" by auto
    let ?rest = "drop (pos + length d) s"
    have "tokens d s = take pos s # tokens d ?rest" by (subst tokens.simps) (simp add: pos d)
    moreover obtain t ts where "tokens d ?rest = t # ts" using tokens_nonempty list.exhaust by blast
    ultimately have "join d (tokens d s) = take pos s @ d @ ?rest" using 1 [OF d pos] by simp
    moreover have "drop pos s = d @ ?rest"
      using find_bytes_take [OF pos] append_take_drop_id [of "length d" "drop pos s"] by (simp add: add.commute)
    ultimately show ?thesis by (metis append_take_drop_id)
  qed
qed

text \<open>
  C34. Listing a string field joins the strings that are neither null nor blank with the delimiter, in order, for
  values of whole code points. Without duplicates, the delimiter and a token are appended once for every token of the new
  string that is not blank and not a token of the list yet; the tokens of a string, joined, are the string.
\<close>

theorem listagg_joins:
  assumes "\<forall>v\<in>set vs. whole_code_points (VariantStringView v)"
  shows "(let r = foldl (FieldListaggAgg_Agg d False) VNull vs in
      if listed vs = [] then r = VNull else r \<noteq> VNull \<and> VariantStringView r = join d (listed vs)) \<and>
    (\<exists>new. AggDistinctImpl d acc_str in_str = acc_str @ concat (map ((@) d) new) \<and> distinct new \<and>
       set new = {t \<in> set (tokens d in_str). \<not> IsBlank t \<and> t \<notin> set (tokens d acc_str)}) \<and>
    join d (tokens d s) = s"
  using listagg_fold [OF assms, of "[]" VNull d] join_tokens [of d s]
    append_tokens_new [of d "set (tokens d acc_str)" acc_str "tokens d in_str"]
    set_new_tokens [of "set (tokens d acc_str)" "tokens d in_str"] distinct_new_tokens [of "set (tokens d acc_str)" "tokens d in_str"]
  by (auto simp: AggDistinctImpl_def Let_def)

theorem listagg_joins_witness:
  "VariantStringView (foldl (FieldListaggAgg_Agg [44] False) VNull [VStringView [97], VNull, VStringView [32], VStringView [98]]) = [97, 44, 98]"
  using listagg_joins [of "[VStringView [97], VNull, VStringView [32], VStringView [98]]" "[44]"]
  by (simp add: listed_def Let_def utf8_lead_def utf8_invalid_def IsJavaWhitespace_def)

end
