(* ===== verification/Nested_Aggregators.thy ===== *)
theory Nested_Aggregators
  imports Field_Values
begin

text \<open>
  The aggregators over arrays and maps (\<^verbatim>\<open>core/mergetree/compact/aggregate\<close>): \<open>collect\<close>, \<open>merge_map\<close> and
  \<open>nested_update\<close>. An unordered set or map of the library is the list of its entries in insertion order; a
  lookup compares an entry only if the hashes agree. A null pointer to an array is no array, the holders that
  keep buffers alive are left out. The lemmas show that the hashed and the linear paths agree, that \<open>collect\<close>
  without duplicates keeps the first of equal elements and retracts as multisets, that \<open>merge_map\<close> refines the update of an
  abstract map, and that \<open>nested_update\<close> keeps keys unique and the number of rows bounded.
\<close>

definition kHashThreshold :: nat where
  "kHashThreshold = 192"

definition SemanticEqual :: "arrow_type \<Rightarrow> variant \<Rightarrow> variant \<Rightarrow> bool" where
  "SemanticEqual t lhs rhs \<longleftrightarrow> Equals lhs rhs t = Inr True"

section \<open>Collect\<close>

definition Contains :: "variant list \<Rightarrow> variant \<Rightarrow> arrow_type \<Rightarrow> bool result" where
  "Contains values candidate t = rbind (rindex (\<lambda>v. Equals v candidate t) values) (\<lambda>found. Inr (found \<noteq> None))"

definition append_element :: "arrow_type \<Rightarrow> bool \<Rightarrow> variant list \<Rightarrow> variant list \<Rightarrow> nat \<Rightarrow> variant list result" where
  "append_element t distinct_flag array values i =
     rbind (GetValue array i t) (\<lambda>v.
     if distinct_flag then rbind (Contains values v t) (\<lambda>contains. Inr (if contains then values else values @ [v]))
     else Inr (values @ [v]))"

definition AppendArray :: "variant list option \<Rightarrow> arrow_type \<Rightarrow> bool \<Rightarrow> variant list \<Rightarrow> variant list result" where
  "AppendArray array t distinct_flag values =
     (case array of None \<Rightarrow> Inr values | Some a \<Rightarrow> rfold (append_element t distinct_flag a) values [0..<length a])"

definition hash_member :: "std_hash \<Rightarrow> arrow_type \<Rightarrow> variant list \<Rightarrow> variant \<Rightarrow> bool" where
  "hash_member h t seen v \<longleftrightarrow> (\<exists>u\<in>set seen. Hash h u t = Hash h v t \<and> SemanticEqual t u v)"

definition hash_append_element :: "std_hash \<Rightarrow> arrow_type \<Rightarrow> variant list \<Rightarrow> variant list \<times> variant list \<Rightarrow> nat \<Rightarrow>
    (variant list \<times> variant list) result" where
  "hash_append_element h t array s i =
     (case s of (seen, values) \<Rightarrow>
       rbind (GetValue array i t) (\<lambda>v.
       Inr (if hash_member h t seen v then (seen, values) else (seen @ [v], values @ [v]))))"

definition AppendArrayWithHash :: "std_hash \<Rightarrow> variant list option \<Rightarrow> arrow_type \<Rightarrow> variant list \<times> variant list \<Rightarrow>
    (variant list \<times> variant list) result" where
  "AppendArrayWithHash h array t s =
     (case array of None \<Rightarrow> Inr s | Some a \<Rightarrow> rfold (hash_append_element h t a) s [0..<length a])"

definition FieldCollectAgg_Create :: "arrow_type \<Rightarrow> bool result \<Rightarrow> (arrow_type \<times> bool) result" where
  "FieldCollectAgg_Create t distinct_option = (case t of
     LIST e \<Rightarrow> rbind distinct_option (\<lambda>distinct_flag. Inr (e, distinct_flag))
   | _ \<Rightarrow> Inl (Invalid ''invalid field type {} for field '{}' of {}, supposed to be array''))"

definition optional_array :: "variant \<Rightarrow> variant list option" where
  "optional_array v = (if IsVariantNull v then None else Some (variant_array v))"

definition array_size :: "variant list option \<Rightarrow> nat" where
  "array_size array = (case array of None \<Rightarrow> 0 | Some a \<Rightarrow> length a)"

definition FieldCollectAgg_AggImpl :: "std_hash \<Rightarrow> arrow_type \<Rightarrow> bool \<Rightarrow> variant \<Rightarrow> variant \<Rightarrow> variant result" where
  "FieldCollectAgg_AggImpl h t distinct_flag accumulator input_field =
     (let accumulator_null = IsVariantNull accumulator; input_null = IsVariantNull input_field in
      if accumulator_null \<and> input_null then Inr VNull
      else if \<not> distinct_flag \<and> (accumulator_null \<or> input_null)
        then Inr (if accumulator_null then input_field else accumulator)
      else
        let accumulator_array = optional_array accumulator;
            input_array = optional_array input_field;
            total_size = array_size accumulator_array + array_size input_array
        in rbind
          (if distinct_flag \<and> total_size \<ge> kHashThreshold \<and> IsHashableType t then
             rbind (AppendArrayWithHash h accumulator_array t ([], [])) (\<lambda>s.
             rbind (AppendArrayWithHash h input_array t s) (\<lambda>s'. Inr (snd s')))
           else
             rbind (AppendArray accumulator_array t distinct_flag []) (\<lambda>values.
             AppendArray input_array t distinct_flag values))
          (\<lambda>values. Inr (VArray values)))"

definition remove_index :: "nat \<Rightarrow> 'a list \<Rightarrow> 'a list" where
  "remove_index i xs = take i xs @ drop (Suc i) xs"

definition retract_element :: "arrow_type \<Rightarrow> variant list \<Rightarrow> variant list \<times> variant list \<Rightarrow> nat \<Rightarrow>
    (variant list \<times> variant list) result" where
  "retract_element t array s i =
     (case s of (retract_values, result_values) \<Rightarrow>
       rbind (GetValue array i t) (\<lambda>candidate.
       rbind (rindex (\<lambda>r. Equals candidate r t) retract_values) (\<lambda>found.
       case found of
         Some j \<Rightarrow> Inr (remove_index j retract_values, result_values)
       | None \<Rightarrow> Inr (retract_values, result_values @ [candidate]))))"

definition FieldCollectAgg_Retract :: "arrow_type \<Rightarrow> variant \<Rightarrow> variant \<Rightarrow> variant result" where
  "FieldCollectAgg_Retract t accumulator input_field =
     (if IsVariantNull accumulator \<or> IsVariantNull input_field then Inr accumulator
      else
        let accumulator_array = variant_array accumulator; retract_array = variant_array input_field in
        if length retract_array = 0 then Inr accumulator
        else
          rbind (AppendArray (Some retract_array) t False []) (\<lambda>retract_values.
          rbind (rfold (retract_element t accumulator_array) (retract_values, []) [0..<length accumulator_array]) (\<lambda>s.
          Inr (VArray (snd s)))))"

section \<open>Merge map\<close>

definition FindKey :: "(variant \<times> variant) list \<Rightarrow> variant \<Rightarrow> arrow_type \<Rightarrow> nat option result" where
  "FindKey entries key key_type = rindex (\<lambda>entry. Equals (fst entry) key key_type) entries"

definition put_at :: "(variant \<times> variant) list \<Rightarrow> nat option \<Rightarrow> variant \<Rightarrow> variant \<Rightarrow> (variant \<times> variant) list" where
  "put_at entries existing key v =
     (case existing of Some i \<Rightarrow> entries[i := (fst (entries ! i), v)] | None \<Rightarrow> entries @ [(key, v)])"

definition put_entry :: "arrow_type \<Rightarrow> arrow_type \<Rightarrow> (variant \<times> variant) list \<Rightarrow> (variant \<times> variant) list \<Rightarrow> nat \<Rightarrow>
    (variant \<times> variant) list result" where
  "put_entry key_type value_type m entries i =
     rbind (GetValue (map fst m) i key_type) (\<lambda>key.
     rbind (GetValue (map snd m) i value_type) (\<lambda>v.
     rbind (FindKey entries key key_type) (\<lambda>existing. Inr (put_at entries existing key v))))"

definition PutMap :: "arrow_type \<Rightarrow> arrow_type \<Rightarrow> (variant \<times> variant) list \<Rightarrow> (variant \<times> variant) list \<Rightarrow>
    (variant \<times> variant) list result" where
  "PutMap key_type value_type m entries = rfold (put_entry key_type value_type m) entries [0..<length m]"

definition hash_find :: "std_hash \<Rightarrow> arrow_type \<Rightarrow> (variant \<times> nat) list \<Rightarrow> variant \<Rightarrow> nat option" where
  "hash_find h t key_index key =
     map_option snd (List.find (\<lambda>e. Hash h (fst e) t = Hash h key t \<and> SemanticEqual t (fst e) key) key_index)"

definition hash_put_entry :: "std_hash \<Rightarrow> arrow_type \<Rightarrow> arrow_type \<Rightarrow> (variant \<times> variant) list \<Rightarrow>
    (variant \<times> nat) list \<times> (variant \<times> variant) list \<Rightarrow> nat \<Rightarrow> ((variant \<times> nat) list \<times> (variant \<times> variant) list) result" where
  "hash_put_entry h key_type value_type m s i =
     (case s of (key_index, entries) \<Rightarrow>
       rbind (GetValue (map fst m) i key_type) (\<lambda>key.
       rbind (GetValue (map snd m) i value_type) (\<lambda>v.
       case hash_find h key_type key_index key of
         Some j \<Rightarrow> if j < length entries then Inr (key_index, entries[j := (fst (entries ! j), v)])
                   else Inl (Invalid ''vector::at'')
       | None \<Rightarrow> Inr (key_index @ [(key, length entries)], entries @ [(key, v)]))))"

definition PutMapWithHash :: "std_hash \<Rightarrow> arrow_type \<Rightarrow> arrow_type \<Rightarrow> (variant \<times> variant) list \<Rightarrow>
    (variant \<times> nat) list \<times> (variant \<times> variant) list \<Rightarrow> ((variant \<times> nat) list \<times> (variant \<times> variant) list) result" where
  "PutMapWithHash h key_type value_type m s = rfold (hash_put_entry h key_type value_type m) s [0..<length m]"

definition FieldMergeMapAgg_Create :: "arrow_type \<Rightarrow> (arrow_type \<times> arrow_type) result" where
  "FieldMergeMapAgg_Create t = (case t of
     MAP k v \<Rightarrow> Inr (k, v)
   | _ \<Rightarrow> Inl (Invalid ''invalid field type {} for field '{}' of {}, supposed to be map''))"

definition FieldMergeMapAgg_AggImpl :: "std_hash \<Rightarrow> arrow_type \<Rightarrow> arrow_type \<Rightarrow> variant \<Rightarrow> variant \<Rightarrow> variant result" where
  "FieldMergeMapAgg_AggImpl h key_type value_type accumulator input_field =
     (let accumulator_null = IsVariantNull accumulator; input_null = IsVariantNull input_field in
      if accumulator_null \<or> input_null then Inr (if accumulator_null then input_field else accumulator)
      else
        let accumulator_map = variant_map accumulator; input_map = variant_map input_field;
            total_size = length accumulator_map + length input_map
        in rbind
          (if total_size \<ge> kHashThreshold \<and> IsHashableType key_type then
             rbind (PutMapWithHash h key_type value_type accumulator_map ([], [])) (\<lambda>s.
             rbind (PutMapWithHash h key_type value_type input_map s) (\<lambda>s'. Inr (snd s')))
           else
             rbind (PutMap key_type value_type accumulator_map []) (\<lambda>entries.
             PutMap key_type value_type input_map entries))
          (\<lambda>entries. Inr (VMap entries)))"

definition retract_key :: "arrow_type \<Rightarrow> (variant \<times> variant) list \<Rightarrow> (variant \<times> variant) list \<Rightarrow> nat \<Rightarrow>
    (variant \<times> variant) list result" where
  "retract_key key_type m entries i =
     rbind (GetValue (map fst m) i key_type) (\<lambda>key.
     rbind (FindKey entries key key_type) (\<lambda>existing.
     Inr (case existing of Some j \<Rightarrow> remove_index j entries | None \<Rightarrow> entries)))"

definition FieldMergeMapAgg_Retract :: "arrow_type \<Rightarrow> arrow_type \<Rightarrow> variant \<Rightarrow> variant \<Rightarrow> variant result" where
  "FieldMergeMapAgg_Retract key_type value_type accumulator input_field =
     (if IsVariantNull accumulator \<or> IsVariantNull input_field then Inr accumulator
      else
        let accumulator_map = variant_map accumulator; retract_map = variant_map input_field in
        if length retract_map = 0 then Inr accumulator
        else
          rbind (PutMap key_type value_type accumulator_map []) (\<lambda>entries.
          rbind (rfold (retract_key key_type retract_map) entries [0..<length retract_map]) (\<lambda>entries'.
          Inr (VMap entries'))))"

section \<open>Nested update\<close>

datatype NestedKeyNullStrategy = MERGE | IGNORE | ERROR

record nested_update =
  row_type :: "(string \<times> arrow_type) list"
  key_fields :: "nat list"
  null_strategy :: NestedKeyNullStrategy
  sequence_comparator :: "FieldsComparator option"
  count_limit :: nat

text \<open>The index of a field name; like \<open>arrow::StructType::GetFieldIndex\<close>, none for a missing or repeated name.\<close>

definition GetFieldIndex :: "(string \<times> arrow_type) list \<Rightarrow> string \<Rightarrow> nat option" where
  "GetFieldIndex fs name =
     (case filter (\<lambda>i. fst (fs ! i) = name) [0..<length fs] of [i] \<Rightarrow> Some i | _ \<Rightarrow> None)"

definition ResolveFields :: "(string \<times> arrow_type) list \<Rightarrow> string list \<Rightarrow> nat list result" where
  "ResolveFields fs names = rmap (\<lambda>name. case GetFieldIndex fs name of
     Some i \<Rightarrow> Inr i
   | None \<Rightarrow> Inl (Invalid ''Field '{}' configured by '{}' does not exist in {}'')) names"

record nested_options =
  nested_key :: "string list result"
  nested_sequence_field :: "string list result"
  strategy_configured :: bool
  nested_key_null_strategy :: "NestedKeyNullStrategy result"
  nested_count_limit :: "nat result"

definition FieldNestedUpdateAgg_Create :: "arrow_type \<Rightarrow> nested_options \<Rightarrow> nested_update result" where
  "FieldNestedUpdateAgg_Create t opts = (case t of
     LIST (STRUCT fs) \<Rightarrow>
       rbind (nested_key opts) (\<lambda>key_names.
       rbind (nested_sequence_field opts) (\<lambda>sequence_names.
       if key_names = [] \<and> strategy_configured opts
       then Inl (Invalid ''Option 'fields.<field-name>.nested-key-null-strategy' requires 'fields.<field-name>.nested-key' to be configured.'')
       else if key_names = [] \<and> sequence_names \<noteq> []
       then Inl (Invalid ''Option 'fields.<field-name>.nested-sequence-field' requires 'fields.<field-name>.nested-key' to be configured.'')
       else
         rbind (ResolveFields fs key_names) (\<lambda>keys.
         rbind (ResolveFields fs sequence_names) (\<lambda>sequence_fields.
         rbind (if sequence_fields \<noteq> []
                then rbind (FieldsComparator_Create (map snd fs) sequence_fields True) (\<lambda>c. Inr (Some c))
                else Inr None) (\<lambda>comparator.
         rbind (nested_key_null_strategy opts) (\<lambda>strategy.
         rbind (nested_count_limit opts) (\<lambda>limit.
         Inr \<lparr>row_type = fs, key_fields = keys, null_strategy = strategy, sequence_comparator = comparator,
              count_limit = limit\<rparr>)))))))
   | _ \<Rightarrow> Inl (Invalid ''invalid field type {} for field '{}' of {}, supposed to be array<struct>''))"

definition AcceptKey :: "nested_update \<Rightarrow> variant \<Rightarrow> bool result" where
  "AcceptKey agg r =
     (let contains_null = (\<exists>f\<in>set (key_fields agg). IsNullAt (snd (variant_row r)) f) in
      if \<not> contains_null \<or> null_strategy agg = MERGE then Inr True
      else if null_strategy agg = IGNORE then Inr False
      else Inl (Invalid ''Nested key contains null values. Primary key fields must not be null.''))"

definition KeysEqual :: "nested_update \<Rightarrow> variant \<Rightarrow> variant \<Rightarrow> bool result" where
  "KeysEqual agg lhs rhs = rall (\<lambda>f.
     rbind (GetValue (snd (variant_row lhs)) f (snd (row_type agg ! f))) (\<lambda>lhs_value.
     rbind (GetValue (snd (variant_row rhs)) f (snd (row_type agg ! f))) (\<lambda>rhs_value.
     Equals lhs_value rhs_value (snd (row_type agg ! f))))) (key_fields agg)"

text \<open>The rows of an array that are not null, at most \<open>limit\<close> of them.\<close>

fun AppendNonNullRows :: "variant list \<Rightarrow> nat \<Rightarrow> variant list \<Rightarrow> variant list" where
  "AppendNonNullRows [] limit rows = rows"
| "AppendNonNullRows (r # rs) limit rows =
     (if limit = 0 then rows
      else if r \<noteq> VNull then AppendNonNullRows rs (limit - 1) (rows @ [r]) else AppendNonNullRows rs limit rows)"

definition add_row :: "nested_update \<Rightarrow> bool \<Rightarrow> variant list \<Rightarrow> variant \<Rightarrow> variant list result" where
  "add_row agg limit_new_keys rows r =
     (if r = VNull then Inr rows
      else rbind (AcceptKey agg r) (\<lambda>accept.
        if \<not> accept then Inr rows
        else rbind (rindex (\<lambda>old. KeysEqual agg old r) rows) (\<lambda>existing.
          case existing of
            Some j \<Rightarrow> Inr (case sequence_comparator agg of
                None \<Rightarrow> rows[j := r]
              | Some c \<Rightarrow> if FieldsComparator_CompareTo c (snd (variant_row r)) (snd (variant_row (rows ! j))) \<ge> 0
                          then rows[j := r] else rows)
          | None \<Rightarrow> Inr (if \<not> limit_new_keys \<or> length rows < count_limit agg then rows @ [r] else rows))))"

definition FieldNestedUpdateAgg_AggImpl :: "nested_update \<Rightarrow> variant \<Rightarrow> variant \<Rightarrow> variant result" where
  "FieldNestedUpdateAgg_AggImpl agg accumulator input_field =
     (if IsVariantNull input_field then Inr accumulator
      else
        let input = variant_array input_field; acc = optional_array accumulator in
        if key_fields agg = [] then
          if acc \<noteq> None \<and> length (the acc) \<ge> count_limit agg then Inr accumulator
          else
            let rows = (case acc of None \<Rightarrow> [] | Some a \<Rightarrow> AppendNonNullRows a (length a) []);
                remaining = (case acc of None \<Rightarrow> count_limit agg | Some a \<Rightarrow> count_limit agg - length a)
            in Inr (VArray (AppendNonNullRows input remaining rows))
        else
          rbind (case acc of None \<Rightarrow> Inr [] | Some a \<Rightarrow> rfold (add_row agg False) [] a) (\<lambda>rows.
          rbind (rfold (add_row agg True) rows input) (\<lambda>rows'. Inr (VArray rows'))))"

text \<open>Erasing every element that satisfies a fallible test.\<close>

fun erase_if :: "('a \<Rightarrow> bool result) \<Rightarrow> 'a list \<Rightarrow> 'a list result" where
  "erase_if p [] = Inr []"
| "erase_if p (x # xs) = rbind (p x) (\<lambda>b. rbind (erase_if p xs) (\<lambda>ys. Inr (if b then ys else x # ys)))"

definition retract_row :: "nested_update \<Rightarrow> variant list \<Rightarrow> variant \<Rightarrow> variant list result" where
  "retract_row agg rows r =
     (if r = VNull then Inr rows
      else erase_if (\<lambda>old. Equals old r (STRUCT (row_type agg))) rows)"

definition collect_row :: "nested_update \<Rightarrow> variant list \<Rightarrow> variant \<Rightarrow> variant list result" where
  "collect_row agg rows r =
     (if r = VNull then Inr rows
      else rbind (AcceptKey agg r) (\<lambda>accept.
        if \<not> accept then Inr rows
        else rbind (rindex (\<lambda>old. KeysEqual agg old r) rows) (\<lambda>existing.
          Inr (case existing of Some j \<Rightarrow> rows[j := r] | None \<Rightarrow> rows @ [r]))))"

definition retract_keyed_row :: "nested_update \<Rightarrow> variant list \<Rightarrow> variant \<Rightarrow> variant list result" where
  "retract_keyed_row agg rows r =
     (if r = VNull then Inr rows
      else rbind (AcceptKey agg r) (\<lambda>accept.
        if \<not> accept then Inr rows else erase_if (\<lambda>old. KeysEqual agg old r) rows))"

definition FieldNestedUpdateAgg_Retract :: "nested_update \<Rightarrow> variant \<Rightarrow> variant \<Rightarrow> variant result" where
  "FieldNestedUpdateAgg_Retract agg accumulator input_field =
     (if IsVariantNull accumulator \<or> IsVariantNull input_field then Inr accumulator
      else
        let acc = variant_array accumulator; retract = variant_array input_field in
        if key_fields agg = [] then
          rbind (rfold (retract_row agg) (AppendNonNullRows acc (length acc) []) retract) (\<lambda>rows. Inr (VArray rows))
        else
          rbind (rfold (collect_row agg) [] acc) (\<lambda>rows.
          rbind (rfold (retract_keyed_row agg) rows retract) (\<lambda>rows'. Inr (VArray rows'))))"

section \<open>Loops over the elements of an array\<close>

lemma rfold_cong: "(\<And>s x. x \<in> set xs \<Longrightarrow> f s x = g s x) \<Longrightarrow> rfold f s xs = rfold g s xs"
  by (induction xs arbitrary: s) (auto intro!: rbind_cong)

lemma rfold_map: "rfold f s (map h xs) = rfold (\<lambda>s x. f s (h x)) s xs"
  by (induction xs arbitrary: s) (auto intro!: rbind_cong)

lemma rfold_nth:
  assumes "\<And>s i. i < length a \<Longrightarrow> g s i = f s (a ! i)"
  shows "rfold g s [0..<length a] = rfold f s a"
proof -
  have "rfold f s a = rfold f s (map ((!) a) [0..<length a])" by (simp add: map_nth)
  also have "\<dots> = rfold g s [0..<length a]" unfolding rfold_map by (rule rfold_cong) (simp add: assms)
  finally show ?thesis by simp
qed

text \<open>A loop whose steps succeed is a fold, and keeps an invariant.\<close>

lemma rfold_foldl:
  assumes "\<And>s x. I s \<Longrightarrow> x \<in> set xs \<Longrightarrow> f s x = Inr (g s x) \<and> I (g s x)" "I s"
  shows "rfold f s xs = Inr (foldl g s xs) \<and> I (foldl g s xs)"
  using assms by (induction xs arbitrary: s) auto

section \<open>Collect keeps the first of equal elements\<close>

definition keep_new :: "('a \<Rightarrow> 'a \<Rightarrow> bool) \<Rightarrow> 'a list \<Rightarrow> 'a \<Rightarrow> 'a list" where
  "keep_new same vals v = (if \<exists>u\<in>set vals. same u v then vals else vals @ [v])"

definition keep_first :: "('a \<Rightarrow> 'a \<Rightarrow> bool) \<Rightarrow> 'a list \<Rightarrow> 'a list" where
  "keep_first same xs = foldl (keep_new same) [] xs"

lemma keep_new_set: "set (foldl (keep_new same) vals xs) \<subseteq> set vals \<union> set xs"
proof (induction xs arbitrary: vals)
  case (Cons x xs)
  show ?case using Cons.IH [of "keep_new same vals x"] by (auto simp: keep_new_def split: if_splits)
qed simp

lemma keep_new_sorted:
  "sorted_wrt (\<lambda>u v. \<not> same u v) vals \<Longrightarrow> sorted_wrt (\<lambda>u v. \<not> same u v) (foldl (keep_new same) vals xs)"
  by (induction xs arbitrary: vals) (auto simp: keep_new_def sorted_wrt_append)

lemma keep_new_mono: "set vals \<subseteq> set (foldl (keep_new same) vals xs)"
proof (induction xs arbitrary: vals)
  case (Cons x xs)
  show ?case using Cons.IH [of "keep_new same vals x"] by (auto simp: keep_new_def split: if_splits)
qed simp

lemma keep_new_covers:
  "x \<in> set xs \<Longrightarrow> same x x \<Longrightarrow> \<exists>u\<in>set (foldl (keep_new same) vals xs). same u x"
proof (induction xs arbitrary: vals)
  case (Cons y ys)
  show ?case
  proof (cases "x = y")
    case True
    have "\<exists>u\<in>set (keep_new same vals y). same u x" using Cons.prems(2) True by (auto simp: keep_new_def)
    then show ?thesis using keep_new_mono [of "keep_new same vals y" same ys] by auto
  next
    case False
    then show ?thesis using Cons by simp
  qed
qed simp

context value_equality
begin

lemma rindex_eq:
  assumes "\<forall>v\<in>set vs. dom v" "dom c"
  obtains "rindex (\<lambda>v. eq v c) vs = Inr None" "\<forall>v\<in>set vs. eq v c \<noteq> Inr True"
  | i where "rindex (\<lambda>v. eq v c) vs = Inr (Some i)" "i < length vs" "eq (vs ! i) c = Inr True"
proof (rule rindex_Inr [of vs "\<lambda>v. eq v c" "\<lambda>v. eq v c = Inr True"])
  show "eq v c = Inr (eq v c = Inr True)" if "v \<in> set vs" for v using eq_Inr [of v c] assms that by simp
qed (use that in auto)

lemma rindex_eq_flipped:
  assumes "\<forall>v\<in>set vs. dom v" "dom c"
  obtains "rindex (\<lambda>v. eq c v) vs = Inr None" "\<forall>v\<in>set vs. eq c v \<noteq> Inr True"
  | i where "rindex (\<lambda>v. eq c v) vs = Inr (Some i)" "i < length vs" "eq c (vs ! i) = Inr True"
proof (rule rindex_Inr [of vs "\<lambda>v. eq c v" "\<lambda>v. eq c v = Inr True"])
  show "eq c v = Inr (eq c v = Inr True)" if "v \<in> set vs" for v using eq_Inr [of c v] assms that by simp
qed (use that in auto)

lemma contains_eq:
  assumes "\<forall>v\<in>set vs. dom v" "dom c"
  shows "rbind (rindex (\<lambda>v. eq v c) vs) (\<lambda>found. Inr (found \<noteq> None)) = Inr (\<exists>v\<in>set vs. eq v c = Inr True)"
  by (rule rindex_eq [OF assms]) auto

end

lemma Contains_typed:
  "\<forall>v\<in>set vs. has_type t v \<Longrightarrow> has_type t c \<Longrightarrow> Contains vs c t = Inr (\<exists>v\<in>set vs. SemanticEqual t v c)"
  using field_equality.contains_eq [of vs t c] by (simp add: Contains_def SemanticEqual_def)

lemma AppendArray_typed:
  assumes "\<forall>v\<in>set a. has_type t v" "\<forall>v\<in>set vals. has_type t v"
  shows "AppendArray (Some a) t d vals =
      Inr (foldl (if d then keep_new (SemanticEqual t) else (\<lambda>vs v. vs @ [v])) vals (map field_view a))"
    (is "_ = Inr (foldl ?g vals _)")
proof -
  let ?f = "\<lambda>vs v. if d then rbind (Contains vs v t) (\<lambda>contains. Inr (if contains then vs else vs @ [v])) else Inr (vs @ [v])"
  have "AppendArray (Some a) t d vals = rfold (\<lambda>vs v. ?f vs (field_view v)) vals a"
    unfolding AppendArray_def option.case
    by (rule rfold_nth) (simp add: append_element_def GetValue_typed assms(1))
  also have "\<dots> = rfold ?f vals (map field_view a)" by (simp only: rfold_map)
  also have "\<dots> = Inr (foldl ?g vals (map field_view a))"
    by (rule conjunct1 [OF rfold_foldl [where I = "\<lambda>vs. \<forall>v\<in>set vs. has_type t v"]])
      (use assms has_type_field_view in \<open>auto simp: Contains_typed keep_new_def\<close>)
  finally show ?thesis .
qed

lemma hash_member_typed: "IsHashableType t \<Longrightarrow> hash_member h t seen v \<longleftrightarrow> (\<exists>u\<in>set seen. SemanticEqual t u v)"
  unfolding hash_member_def SemanticEqual_def using Hash_Equals by blast

lemma AppendArrayWithHash_typed:
  assumes "IsHashableType t" "\<forall>v\<in>set a. has_type t v"
  shows "AppendArrayWithHash h (Some a) t (vals, vals) =
    (let vs = foldl (keep_new (SemanticEqual t)) vals (map field_view a) in Inr (vs, vs))"
proof -
  let ?f = "\<lambda>s v. case s of (seen, vs) \<Rightarrow> Inr (if hash_member h t seen v then (seen, vs) else (seen @ [v], vs @ [v]))"
  have "AppendArrayWithHash h (Some a) t (vals, vals) = rfold (\<lambda>s v. ?f s (field_view v)) (vals, vals) a"
    unfolding AppendArrayWithHash_def option.case
    by (rule rfold_nth) (simp add: hash_append_element_def GetValue_typed assms(2) split: prod.splits)
  also have "\<dots> = rfold ?f (vals, vals) (map field_view a)" by (simp only: rfold_map)
  also have "\<dots> = (let vs = foldl (keep_new (SemanticEqual t)) vals (map field_view a) in Inr (vs, vs))"
    by (induction a arbitrary: vals) (auto simp: hash_member_typed [OF assms(1)] keep_new_def Let_def)
  finally show ?thesis .
qed

lemma SemanticEqual_refl: "has_type t a \<Longrightarrow> SemanticEqual t a a"
  unfolding SemanticEqual_def by (rule field_equality.eq_refl)

lemma SemanticEqual_sym: "has_type t a \<Longrightarrow> has_type t b \<Longrightarrow> SemanticEqual t a b \<longleftrightarrow> SemanticEqual t b a"
  unfolding SemanticEqual_def by (simp only: field_equality.eq_commute)

lemma SemanticEqual_trans:
  "has_type t a \<Longrightarrow> has_type t b \<Longrightarrow> has_type t c \<Longrightarrow> SemanticEqual t a b \<Longrightarrow> SemanticEqual t b c \<Longrightarrow> SemanticEqual t a c"
  unfolding SemanticEqual_def by (rule field_equality.eq_trans)

definition class_count :: "arrow_type \<Rightarrow> variant \<Rightarrow> variant list \<Rightarrow> nat" where
  "class_count t x vs = length (filter (SemanticEqual t x) vs)"

lemma class_count_remove:
  assumes "j < length vs"
  shows "class_count t x vs = class_count t x (remove_index j vs) + (if SemanticEqual t x (vs ! j) then 1 else 0)"
proof -
  have "class_count t x (take j vs @ vs ! j # drop (Suc j) vs) =
      class_count t x (remove_index j vs) + (if SemanticEqual t x (vs ! j) then 1 else 0)"
    by (simp add: class_count_def remove_index_def)
  then show ?thesis unfolding id_take_nth_drop [OF assms, symmetric] .
qed

lemma set_remove_index: "set (remove_index j vs) \<subseteq> set vs"
  unfolding remove_index_def using set_take_subset [of j vs] set_drop_subset [of "Suc j" vs] by auto

lemma retract_loop:
  assumes "\<forall>v\<in>set xs. has_type t v" "\<forall>v\<in>set rv. has_type t v"
  shows "\<exists>rv' res'. rfold (\<lambda>s c. case s of (rv, res) \<Rightarrow> rbind (rindex (\<lambda>r. Equals c r t) rv) (\<lambda>found.
      case found of Some j \<Rightarrow> Inr (remove_index j rv, res) | None \<Rightarrow> Inr (rv, res @ [c]))) (rv, res) xs = Inr (rv', res') \<and>
    (\<forall>x. has_type t x \<longrightarrow> class_count t x res' = class_count t x res + (class_count t x xs - class_count t x rv))"
  using assms
proof (induction xs arbitrary: rv res)
  case Nil
  then show ?case by (simp add: class_count_def)
next
  case (Cons c xs)
  have c: "has_type t c" using Cons.prems(1) by simp
  have same: "SemanticEqual t x c \<longleftrightarrow> SemanticEqual t x r" if "SemanticEqual t c r" "has_type t x" "has_type t r" for x r
    using that c SemanticEqual_sym [of t] SemanticEqual_trans [of t] by blast
  have cons: "class_count t x (c # xs) = class_count t x xs + (if SemanticEqual t x c then 1 else 0)" for x
    by (simp add: class_count_def)
  show ?case
  proof (rule field_equality.rindex_eq_flipped [OF Cons.prems(2) c])
    assume r: "rindex (\<lambda>r. Equals c r t) rv = Inr None" and none: "\<forall>r\<in>set rv. Equals c r t \<noteq> Inr True"
    have zero: "class_count t x rv = 0" if "SemanticEqual t x c" "has_type t x" for x
    proof -
      have "\<not> SemanticEqual t x r" if "r \<in> set rv" for r
        using none that \<open>SemanticEqual t x c\<close> \<open>has_type t x\<close> c Cons.prems(2) SemanticEqual_sym [of t x c]
          SemanticEqual_trans [of t c x r] by (auto simp: SemanticEqual_def)
      then show ?thesis by (simp add: class_count_def)
    qed
    have snoc: "class_count t x (res @ [c]) = class_count t x res + (if SemanticEqual t x c then 1 else 0)" for x
      by (simp add: class_count_def)
    show ?thesis using Cons.IH [of rv "res @ [c]"] Cons.prems r snoc cons zero by fastforce
  next
    fix j assume r: "rindex (\<lambda>r. Equals c r t) rv = Inr (Some j)" and j: "j < length rv" "Equals c (rv ! j) t = Inr True"
    have typed: "has_type t (rv ! j)" using Cons.prems(2) j(1) by simp
    have count: "class_count t x rv = class_count t x (remove_index j rv) + (if SemanticEqual t x c then 1 else 0)"
      if "has_type t x" for x
      using class_count_remove [OF j(1), of t x] same [of "rv ! j" x] j(2) typed that by (simp add: SemanticEqual_def)
    have "\<forall>v\<in>set (remove_index j rv). has_type t v"
    proof
      fix v assume "v \<in> set (remove_index j rv)"
      then have "v \<in> set rv" by (rule subsetD [OF set_remove_index])
      then show "has_type t v" using Cons.prems(2) by simp
    qed
    then obtain rv' res' where IH: "rfold (\<lambda>s c. case s of (rv, res) \<Rightarrow> rbind (rindex (\<lambda>r. Equals c r t) rv) (\<lambda>found.
        case found of Some j \<Rightarrow> Inr (remove_index j rv, res) | None \<Rightarrow> Inr (rv, res @ [c]))) (remove_index j rv, res) xs = Inr (rv', res')"
      "\<forall>x. has_type t x \<longrightarrow> class_count t x res' = class_count t x res + (class_count t x xs - class_count t x (remove_index j rv))"
      using Cons.IH [of "remove_index j rv" res] Cons.prems(1) by auto
    have "class_count t x res' = class_count t x res + (class_count t x (c # xs) - class_count t x rv)" if "has_type t x" for x
      using IH(2) that count [OF that] cons [of x] by auto
    then show ?thesis using IH(1) r by (intro exI [of _ rv'] exI [of _ res']) simp
  qed
qed

lemma SemanticEqual_view:
  assumes "has_type t v"
  shows "SemanticEqual t x (field_view v) \<longleftrightarrow> SemanticEqual t x v"
proof (cases "t = STRING \<or> t = BINARY")
  case True
  then show ?thesis by (auto simp: SemanticEqual_def Equals.simps [of _ _ t] IsVariantNull_def)
next
  case False
  then show ?thesis using assms by (simp add: field_view_other)
qed

lemma class_count_view: "\<forall>v\<in>set vs. has_type t v \<Longrightarrow> class_count t x (map field_view vs) = class_count t x vs"
  by (induction vs) (auto simp: class_count_def SemanticEqual_view)

lemma foldl_snoc: "foldl (\<lambda>vs v. vs @ [v]) us xs = us @ xs"
  by (induction xs arbitrary: us) auto

lemma collect_distinct_values:
  assumes "\<forall>v\<in>set (a @ b). has_type t v"
  shows "FieldCollectAgg_AggImpl h t True (VArray a) (VArray b) =
    Inr (VArray (keep_first (SemanticEqual t) (map field_view (a @ b))))"
proof (cases "length a + length b \<ge> kHashThreshold \<and> IsHashableType t")
  case True
  then show ?thesis using assms AppendArrayWithHash_typed [of t]
    by (simp add: FieldCollectAgg_AggImpl_def IsVariantNull_def optional_array_def array_size_def keep_first_def Let_def)
next
  case False
  let ?vs = "foldl (keep_new (SemanticEqual t)) [] (map field_view a)"
  have "\<forall>v\<in>set ?vs. has_type t v"
    using keep_new_set [of "SemanticEqual t" "[]" "map field_view a"] assms has_type_field_view by auto
  then show ?thesis using False assms AppendArray_typed [of a t "[]" True] AppendArray_typed [of b t ?vs True]
    by (auto simp: FieldCollectAgg_AggImpl_def IsVariantNull_def optional_array_def array_size_def keep_first_def Let_def)
qed

lemma collect_all_values:
  assumes "\<forall>v\<in>set (a @ b). has_type t v"
  shows "FieldCollectAgg_AggImpl h t False (VArray a) (VArray b) = Inr (VArray (map field_view (a @ b)))"
proof -
  have "\<forall>v\<in>set (map field_view a). has_type t v" using assms has_type_field_view by auto
  then show ?thesis using assms AppendArray_typed [of a t "[]" False] AppendArray_typed [of b t "map field_view a" False]
    by (simp add: FieldCollectAgg_AggImpl_def IsVariantNull_def optional_array_def foldl_snoc Let_def)
qed

lemma collect_retract_counts:
  assumes a: "\<forall>v\<in>set a. has_type t v" and b: "\<forall>v\<in>set b. has_type t v"
  shows "\<exists>vs. FieldCollectAgg_Retract t (VArray a) (VArray b) = Inr (VArray vs) \<and>
    (\<forall>x. has_type t x \<longrightarrow> class_count t x vs = class_count t x a - class_count t x b)"
proof (cases "b = []")
  case True
  then show ?thesis by (simp add: FieldCollectAgg_Retract_def IsVariantNull_def class_count_def)
next
  case False
  let ?f = "\<lambda>s c. case s of (rv, res) \<Rightarrow> rbind (rindex (\<lambda>r. Equals c r t) rv) (\<lambda>found.
      case found of Some j \<Rightarrow> Inr (remove_index j rv, res) | None \<Rightarrow> Inr (rv, res @ [c]))"
  have "rfold (retract_element t a) (map field_view b, []) [0..<length a] = rfold (\<lambda>s c. ?f s (field_view c)) (map field_view b, []) a"
    by (rule rfold_nth) (simp add: retract_element_def GetValue_typed a split: prod.splits)
  also have "\<dots> = rfold ?f (map field_view b, []) (map field_view a)" by (simp only: rfold_map)
  finally have loop: "rfold (retract_element t a) (map field_view b, []) [0..<length a] = \<dots>" .
  obtain rv' res' where r: "rfold ?f (map field_view b, []) (map field_view a) = Inr (rv', res')"
    "\<forall>x. has_type t x \<longrightarrow> class_count t x res' = class_count t x [] + (class_count t x (map field_view a) - class_count t x (map field_view b))"
    using retract_loop [of "map field_view a" t "map field_view b" "[]"] a b has_type_field_view by auto
  have "AppendArray (Some b) t False [] = Inr (map field_view b)"
    using AppendArray_typed [of b t "[]" False] b by (simp add: foldl_snoc)
  then have "FieldCollectAgg_Retract t (VArray a) (VArray b) = Inr (VArray res')"
    using False loop r(1) by (simp add: FieldCollectAgg_Retract_def IsVariantNull_def)
  then show ?thesis using r(2) a b by (auto simp: class_count_view) (simp add: class_count_def)
qed

section \<open>Merge map refines the update of a map\<close>

fun first_index :: "('a \<Rightarrow> bool) \<Rightarrow> 'a list \<Rightarrow> nat option" where
  "first_index P [] = None"
| "first_index P (x # xs) = (if P x then Some 0 else map_option Suc (first_index P xs))"

lemma rindex_first_index: "(\<And>x. x \<in> set xs \<Longrightarrow> p x = Inr (P x)) \<Longrightarrow> rindex p xs = Inr (first_index P xs)"
  by (induction xs) auto

lemma first_index_less: "first_index P xs = Some i \<Longrightarrow> i < length xs"
  by (induction xs arbitrary: i) (auto split: if_splits)

text \<open>The first value of a key, and updating and deleting a key, in a list of entries.\<close>

fun lookup :: "('a \<Rightarrow> 'a \<Rightarrow> bool) \<Rightarrow> ('a \<times> 'b) list \<Rightarrow> 'a \<Rightarrow> 'b option" where
  "lookup same [] k = None"
| "lookup same (e # es) k = (if same (fst e) k then Some (snd e) else lookup same es k)"

fun put :: "('a \<Rightarrow> 'a \<Rightarrow> bool) \<Rightarrow> ('a \<times> 'b) list \<Rightarrow> 'a \<times> 'b \<Rightarrow> ('a \<times> 'b) list" where
  "put same [] x = [x]"
| "put same (e # es) x = (if same (fst e) (fst x) then (fst e, snd x) # es else e # put same es x)"

fun del :: "('a \<Rightarrow> 'a \<Rightarrow> bool) \<Rightarrow> ('a \<times> 'b) list \<Rightarrow> 'a \<Rightarrow> ('a \<times> 'b) list" where
  "del same [] k = []"
| "del same (e # es) k = (if same (fst e) k then es else e # del same es k)"

definition distinct_keys :: "('a \<Rightarrow> 'a \<Rightarrow> bool) \<Rightarrow> ('a \<times> 'b) list \<Rightarrow> bool" where
  "distinct_keys same es \<longleftrightarrow> sorted_wrt (\<lambda>x y. \<not> same (fst x) (fst y)) es"

lemma put_at_first_index: "put_at es (first_index (\<lambda>e. same (fst e) k) es) k v = put same es (k, v)"
proof (induction es)
  case (Cons e es)
  then show ?case by (cases "first_index (\<lambda>e. same (fst e) k) es") (auto simp: put_at_def)
qed (simp add: put_at_def)

lemma remove_first_index:
  "(case first_index (\<lambda>e. same (fst e) k) es of Some j \<Rightarrow> remove_index j es | None \<Rightarrow> es) = del same es k"
  by (induction es) (auto simp: remove_index_def split: option.splits)

lemma set_put: "fst ` set (put same es x) \<subseteq> fst ` set es \<union> {fst x}"
  by (induction es) auto

lemma set_del: "set (del same es k) \<subseteq> set es"
  by (induction es) auto

lemma distinct_keys_put: "distinct_keys same es \<Longrightarrow> distinct_keys same (put same es x)"
proof (induction es)
  case (Cons e es)
  have "\<not> same (fst e) (fst y)" if "\<not> same (fst e) (fst x)" "y \<in> set (put same es x)" for y
  proof -
    have "fst y \<in> fst ` set es \<union> {fst x}" using that(2) set_put [of same es x] by blast
    then show ?thesis using that(1) Cons.prems by (auto simp: distinct_keys_def)
  qed
  then show ?case using Cons by (auto simp: distinct_keys_def)
qed (simp add: distinct_keys_def)

lemma distinct_keys_del: "distinct_keys same es \<Longrightarrow> distinct_keys same (del same es k)"
proof (induction es)
  case (Cons e es)
  then show ?case using set_del [of same es k] by (auto simp: distinct_keys_def)
qed (simp add: distinct_keys_def)

lemma lookup_None: "(\<And>e. e \<in> set es \<Longrightarrow> \<not> same (fst e) k) \<Longrightarrow> lookup same es k = None"
  by (induction es) auto

context value_equality
begin

abbreviation same :: "'a \<Rightarrow> 'a \<Rightarrow> bool" where
  "same a b \<equiv> eq a b = Inr True"

lemma same_left: "dom a \<Longrightarrow> dom b \<Longrightarrow> dom c \<Longrightarrow> same a b \<Longrightarrow> same a c \<longleftrightarrow> same b c"
  using eq_trans eq_sym by blast

lemma lookup_put:
  assumes "\<forall>e\<in>set es. dom (fst e)" "dom (fst x)" "dom k"
  shows "lookup same (put same es x) k = (if same (fst x) k then Some (snd x) else lookup same es k)"
  using assms
proof (induction es)
  case (Cons e es)
  then show ?case using same_left [of "fst e" "fst x" k] eq_trans [of "fst e" k "fst x"] eq_sym [of "fst x" k] by auto
qed simp

lemma lookup_del:
  assumes "\<forall>e\<in>set es. dom (fst e)" "dom k" "dom k'" "distinct_keys same es"
  shows "lookup same (del same es k) k' = (if same k k' then None else lookup same es k')"
  using assms
proof (induction es)
  case (Cons e es)
  have e: "dom (fst e)" using Cons.prems by simp
  have IH: "lookup same (del same es k) k' = (if same k k' then None else lookup same es k')"
    using Cons by (simp add: distinct_keys_def)
  show ?case
  proof (cases "same (fst e) k")
    case True
    have "lookup same es k' = None" if "same k k'"
    proof (rule lookup_None)
      fix e' assume e': "e' \<in> set es"
      have "same (fst e) k'" using same_left [OF e Cons.prems(2,3) True] that by simp
      moreover have "\<not> same (fst e) (fst e')" using Cons.prems(4) e' by (simp add: distinct_keys_def)
      moreover have "dom (fst e')" using Cons.prems(1) e' by simp
      ultimately show "\<not> same (fst e') k'" using eq_sym [of "fst e'" k'] eq_trans [of "fst e" k' "fst e'"] e Cons.prems(3) by blast
    qed
    then show ?thesis using True same_left [OF e Cons.prems(2,3) True] by auto
  next
    case False
    have "\<not> same (fst e) k'" if "same k k'"
      using False that eq_sym [of k k'] eq_trans [of "fst e" k' k] e Cons.prems(2,3) by blast
    then show ?thesis using False IH by auto
  qed
qed simp

lemma lookup_puts:
  assumes "\<forall>e\<in>set es. dom (fst e)" "\<forall>x\<in>set xs. dom (fst x)" "dom k"
  shows "lookup same (foldl (put same) es xs) k = (case lookup same (rev xs) k of Some v \<Rightarrow> Some v | None \<Rightarrow> lookup same es k)"
    and "\<forall>e\<in>set (foldl (put same) es xs). dom (fst e)"
proof -
  have "lookup same (foldl (put same) es xs) k = (case lookup same (rev xs) k of Some v \<Rightarrow> Some v | None \<Rightarrow> lookup same es k) \<and>
    (\<forall>e\<in>set (foldl (put same) es xs). dom (fst e))"
    using assms(2)
  proof (induction xs rule: rev_induct)
    case (snoc x xs)
    let ?es = "foldl (put same) es xs"
    have d: "\<forall>e\<in>set ?es. dom (fst e)" "dom (fst x)" using snoc by simp_all
    have "dom (fst e)" if "e \<in> set (put same ?es x)" for e
    proof -
      have "fst e \<in> fst ` set ?es \<union> {fst x}" using that set_put [of same ?es x] by blast
      then show ?thesis using d by auto
    qed
    then show ?case using snoc lookup_put [OF d assms(3)] by simp
  qed (use assms(1) in simp)
  then show "lookup same (foldl (put same) es xs) k = (case lookup same (rev xs) k of Some v \<Rightarrow> Some v | None \<Rightarrow> lookup same es k)"
    "\<forall>e\<in>set (foldl (put same) es xs). dom (fst e)" by blast+
qed

lemma distinct_keys_puts: "distinct_keys same es \<Longrightarrow> distinct_keys same (foldl (put same) es xs)"
  by (induction xs arbitrary: es) (auto intro: distinct_keys_put)

lemma lookup_dels:
  assumes "\<forall>e\<in>set es. dom (fst e)" "\<forall>x\<in>set ks. dom x" "dom k" "distinct_keys same es"
  shows "lookup same (foldl (del same) es ks) k = (if \<exists>x\<in>set ks. same x k then None else lookup same es k)"
  using assms(1,2,4)
proof (induction ks arbitrary: es)
  case (Cons x ks)
  have "\<forall>e\<in>set (del same es x). dom (fst e)" using Cons.prems(1) set_del [of same es x] by blast
  then show ?case
    using Cons.IH [of "del same es x"] Cons.prems lookup_del [of es x k] assms(3) distinct_keys_del [of same es x] by simp
qed simp

end

lemma PutMap_typed:
  assumes m: "\<forall>x\<in>set m. entry_typed k v x" and es: "\<forall>e\<in>set es. has_type k (fst e)"
  shows "PutMap k v m es = Inr (foldl (put (SemanticEqual k)) es (map (map_prod field_view field_view) m))"
proof -
  let ?f = "\<lambda>es x. rbind (FindKey es (fst x) k) (\<lambda>existing. Inr (put_at es existing (fst x) (snd x)))"
  have "PutMap k v m es = rfold (\<lambda>es x. ?f es (map_prod field_view field_view x)) es m"
    unfolding PutMap_def
    by (rule rfold_nth) (use m in \<open>simp add: put_entry_def GetValue_typed entry_typed_def\<close>)
  also have "\<dots> = rfold ?f es (map (map_prod field_view field_view) m)" by (simp only: rfold_map)
  also have "\<dots> = Inr (foldl (put (SemanticEqual k)) es (map (map_prod field_view field_view) m))"
  proof (rule conjunct1 [OF rfold_foldl [where I = "\<lambda>es. \<forall>e\<in>set es. has_type k (fst e)"]])
    fix es :: "(variant \<times> variant) list" and x
    assume es: "\<forall>e\<in>set es. has_type k (fst e)" and "x \<in> set (map (map_prod field_view field_view) m)"
    then have x: "has_type k (fst x)" using m has_type_field_view by (auto simp: entry_typed_def)
    have "FindKey es (fst x) k = Inr (first_index (\<lambda>e. SemanticEqual k (fst e) (fst x)) es)"
      unfolding FindKey_def SemanticEqual_def
      by (rule rindex_first_index) (use es x field_equality.eq_Inr in blast)
    moreover have "has_type k (fst e)" if "e \<in> set (put (SemanticEqual k) es x)" for e
    proof -
      have "fst e \<in> fst ` set es \<union> {fst x}" using that set_put [of "SemanticEqual k" es x] by blast
      then show ?thesis using es x by auto
    qed
    ultimately show "?f es x = Inr (put (SemanticEqual k) es x) \<and> (\<forall>e\<in>set (put (SemanticEqual k) es x). has_type k (fst e))"
      by (simp add: put_at_first_index)
  qed (use es in simp)
  finally show ?thesis .
qed

text \<open>The hash map holds the position of every key.\<close>

lemma hash_find_index:
  assumes "IsHashableType t"
  shows "hash_find h t (zip (map fst es) [n..<n + length es]) key =
    map_option ((+) n) (first_index (\<lambda>e. SemanticEqual t (fst e) key) es)"
proof (induction es arbitrary: n)
  case (Cons e es)
  have hash: "Hash h (fst e) t = Hash h key t" if "SemanticEqual t (fst e) key"
    using that Hash_Equals [OF assms] by (simp add: SemanticEqual_def)
  have up: "[n..<n + length (e # es)] = n # [Suc n..<Suc n + length es]" by (subst upt_conv_Cons) simp_all
  show ?case using Cons.IH [of "Suc n"] hash unfolding up
    by (auto simp: hash_find_def option.map_comp comp_def)
qed (simp add: hash_find_def)

definition key_positions :: "(variant \<times> variant) list \<Rightarrow> (variant \<times> nat) list" where
  "key_positions es = zip (map fst es) [0..<length es]"

lemma hash_put_step:
  assumes "IsHashableType k"
  shows "(case hash_find h k (key_positions es) key of
         Some j \<Rightarrow> if j < length es then Inr (key_positions es, es[j := (fst (es ! j), v)]) else Inl (Invalid ''vector::at'')
       | None \<Rightarrow> Inr (key_positions es @ [(key, length es)], es @ [(key, v)])) =
     (let es' = put (SemanticEqual k) es (key, v) in Inr (key_positions es', es'))"
proof -
  let ?i = "first_index (\<lambda>e. SemanticEqual k (fst e) key) es"
  have find: "hash_find h k (key_positions es) key = ?i"
    using hash_find_index [OF assms, of h es 0 key] by (cases ?i) (simp_all add: key_positions_def)
  show ?thesis
  proof (cases ?i)
    case None
    then have "put (SemanticEqual k) es (key, v) = es @ [(key, v)]"
      using put_at_first_index [of es "SemanticEqual k" key v] by (simp add: put_at_def)
    then show ?thesis using find None by (simp add: key_positions_def Let_def)
  next
    case (Some j)
    then have j: "j < length es" by (rule first_index_less)
    have p: "put (SemanticEqual k) es (key, v) = es[j := (fst (es ! j), v)]"
      using put_at_first_index [of es "SemanticEqual k" key v] Some by (simp add: put_at_def)
    have "map fst (es[j := (fst (es ! j), v)]) = map fst es"
      using j by (simp add: map_update) (metis list_update_id nth_map)
    then show ?thesis using find Some j by (simp add: key_positions_def p Let_def)
  qed
qed

lemma PutMapWithHash_typed:
  assumes "IsHashableType k" "\<forall>x\<in>set m. entry_typed k v x"
  shows "PutMapWithHash h k v m (key_positions es, es) =
    (let es' = foldl (put (SemanticEqual k)) es (map (map_prod field_view field_view) m) in Inr (key_positions es', es'))"
proof -
  define f where "f = (\<lambda>s x. case s of (key_index :: (variant \<times> nat) list, es :: (variant \<times> variant) list) \<Rightarrow> (case hash_find h k key_index (fst x) of
         Some j \<Rightarrow> if j < length es then Inr (key_index, es[j := (fst (es ! j), snd x)]) else Inl (Invalid ''vector::at'')
       | None \<Rightarrow> Inr (key_index @ [(fst x, length es)], es @ [x])))"
  have step: "f (key_positions es, es) x = Inr (key_positions (put (SemanticEqual k) es x), put (SemanticEqual k) es x)" for es x
    using hash_put_step [OF assms(1), where h = h and es = es and key = "fst x" and v = "snd x"]
    by (simp only: f_def Let_def prod.case prod.collapse)
  have "PutMapWithHash h k v m (key_positions es, es) =
      rfold (\<lambda>s x. f s (map_prod field_view field_view x)) (key_positions es, es) m"
    unfolding PutMapWithHash_def
  proof (rule rfold_nth)
    fix s :: "(variant \<times> nat) list \<times> (variant \<times> variant) list" and i assume i: "i < length m"
    obtain x y where xy: "m ! i = (x, y)" by (cases "m ! i")
    have "entry_typed k v (x, y)" using assms(2) i xy by (metis nth_mem)
    then have "GetValue (map fst m) i k = Inr (field_view x)" "GetValue (map snd m) i v = Inr (field_view y)"
      using i xy by (simp_all add: GetValue_typed entry_typed_def)
    then show "hash_put_entry h k v m s i = f s (map_prod field_view field_view (m ! i))"
      by (cases s) (simp add: f_def hash_put_entry_def xy split: option.split)
  qed
  also have "\<dots> = rfold f (key_positions es, es) (map (map_prod field_view field_view) m)" by (simp only: rfold_map)
  also have "\<dots> = (let es' = foldl (put (SemanticEqual k)) es (map (map_prod field_view field_view) m) in Inr (key_positions es', es'))"
    by (induction m arbitrary: es) (simp_all add: step Let_def)
  finally show ?thesis .
qed

lemma view_keys_typed:
  "\<forall>x\<in>set xs. entry_typed k v x \<Longrightarrow> \<forall>x\<in>set (map (map_prod field_view field_view) xs). has_type k (fst x)"
  by (simp add: entry_typed_def has_type_field_view)

lemma SemanticEqual_eq: "(\<lambda>a b. Equals a b k = Inr True) = SemanticEqual k"
  by (intro ext) (simp add: SemanticEqual_def)

lemmas lookup_puts_typed = field_equality.lookup_puts [unfolded SemanticEqual_eq]
  and distinct_keys_puts_typed = field_equality.distinct_keys_puts [unfolded SemanticEqual_eq]
  and lookup_dels_typed = field_equality.lookup_dels [unfolded SemanticEqual_eq, folded SemanticEqual_def]

lemma merge_map_entries:
  assumes "\<forall>x\<in>set (a @ b). entry_typed k v x"
  shows "FieldMergeMapAgg_AggImpl h k v (VMap a) (VMap b) =
    Inr (VMap (foldl (put (SemanticEqual k)) [] (map (map_prod field_view field_view) (a @ b))))"
proof (cases "length a + length b \<ge> kHashThreshold \<and> IsHashableType k")
  case True
  have "PutMapWithHash h k v a ([], []) = PutMapWithHash h k v a (key_positions [], [])" by (simp add: key_positions_def)
  then show ?thesis using True assms PutMapWithHash_typed [of k a v h "[]"]
      PutMapWithHash_typed [of k b v h "foldl (put (SemanticEqual k)) [] (map (map_prod field_view field_view) a)"]
    by (simp add: FieldMergeMapAgg_AggImpl_def IsVariantNull_def Let_def)
next
  case False
  let ?es = "foldl (put (SemanticEqual k)) [] (map (map_prod field_view field_view) a)"
  have "\<forall>x\<in>set (map (map_prod field_view field_view) a). has_type k (fst x)"
    using assms by (intro view_keys_typed [of _ k v]) simp
  then have "\<forall>e\<in>set ?es. has_type k (fst e)"
    by (intro lookup_puts_typed(2) [where k = VNull]) simp_all
  then show ?thesis using False assms PutMap_typed [of a k v "[]"] PutMap_typed [of b k v ?es]
    by (auto simp: FieldMergeMapAgg_AggImpl_def IsVariantNull_def Let_def)
qed

lemma retract_keys_typed:
  assumes es: "\<forall>e\<in>set es. has_type k (fst e)" and m: "\<forall>x\<in>set m. has_type k (fst x)"
  shows "rfold (retract_key k m) es [0..<length m] = Inr (foldl (del (SemanticEqual k)) es (map (field_view \<circ> fst) m))"
proof -
  let ?f = "\<lambda>es key. rbind (FindKey es key k) (\<lambda>existing.
     Inr (case existing of Some j \<Rightarrow> remove_index j es | None \<Rightarrow> es))"
  have "rfold (retract_key k m) es [0..<length m] = rfold (\<lambda>es x. ?f es ((field_view \<circ> fst) x)) es m"
    by (rule rfold_nth) (use m in \<open>simp add: retract_key_def GetValue_typed\<close>)
  also have "\<dots> = rfold ?f es (map (field_view \<circ> fst) m)" by (simp only: rfold_map)
  also have "\<dots> = Inr (foldl (del (SemanticEqual k)) es (map (field_view \<circ> fst) m))"
  proof (rule conjunct1 [OF rfold_foldl [where I = "\<lambda>es. \<forall>e\<in>set es. has_type k (fst e)"]])
    fix es :: "(variant \<times> variant) list" and key
    assume es: "\<forall>e\<in>set es. has_type k (fst e)" and "key \<in> set (map (field_view \<circ> fst) m)"
    then have key: "has_type k key" using m has_type_field_view by auto
    have "FindKey es key k = Inr (first_index (\<lambda>e. SemanticEqual k (fst e) key) es)"
      unfolding FindKey_def SemanticEqual_def
      by (rule rindex_first_index) (use es key field_equality.eq_Inr in blast)
    moreover have "\<forall>e\<in>set (del (SemanticEqual k) es key). has_type k (fst e)"
      using es set_del [of "SemanticEqual k" es key] by blast
    ultimately show "?f es key = Inr (del (SemanticEqual k) es key) \<and> (\<forall>e\<in>set (del (SemanticEqual k) es key). has_type k (fst e))"
      by (simp add: remove_first_index)
  qed (use es in simp)
  finally show ?thesis .
qed

text \<open>
  The abstract map of a list of entries: the last value of a key, for keys up to the equality of their type.
\<close>

definition abs_map :: "arrow_type \<Rightarrow> (variant \<times> variant) list \<Rightarrow> variant \<rightharpoonup> variant" where
  "abs_map k m key = (if has_type k key then map_option field_view (lookup (SemanticEqual k) (rev m) key) else None)"

lemma lookup_append: "lookup same (xs @ ys) key = (case lookup same xs key of Some v \<Rightarrow> Some v | None \<Rightarrow> lookup same ys key)"
  by (induction xs) auto

lemma field_view_idem [simp]: "field_view (field_view v) = field_view v"
  by (cases v) simp_all

lemma lookup_view:
  assumes "\<forall>x\<in>set m. has_type k (fst x)" "has_type k key"
  shows "lookup (SemanticEqual k) (map (map_prod field_view field_view) m) key = map_option field_view (lookup (SemanticEqual k) m key)"
  using assms(1)
proof (induction m)
  case (Cons x m)
  have "SemanticEqual k (field_view (fst x)) key \<longleftrightarrow> SemanticEqual k (fst x) key"
    using Cons.prems assms(2) SemanticEqual_sym has_type_field_view SemanticEqual_view by (metis list.set_intros(1))
  then show ?case using Cons by simp
qed simp

lemma lookup_unique:
  assumes "distinct_keys (SemanticEqual k) m" "\<forall>x\<in>set m. has_type k (fst x)" "has_type k key"
  shows "lookup (SemanticEqual k) (rev m) key = lookup (SemanticEqual k) m key"
  using assms(1,2)
proof (induction m)
  case (Cons x m)
  have "lookup (SemanticEqual k) m key = None" if "SemanticEqual k (fst x) key"
  proof (rule lookup_None)
    fix e assume e: "e \<in> set m"
    have "\<not> SemanticEqual k (fst x) (fst e)" "has_type k (fst e)" "has_type k (fst x)"
      using Cons.prems e by (auto simp: distinct_keys_def)
    then show "\<not> SemanticEqual k (fst e) key"
      using that assms(3) SemanticEqual_sym [of k "fst e" key] SemanticEqual_trans [of k "fst x" key "fst e"] by blast
  qed
  then show ?case using Cons by (auto simp: lookup_append distinct_keys_def split: option.splits)
qed simp

lemma abs_map_append: "abs_map k (a @ b) = abs_map k a ++ abs_map k b"
  by (rule ext) (simp add: abs_map_def map_add_def lookup_append split: option.split)

lemma abs_map_puts:
  assumes "\<forall>x\<in>set xs. entry_typed k v x"
  defines "m \<equiv> foldl (put (SemanticEqual k)) [] (map (map_prod field_view field_view) xs)"
  shows "distinct_keys (SemanticEqual k) m" "\<forall>e\<in>set m. has_type k (fst e)" "abs_map k m = abs_map k xs"
proof -
  let ?ys = "map (map_prod field_view field_view) xs"
  note ys = view_keys_typed [OF assms(1)]
  show distinct: "distinct_keys (SemanticEqual k) m"
    unfolding m_def by (rule distinct_keys_puts_typed) (simp add: distinct_keys_def)
  show typed: "\<forall>e\<in>set m. has_type k (fst e)"
    unfolding m_def using ys by (intro lookup_puts_typed(2) [where k = VNull]) simp_all
  have "abs_map k m key = abs_map k xs key" for key
  proof (cases "has_type k key")
    case True
    have "lookup (SemanticEqual k) (rev m) key = lookup (SemanticEqual k) m key"
      by (rule lookup_unique [OF distinct typed True])
    also have "\<dots> = lookup (SemanticEqual k) (rev ?ys) key"
      using lookup_puts_typed(1) [of "[]" k ?ys key] ys True by (simp add: m_def split: option.splits)
    also have "\<dots> = map_option field_view (lookup (SemanticEqual k) (rev xs) key)"
      using lookup_view [of "rev xs" k key] assms(1) True by (simp add: rev_map entry_typed_def)
    finally show ?thesis by (simp add: abs_map_def option.map_comp comp_def)
  qed (simp add: abs_map_def)
  then show "abs_map k m = abs_map k xs" by (rule ext)
qed

lemma lookup_dom: "lookup same m key = None \<longleftrightarrow> (\<forall>e\<in>set m. \<not> same (fst e) key)"
  by (induction m) auto

lemma abs_map_dels:
  assumes m: "distinct_keys (SemanticEqual k) m" "\<forall>e\<in>set m. has_type k (fst e)" and b: "\<forall>x\<in>set b. has_type k (fst x)"
  shows "abs_map k (foldl (del (SemanticEqual k)) m (map (field_view \<circ> fst) b)) = abs_map k m |` (- dom (abs_map k b))"
proof
  fix key
  let ?ks = "map (field_view \<circ> fst) b"
  have ks: "\<forall>x\<in>set ?ks. has_type k x" using b has_type_field_view by auto
  have "distinct_keys (SemanticEqual k) (foldl (del (SemanticEqual k)) m ks) \<and>
      (\<forall>e\<in>set (foldl (del (SemanticEqual k)) m ks). has_type k (fst e))" for ks
    using m
  proof (induction ks arbitrary: m)
    case (Cons x ks)
    have "\<forall>e\<in>set (del (SemanticEqual k) m x). has_type k (fst e)"
      by (meson Cons.prems(2) set_del subsetD)
    then show ?case using Cons.IH [of "del (SemanticEqual k) m x"] distinct_keys_del [OF Cons.prems(1)] by simp
  qed simp
  then have d: "distinct_keys (SemanticEqual k) (foldl (del (SemanticEqual k)) m ?ks)"
    "\<forall>e\<in>set (foldl (del (SemanticEqual k)) m ?ks). has_type k (fst e)" by blast+
  show "abs_map k (foldl (del (SemanticEqual k)) m ?ks) key = (abs_map k m |` (- dom (abs_map k b))) key"
  proof (cases "has_type k key")
    case True
    have "(\<exists>x\<in>set ?ks. SemanticEqual k x key) \<longleftrightarrow> lookup (SemanticEqual k) (map (map_prod field_view field_view) (rev b)) key \<noteq> None"
      by (auto simp: lookup_dom)
    also have "\<dots> \<longleftrightarrow> key \<in> dom (abs_map k b)"
      using lookup_view [of "rev b" k key] b True by (auto simp: abs_map_def)
    finally have hit: "(\<exists>x\<in>set ?ks. SemanticEqual k x key) \<longleftrightarrow> key \<in> dom (abs_map k b)" .
    have "lookup (SemanticEqual k) (foldl (del (SemanticEqual k)) m ?ks) key =
        (if \<exists>x\<in>set ?ks. SemanticEqual k x key then None else lookup (SemanticEqual k) m key)"
      by (rule lookup_dels_typed [OF m(2) ks True m(1)])
    then show ?thesis
      using hit lookup_unique [OF d True] lookup_unique [OF m True] True by (simp add: abs_map_def restrict_map_def)
  qed (simp add: abs_map_def restrict_map_def)
qed

lemma merge_map_retract_entries:
  assumes "\<forall>x\<in>set (a @ b). entry_typed k v x"
  shows "\<exists>m. FieldMergeMapAgg_Retract k v (VMap a) (VMap b) = Inr (VMap m) \<and> abs_map k m = abs_map k a |` (- dom (abs_map k b))"
proof (cases "b = []")
  case True
  have "dom (abs_map k []) = {}" by (auto simp: abs_map_def split: if_splits)
  then have "abs_map k a |` (- dom (abs_map k [])) = abs_map k a" by (auto simp: restrict_map_def)
  then show ?thesis using True by (simp add: FieldMergeMapAgg_Retract_def IsVariantNull_def)
next
  case False
  let ?m = "foldl (put (SemanticEqual k)) [] (map (map_prod field_view field_view) a)"
  have a: "\<forall>x\<in>set a. entry_typed k v x" and b: "\<forall>x\<in>set b. has_type k (fst x)" using assms by (auto simp: entry_typed_def)
  note m = abs_map_puts [OF a]
  have "PutMap k v a [] = Inr ?m" using PutMap_typed [OF a, of "[]"] by simp
  then show ?thesis using False retract_keys_typed [OF m(2) b] abs_map_dels [OF m(1,2) b] m(3)
    by (simp add: FieldMergeMapAgg_Retract_def IsVariantNull_def)
qed

section \<open>Nested update keeps keys unique\<close>

definition row_typed :: "nested_update \<Rightarrow> variant \<Rightarrow> bool" where
  "row_typed agg r \<longleftrightarrow> r \<noteq> VNull \<and> has_type (STRUCT (row_type agg)) r"

definition keys_valid :: "nested_update \<Rightarrow> bool" where
  "keys_valid agg \<longleftrightarrow> (\<forall>f\<in>set (key_fields agg). f < length (row_type agg))"

definition same_keys :: "nested_update \<Rightarrow> variant \<Rightarrow> variant \<Rightarrow> bool" where
  "same_keys agg l r \<longleftrightarrow> (\<forall>f\<in>set (key_fields agg).
     SemanticEqual (snd (row_type agg ! f)) (snd (variant_row l) ! f) (snd (variant_row r) ! f))"

lemma row_field_typed:
  assumes "row_typed agg r" "f < length (row_type agg)"
  shows "f < length (snd (variant_row r))" "has_type (snd (row_type agg ! f)) (snd (variant_row r) ! f)"
  using assms by (cases r; auto simp: row_typed_def has_type_nested)+

lemma KeysEqual_typed:
  assumes "keys_valid agg" "row_typed agg l" "row_typed agg r"
  shows "KeysEqual agg l r = Inr (same_keys agg l r)"
  unfolding KeysEqual_def same_keys_def
proof (rule rall_Inr)
  fix f assume "f \<in> set (key_fields agg)"
  then have f: "f < length (row_type agg)" using assms(1) by (simp add: keys_valid_def)
  note l = row_field_typed [OF assms(2) f] and r = row_field_typed [OF assms(3) f]
  show "rbind (GetValue (snd (variant_row l)) f (snd (row_type agg ! f))) (\<lambda>lhs_value.
      rbind (GetValue (snd (variant_row r)) f (snd (row_type agg ! f))) (\<lambda>rhs_value.
      Equals lhs_value rhs_value (snd (row_type agg ! f)))) =
    Inr (SemanticEqual (snd (row_type agg ! f)) (snd (variant_row l) ! f) (snd (variant_row r) ! f))"
    using l r field_equality.eq_Inr [OF l(2) r(2)] by (simp add: GetValue_typed Equals_field_view SemanticEqual_def)
qed

lemma same_keys_equality: "keys_valid agg \<Longrightarrow> value_equality (row_typed agg) (\<lambda>l r. KeysEqual agg l r)"
proof
  assume k: "keys_valid agg"
  fix a b c assume a: "row_typed agg a" and b: "row_typed agg b" and c: "row_typed agg c"
  have t: "has_type (snd (row_type agg ! f)) (snd (variant_row r) ! f)" if "row_typed agg r" "f \<in> set (key_fields agg)" for f r
    using that k row_field_typed(2) [OF that(1)] by (simp add: keys_valid_def)
  show "is_ok (KeysEqual agg a b)" by (simp add: KeysEqual_typed [OF k a b])
  show "KeysEqual agg a a = Inr True"
    using SemanticEqual_refl t [OF a] by (simp add: KeysEqual_typed [OF k a a] same_keys_def)
  show "KeysEqual agg b a = Inr True" if "KeysEqual agg a b = Inr True"
    using that SemanticEqual_sym [OF t [OF a] t [OF b]] by (simp add: KeysEqual_typed [OF k] a b same_keys_def)
  show "KeysEqual agg a c = Inr True" if "KeysEqual agg a b = Inr True" "KeysEqual agg b c = Inr True"
    using that SemanticEqual_trans [OF t [OF a] t [OF b] t [OF c]] by (simp add: KeysEqual_typed [OF k] a b c same_keys_def)
qed

definition unique_rows :: "nested_update \<Rightarrow> variant list \<Rightarrow> bool" where
  "unique_rows agg rows \<longleftrightarrow> (\<forall>r\<in>set rows. row_typed agg r) \<and> sorted_wrt (\<lambda>l r. \<not> same_keys agg l r) rows"

context value_equality
begin

lemma sorted_update:
  assumes "\<forall>r\<in>set rows. dom r" "sorted_wrt (\<lambda>l r. eq l r \<noteq> Inr True) rows" "j < length rows" "dom x" "eq (rows ! j) x = Inr True"
  shows "sorted_wrt (\<lambda>l r. eq l r \<noteq> Inr True) (rows[j := x])"
  unfolding sorted_wrt_iff_nth_less
proof (intro allI impI)
  fix i k assume ik: "i < k" "k < length (rows[j := x])"
  have d: "dom (rows ! i)" "dom (rows ! j)" "dom (rows ! k)" using assms(1,3) ik by simp_all
  have ne: "eq (rows ! i) (rows ! k) \<noteq> Inr True" using assms(2) ik by (simp add: sorted_wrt_iff_nth_less)
  show "eq (rows[j := x] ! i) (rows[j := x] ! k) \<noteq> Inr True"
  proof (cases "j = i \<or> j = k")
    case True
    then show ?thesis
      using ne d ik assms(3,4,5) same_left [of "rows ! j" x "rows ! k"] eq_sym [of "rows ! k" x] eq_sym [of "rows ! j" x]
        eq_trans [of "rows ! i" x "rows ! k"] by auto
  next
    case False
    then show ?thesis using ne ik by simp
  qed
qed

end

lemma unique_rows_alt: "keys_valid agg \<Longrightarrow> unique_rows agg rows \<longleftrightarrow>
    (\<forall>r\<in>set rows. row_typed agg r) \<and> sorted_wrt (\<lambda>l r. KeysEqual agg l r \<noteq> Inr True) rows"
  by (auto simp: unique_rows_def sorted_wrt_iff_nth_less KeysEqual_typed)

text \<open>A row replaces the row with its key, or is appended, or is dropped.\<close>

lemma find_row:
  assumes k: "keys_valid agg" and u: "unique_rows agg rows" and x: "row_typed agg x"
  obtains "rindex (\<lambda>old. KeysEqual agg old x) rows = Inr None" "unique_rows agg (rows @ [x])"
  | j where "rindex (\<lambda>old. KeysEqual agg old x) rows = Inr (Some j)" "j < length rows" "unique_rows agg (rows[j := x])"
proof -
  note eqv = same_keys_equality [OF k] and u' = u [unfolded unique_rows_alt [OF k]]
  show thesis
  proof (rule value_equality.rindex_eq [OF eqv, of rows x])
    assume r: "rindex (\<lambda>old. KeysEqual agg old x) rows = Inr None" "\<forall>v\<in>set rows. KeysEqual agg v x \<noteq> Inr True"
    then have "unique_rows agg (rows @ [x])" using u' x by (auto simp: unique_rows_alt [OF k] sorted_wrt_append)
    then show thesis using that(1) r(1) by simp
  next
    fix j assume r: "rindex (\<lambda>old. KeysEqual agg old x) rows = Inr (Some j)" "j < length rows" "KeysEqual agg (rows ! j) x = Inr True"
    have "sorted_wrt (\<lambda>l r. KeysEqual agg l r \<noteq> Inr True) (rows[j := x])"
      by (rule value_equality.sorted_update [OF eqv]) (use u' r x in simp_all)
    moreover have "\<forall>r\<in>set (rows[j := x]). row_typed agg r" using u' x set_update_subset_insert [of rows j x] by auto
    ultimately show thesis using that(2) r by (simp add: unique_rows_alt [OF k])
  qed (use u' x in simp_all)
qed

lemma AcceptKey_ok: "null_strategy agg \<noteq> ERROR \<Longrightarrow> \<exists>b. AcceptKey agg x = Inr b"
  by (cases "null_strategy agg") (auto simp: AcceptKey_def Let_def)

lemma add_row_unique:
  assumes k: "keys_valid agg" and n: "null_strategy agg \<noteq> ERROR" and u: "unique_rows agg rows" and x: "x = VNull \<or> row_typed agg x"
  shows "\<exists>rows'. add_row agg limit rows x = Inr rows' \<and> unique_rows agg rows' \<and> set rows' \<subseteq> insert x (set rows) \<and>
    length rows' \<le> (if limit then max (length rows) (count_limit agg) else Suc (length rows))"
proof (cases "x = VNull \<or> AcceptKey agg x = Inr False")
  case True
  then show ?thesis using u by (auto simp: add_row_def)
next
  case False
  then have x': "row_typed agg x" "x \<noteq> VNull" "AcceptKey agg x = Inr True" using x AcceptKey_ok [OF n, of x] by auto
  show ?thesis
  proof (rule find_row [OF k u x'(1)])
    assume "rindex (\<lambda>old. KeysEqual agg old x) rows = Inr None" "unique_rows agg (rows @ [x])"
    then show ?thesis using u x'(2,3) by (auto simp: add_row_def)
  next
    fix j assume "rindex (\<lambda>old. KeysEqual agg old x) rows = Inr (Some j)" "j < length rows" "unique_rows agg (rows[j := x])"
    then show ?thesis using u x'(2,3) set_update_subset_insert [of rows j x] by (auto simp: add_row_def split: option.split)
  qed
qed

lemma add_rows_unique:
  assumes "keys_valid agg" "null_strategy agg \<noteq> ERROR" "unique_rows agg rows" "\<forall>x\<in>set xs. x = VNull \<or> row_typed agg x"
  shows "\<exists>rows'. rfold (add_row agg limit) rows xs = Inr rows' \<and> unique_rows agg rows' \<and> set rows' \<subseteq> set rows \<union> set xs \<and>
    length rows' \<le> (if limit then max (length rows) (count_limit agg) else length rows + length xs)"
  using assms(3,4)
proof (induction xs arbitrary: rows)
  case (Cons x xs)
  obtain r1 where r1: "add_row agg limit rows x = Inr r1" "unique_rows agg r1" "set r1 \<subseteq> insert x (set rows)"
    "length r1 \<le> (if limit then max (length rows) (count_limit agg) else Suc (length rows))"
    using add_row_unique [OF assms(1,2) Cons.prems(1), of x limit] Cons.prems(2) by auto
  obtain r2 where r2: "rfold (add_row agg limit) r1 xs = Inr r2" "unique_rows agg r2" "set r2 \<subseteq> set r1 \<union> set xs"
    "length r2 \<le> (if limit then max (length r1) (count_limit agg) else length r1 + length xs)"
    using Cons.IH [OF r1(2)] Cons.prems(2) by auto
  then show ?case using r1 by (intro exI [of _ r2]) (auto split: if_splits)
qed simp

lemma erase_if_filter: "(\<And>x. x \<in> set xs \<Longrightarrow> p x = Inr (P x)) \<Longrightarrow> erase_if p xs = Inr (filter (\<lambda>x. \<not> P x) xs)"
  by (induction xs) auto

lemma collect_rows_unique:
  assumes "keys_valid agg" "null_strategy agg \<noteq> ERROR" "\<forall>x\<in>set xs. x = VNull \<or> row_typed agg x"
  shows "\<exists>rows. rfold (collect_row agg) [] xs = Inr rows \<and> unique_rows agg rows \<and> set rows \<subseteq> set xs"
proof -
  let ?agg = "agg\<lparr>sequence_comparator := None\<rparr>"
  have keys: "KeysEqual ?agg = KeysEqual agg" "AcceptKey ?agg = AcceptKey agg" "row_typed ?agg = row_typed agg" "same_keys ?agg = same_keys agg"
    by (auto simp: fun_eq_iff KeysEqual_def AcceptKey_def row_typed_def same_keys_def)
  then have "collect_row agg = add_row ?agg False"
    by (auto simp: fun_eq_iff collect_row_def add_row_def split: option.split intro!: rbind_cong)
  moreover have "unique_rows ?agg = unique_rows agg" by (simp add: fun_eq_iff unique_rows_def keys)
  moreover have "keys_valid ?agg" using assms(1) by (simp add: keys_valid_def)
  ultimately show ?thesis
    using add_rows_unique [of ?agg "[]" xs False] assms(2,3) keys by (simp add: unique_rows_def) blast
qed

lemma retract_keyed_rows:
  assumes "keys_valid agg" "null_strategy agg \<noteq> ERROR" "unique_rows agg rows" "\<forall>x\<in>set xs. x = VNull \<or> row_typed agg x"
  shows "\<exists>rows'. rfold (retract_keyed_row agg) rows xs = Inr rows' \<and> unique_rows agg rows' \<and> set rows' \<subseteq> set rows \<and>
    (\<forall>r\<in>set rows'. \<forall>x\<in>set xs. x \<noteq> VNull \<longrightarrow> AcceptKey agg x = Inr True \<longrightarrow> \<not> same_keys agg r x)"
  using assms(3,4)
proof (induction xs arbitrary: rows)
  case (Cons x xs)
  let ?drop = "x \<noteq> VNull \<and> AcceptKey agg x = Inr True"
  let ?rows = "if ?drop then filter (\<lambda>r. \<not> same_keys agg r x) rows else rows"
  have step: "retract_keyed_row agg rows x = Inr ?rows"
  proof (cases ?drop)
    case True
    then have "row_typed agg x" using Cons.prems(2) by simp
    then have "erase_if (\<lambda>old. KeysEqual agg old x) rows = Inr (filter (\<lambda>r. \<not> same_keys agg r x) rows)"
      using Cons.prems(1) by (intro erase_if_filter) (simp add: unique_rows_def KeysEqual_typed [OF assms(1)])
    then show ?thesis using True by (simp add: retract_keyed_row_def)
  next
    case False
    then show ?thesis using AcceptKey_ok [OF assms(2), of x] by (auto simp: retract_keyed_row_def)
  qed
  have "unique_rows agg ?rows" using Cons.prems(1) by (auto simp: unique_rows_def sorted_wrt_filter)
  then obtain rows' where "rfold (retract_keyed_row agg) ?rows xs = Inr rows'" "unique_rows agg rows'" "set rows' \<subseteq> set ?rows"
    "\<forall>r\<in>set rows'. \<forall>x\<in>set xs. x \<noteq> VNull \<longrightarrow> AcceptKey agg x = Inr True \<longrightarrow> \<not> same_keys agg r x"
    using Cons.IH [of ?rows] Cons.prems(2) by auto
  then show ?case using step by (intro exI [of _ rows']) (auto split: if_splits)
qed simp

section \<open>Properties\<close>

text \<open>
  C21. Collecting arrays without duplicates, by the hash set or by the linear search, gives an array with one
  element for every class of equal elements of both, the first one; collecting with duplicates appends. Retracting an
  array removes elements as a multiset: of every class, as many as are retracted and present.
\<close>

theorem collect_correct:
  assumes "\<forall>v\<in>set (a @ b). has_type t v"
  shows "(\<exists>vs. FieldCollectAgg_AggImpl h t True (VArray a) (VArray b) = Inr (VArray vs) \<and>
      vs = keep_first (SemanticEqual t) (map field_view (a @ b)) \<and> sorted_wrt (\<lambda>u v. \<not> SemanticEqual t u v) vs \<and>
      set vs \<subseteq> field_view ` set (a @ b) \<and> (\<forall>x\<in>set (a @ b). \<exists>u\<in>set vs. SemanticEqual t u (field_view x))) \<and>
    FieldCollectAgg_AggImpl h t False (VArray a) (VArray b) = Inr (VArray (map field_view (a @ b))) \<and>
    (\<exists>vs. FieldCollectAgg_Retract t (VArray a) (VArray b) = Inr (VArray vs) \<and>
      (\<forall>x. has_type t x \<longrightarrow> class_count t x vs = class_count t x a - class_count t x b))"
proof (intro conjI)
  let ?vs = "keep_first (SemanticEqual t) (map field_view (a @ b))"
  have "\<exists>u\<in>set ?vs. SemanticEqual t u (field_view x)" if "x \<in> set (a @ b)" for x
    unfolding keep_first_def
    by (rule keep_new_covers) (use that assms SemanticEqual_refl has_type_field_view in auto)
  then show "\<exists>vs. FieldCollectAgg_AggImpl h t True (VArray a) (VArray b) = Inr (VArray vs) \<and>
      vs = ?vs \<and> sorted_wrt (\<lambda>u v. \<not> SemanticEqual t u v) vs \<and>
      set vs \<subseteq> field_view ` set (a @ b) \<and> (\<forall>x\<in>set (a @ b). \<exists>u\<in>set vs. SemanticEqual t u (field_view x))"
    using collect_distinct_values [OF assms] keep_new_sorted [of "SemanticEqual t" "[]" "map field_view (a @ b)"]
      keep_new_set [of "SemanticEqual t" "[]" "map field_view (a @ b)"] by (simp add: keep_first_def image_Un)
qed (use collect_all_values [OF assms] collect_retract_counts [of a t b] assms in auto)

theorem collect_correct_witness:
  "\<exists>vs ws. FieldCollectAgg_AggImpl example_hash INT32 True (VArray [VInt 1, VInt 2]) (VArray [VInt 2, VNull]) = Inr (VArray vs) \<and>
     length vs = 3 \<and> FieldCollectAgg_Retract INT32 (VArray [VInt 1, VInt 2]) (VArray [VInt 2]) = Inr (VArray ws) \<and>
     class_count INT32 (VInt 2) ws = 0"
proof -
  have int: "SemanticEqual INT32 (VInt x) (VInt y) \<longleftrightarrow> x = y" "\<not> SemanticEqual INT32 (VInt x) VNull" for x y
    by (simp_all add: SemanticEqual_def Equals.simps [of "VInt x" "VInt y"] IsVariantNull_def)
  have "keep_first (SemanticEqual INT32) (map field_view ([VInt 1, VInt 2] @ [VInt 2, VNull])) = [VInt 1, VInt 2, VNull]"
    by (simp add: keep_first_def keep_new_def int)
  then have 1: "FieldCollectAgg_AggImpl example_hash INT32 True (VArray [VInt 1, VInt 2]) (VArray [VInt 2, VNull]) = Inr (VArray [VInt 1, VInt 2, VNull])"
    using collect_correct [of "[VInt 1, VInt 2]" "[VInt 2, VNull]" INT32 example_hash] by auto
  obtain ws where ws: "FieldCollectAgg_Retract INT32 (VArray [VInt 1, VInt 2]) (VArray [VInt 2]) = Inr (VArray ws)"
    "\<forall>x. has_type INT32 x \<longrightarrow> class_count INT32 x ws = class_count INT32 x [VInt 1, VInt 2] - class_count INT32 x [VInt 2]"
    using collect_correct [of "[VInt 1, VInt 2]" "[VInt 2]" INT32 example_hash] by auto
  have "class_count INT32 (VInt 2) ws = 0" using ws(2) by (simp add: class_count_def int)
  then show ?thesis using 1 ws(1) by simp
qed

text \<open>
  C14. Merging maps refines the update of an abstract map: the value of a key is the input's, if the
  input has the key, and the accumulator's otherwise, whichever of the hashed and the linear path is taken, and the
  keys of the result are pairwise different. Retracting a map removes its keys.
\<close>

theorem merge_map_refines:
  assumes "\<forall>x\<in>set (a @ b). entry_typed k v x"
  shows "\<exists>m m'. FieldMergeMapAgg_AggImpl h k v (VMap a) (VMap b) = Inr (VMap m) \<and> distinct_keys (SemanticEqual k) m \<and>
    abs_map k m = abs_map k a ++ abs_map k b \<and>
    FieldMergeMapAgg_Retract k v (VMap a) (VMap b) = Inr (VMap m') \<and> abs_map k m' = abs_map k a |` (- dom (abs_map k b))"
  using merge_map_entries [OF assms] abs_map_puts [OF assms] merge_map_retract_entries [OF assms] abs_map_append [of k a b]
  by simp

theorem merge_map_refines_witness:
  "\<exists>m m'. FieldMergeMapAgg_AggImpl example_hash INT32 STRING (VMap [(VInt 1, VString [97])]) (VMap [(VInt 1, VString [98])]) = Inr (VMap m) \<and>
    abs_map INT32 m (VInt 1) = Some (VStringView [98]) \<and>
    FieldMergeMapAgg_Retract INT32 STRING (VMap [(VInt 1, VString [97])]) (VMap [(VInt 1, VString [98])]) = Inr (VMap m') \<and>
    abs_map INT32 m' (VInt 1) = None"
proof -
  have b: "abs_map INT32 [(VInt 1, VString [98])] (VInt 1) = Some (VStringView [98])"
    by (simp add: abs_map_def SemanticEqual_def Equals.simps IsVariantNull_def)
  show ?thesis
    using merge_map_refines [of "[(VInt 1, VString [97])]" "[(VInt 1, VString [98])]" INT32 STRING example_hash] b
    by (auto simp: entry_typed_def restrict_map_def)
qed

text \<open>
  C15. A nested update with keys never fails unless null keys are errors, and keeps the keys of the rows pairwise
  different and, beyond the rows that were there, their number within the limit. A retraction keeps only
  rows of the accumulator and leaves none with the key of a retracted row.
\<close>

theorem nested_update_unique_keys:
  assumes "keys_valid agg" "key_fields agg \<noteq> []" "null_strategy agg \<noteq> ERROR" "\<forall>x\<in>set (a @ b). x = VNull \<or> row_typed agg x"
  shows "\<exists>rows rows'. FieldNestedUpdateAgg_AggImpl agg (VArray a) (VArray b) = Inr (VArray rows) \<and> unique_rows agg rows \<and>
      set rows \<subseteq> set (a @ b) \<and> length rows \<le> max (length a) (count_limit agg) \<and>
    FieldNestedUpdateAgg_Retract agg (VArray a) (VArray b) = Inr (VArray rows') \<and> unique_rows agg rows' \<and> set rows' \<subseteq> set a \<and>
      (\<forall>r\<in>set rows'. \<forall>x\<in>set b. x \<noteq> VNull \<longrightarrow> AcceptKey agg x = Inr True \<longrightarrow> \<not> same_keys agg r x)"
proof -
  have ab: "\<forall>x\<in>set a. x = VNull \<or> row_typed agg x" "\<forall>x\<in>set b. x = VNull \<or> row_typed agg x" using assms(4) by auto
  obtain r1 where r1: "rfold (add_row agg False) [] a = Inr r1" "unique_rows agg r1" "set r1 \<subseteq> set a" "length r1 \<le> length a"
    using add_rows_unique [OF assms(1,3) _ ab(1), of "[]" False] by (auto simp: unique_rows_def)
  obtain r2 where r2: "rfold (add_row agg True) r1 b = Inr r2" "unique_rows agg r2" "set r2 \<subseteq> set r1 \<union> set b"
    "length r2 \<le> max (length r1) (count_limit agg)"
    using add_rows_unique [OF assms(1,3) r1(2) ab(2), of True] by auto
  obtain c1 where c1: "rfold (collect_row agg) [] a = Inr c1" "unique_rows agg c1" "set c1 \<subseteq> set a"
    using collect_rows_unique [OF assms(1,3) ab(1)] by auto
  obtain c2 where c2: "rfold (retract_keyed_row agg) c1 b = Inr c2" "unique_rows agg c2" "set c2 \<subseteq> set c1"
    "\<forall>r\<in>set c2. \<forall>x\<in>set b. x \<noteq> VNull \<longrightarrow> AcceptKey agg x = Inr True \<longrightarrow> \<not> same_keys agg r x"
    using retract_keyed_rows [OF assms(1,3) c1(2) ab(2)] by auto
  have agg: "FieldNestedUpdateAgg_AggImpl agg (VArray a) (VArray b) = Inr (VArray r2)"
    using r1(1) r2(1) assms(2) by (simp add: FieldNestedUpdateAgg_AggImpl_def IsVariantNull_def optional_array_def)
  have ret: "FieldNestedUpdateAgg_Retract agg (VArray a) (VArray b) = Inr (VArray c2)"
    using c1(1) c2(1) assms(2) by (simp add: FieldNestedUpdateAgg_Retract_def IsVariantNull_def)
  have "set r2 \<subseteq> set (a @ b)" "length r2 \<le> max (length a) (count_limit agg)" "set c2 \<subseteq> set a"
    using r1 r2 c1 c2 by auto
  then show ?thesis using agg ret r2(2) c2(2,4) by blast
qed

definition example_nested :: nested_update where
  "example_nested = \<lparr>row_type = [(''id'', INT32), (''v'', INT32)], key_fields = [0], null_strategy = IGNORE,
     sequence_comparator = None, count_limit = 10\<rparr>"

theorem nested_update_unique_keys_witness:
  "\<exists>rows rows'. FieldNestedUpdateAgg_AggImpl example_nested (VArray [VRow INSERT [VInt 1, VInt 5]]) (VArray [VNull, VRow INSERT [VInt 1, VInt 6]]) =
      Inr (VArray rows) \<and> unique_rows example_nested rows \<and>
    FieldNestedUpdateAgg_Retract example_nested (VArray [VRow INSERT [VInt 1, VInt 5]]) (VArray [VNull, VRow INSERT [VInt 1, VInt 6]]) =
      Inr (VArray rows') \<and> unique_rows example_nested rows'"
proof -
  have "row_typed example_nested (VRow INSERT [VInt 1, VInt x])" for x
    by (auto simp: row_typed_def has_type_nested example_nested_def less_Suc_eq)
  then show ?thesis
    using nested_update_unique_keys [of example_nested "[VRow INSERT [VInt 1, VInt 5]]" "[VNull, VRow INSERT [VInt 1, VInt 6]]"]
    by (auto simp: example_nested_def keys_valid_def)
qed

end
