(* ===== verification/Aggregate_Merge.thy ===== *)
theory Aggregate_Merge
  imports Merge_Functions Scalar_Aggregators Product_Aggregator String_Aggregators Nested_Aggregators
begin

text \<open>
  The aggregation merge engine: the interface \<open>FieldAggregator\<close> over all aggregators
  (\<^verbatim>\<open>core/mergetree/compact/aggregate/field_aggregator.h\<close>), the factory and \<open>AggregateMergeFunction\<close>. An
  aggregator is a constructor with its members; the flag of the first value aggregators is state, kept by
  the merge function. Options are the values the getters of \<open>CoreOptions\<close> return. The lemmas show that the
  function is a merge function, that each field of the result is the fold of its aggregator over
  that field alone, and that aggregation preserves the types of the fields.
\<close>

section \<open>Aggregators\<close>

text \<open>What the aggregators take from libraries: decimals, hashes and sketches.\<close>

record agg_libs =
  lib_decimal256 :: decimal256
  lib_hash :: std_hash
  lib_hll_union :: "bytes \<Rightarrow> bytes \<Rightarrow> bytes option"
  lib_theta_union :: "bytes \<Rightarrow> bytes \<Rightarrow> bytes option"

datatype field_aggregator =
    FieldPrimaryKeyAgg
  | FieldLastNonNullValueAgg
  | FieldFirstNonNullValueAgg
  | FieldLastValueAgg
  | FieldFirstValueAgg
  | FieldSumAgg "variant \<Rightarrow> variant \<Rightarrow> variant" "variant \<Rightarrow> variant"
  | FieldProductAgg "variant \<Rightarrow> variant \<Rightarrow> variant result" "variant \<Rightarrow> variant \<Rightarrow> variant result"
  | FieldMinAgg "variant \<Rightarrow> variant \<Rightarrow> variant"
  | FieldMaxAgg "variant \<Rightarrow> variant \<Rightarrow> variant"
  | FieldBoolOrAgg
  | FieldBoolAndAgg
  | FieldListaggAgg bytes bool
  | FieldCollectAgg std_hash arrow_type bool
  | FieldMergeMapAgg std_hash arrow_type arrow_type
  | FieldNestedUpdateAgg nested_update
  | FieldHllSketchAgg "bytes \<Rightarrow> bytes \<Rightarrow> bytes option"
  | FieldThetaSketchAgg "bytes \<Rightarrow> bytes \<Rightarrow> bytes option"
  | FieldIgnoreRetractAgg field_aggregator

definition keep_flag :: "bool \<Rightarrow> variant result \<Rightarrow> (variant \<times> bool) result" where
  "keep_flag initialized r = rbind r (\<lambda>v. Inr (v, initialized))"

fun Agg :: "field_aggregator \<Rightarrow> bool \<Rightarrow> variant \<Rightarrow> variant \<Rightarrow> (variant \<times> bool) result" where
  "Agg FieldPrimaryKeyAgg i a x = Inr (FieldPrimaryKeyAgg_Agg a x, i)"
| "Agg FieldLastNonNullValueAgg i a x = Inr (FieldLastNonNullValueAgg_Agg a x, i)"
| "Agg FieldFirstNonNullValueAgg i a x = Inr (FieldFirstNonNullValueAgg_Agg i a x)"
| "Agg FieldLastValueAgg i a x = Inr (FieldLastValueAgg_Agg a x, i)"
| "Agg FieldFirstValueAgg i a x = Inr (FieldFirstValueAgg_Agg i a x)"
| "Agg (FieldSumAgg f g) i a x = keep_flag i (FieldSumAgg_Agg f a x)"
| "Agg (FieldProductAgg f g) i a x = keep_flag i (FieldProductAgg_Agg f a x)"
| "Agg (FieldMinAgg f) i a x = keep_flag i (FieldMinAgg_Agg f a x)"
| "Agg (FieldMaxAgg f) i a x = keep_flag i (FieldMaxAgg_Agg f a x)"
| "Agg FieldBoolOrAgg i a x = keep_flag i (FieldBoolOrAgg_Agg a x)"
| "Agg FieldBoolAndAgg i a x = keep_flag i (FieldBoolAndAgg_Agg a x)"
| "Agg (FieldListaggAgg d u) i a x = Inr (FieldListaggAgg_Agg d u a x, i)"
| "Agg (FieldCollectAgg h t u) i a x = keep_flag i (FieldCollectAgg_AggImpl h t u a x)"
| "Agg (FieldMergeMapAgg h k v) i a x = keep_flag i (FieldMergeMapAgg_AggImpl h k v a x)"
| "Agg (FieldNestedUpdateAgg n) i a x = keep_flag i (FieldNestedUpdateAgg_AggImpl n a x)"
| "Agg (FieldHllSketchAgg u) i a x = keep_flag i (FieldHllSketchAgg_Agg u a x)"
| "Agg (FieldThetaSketchAgg u) i a x = keep_flag i (FieldThetaSketchAgg_Agg u a x)"
| "Agg (FieldIgnoreRetractAgg agg) i a x = Agg agg i a x"

text \<open>An older value: the arguments swapped, except for \<open>collect\<close>.\<close>

fun AggReversed :: "field_aggregator \<Rightarrow> bool \<Rightarrow> variant \<Rightarrow> variant \<Rightarrow> (variant \<times> bool) result" where
  "AggReversed (FieldCollectAgg h t u) i a x = keep_flag i (FieldCollectAgg_AggImpl h t u a x)"
| "AggReversed agg i a x = Agg agg i x a"

definition no_retract :: "variant result" where
  "no_retract = Inl (Invalid ''Aggregate function {} does not support retraction, if you allow this function to ignore retraction messages, you can configure fields.field_name.ignore-retract=true.'')"

fun Retract :: "field_aggregator \<Rightarrow> variant \<Rightarrow> variant \<Rightarrow> variant result" where
  "Retract FieldPrimaryKeyAgg a x = Inr (FieldPrimaryKeyAgg_Retract a x)"
| "Retract FieldLastNonNullValueAgg a x = Inr (FieldLastNonNullValueAgg_Retract a x)"
| "Retract FieldLastValueAgg a x = Inr (FieldLastValueAgg_Retract a x)"
| "Retract (FieldSumAgg f g) a x = Inr (FieldSumAgg_Retract f g a x)"
| "Retract (FieldProductAgg f g) a x = FieldProductAgg_Retract g a x"
| "Retract (FieldCollectAgg h t u) a x = FieldCollectAgg_Retract t a x"
| "Retract (FieldMergeMapAgg h k v) a x = FieldMergeMapAgg_Retract k v a x"
| "Retract (FieldNestedUpdateAgg n) a x = FieldNestedUpdateAgg_Retract n a x"
| "Retract (FieldIgnoreRetractAgg agg) a x = Inr a"
| "Retract _ a x = no_retract"

section \<open>The factory\<close>

record agg_options =
  FieldListAggDelimiter :: "string \<Rightarrow> bytes result"
  FieldCollectAggDistinct :: "string \<Rightarrow> bool result"
  FieldNestedOptions :: "string \<Rightarrow> nested_options"
  AggregationRemoveRecordOnDelete :: bool
  FieldAggIgnoreRetract :: "string \<Rightarrow> bool result"
  GetSequenceField :: "string list"
  GetFieldAggFunc :: "string \<Rightarrow> string option result"
  GetFieldsDefaultFunc :: "string option"

definition plain_aggregator :: "agg_libs \<Rightarrow> string \<Rightarrow> arrow_type \<Rightarrow> string \<Rightarrow> agg_options \<Rightarrow> field_aggregator result" where
  "plain_aggregator libs field_name t str_agg options =
     (if str_agg = ''primary-key'' then Inr FieldPrimaryKeyAgg
      else if str_agg = ''last_non_null_value'' then Inr FieldLastNonNullValueAgg
      else if str_agg = ''first_non_null_value'' then Inr FieldFirstNonNullValueAgg
      else if str_agg = ''last_value'' then Inr FieldLastValueAgg
      else if str_agg = ''first_value'' then Inr FieldFirstValueAgg
      else if str_agg = ''sum'' then
        rbind (CreateSumFunc t) (\<lambda>f. rbind (CreateNegFunc t) (\<lambda>g. Inr (FieldSumAgg f g)))
      else if str_agg = ''product'' then
        rbind (FieldProductAgg_Create (lib_decimal256 libs) t) (\<lambda>fg. Inr (FieldProductAgg (fst fg) (snd fg)))
      else if str_agg = ''min'' then rbind (CreateMinFunc t) (\<lambda>f. Inr (FieldMinAgg f))
      else if str_agg = ''max'' then rbind (CreateMaxFunc t) (\<lambda>f. Inr (FieldMaxAgg f))
      else if str_agg = ''bool_or'' then rbind (FieldBoolOrAgg_Create t) (\<lambda>_. Inr FieldBoolOrAgg)
      else if str_agg = ''bool_and'' then rbind (FieldBoolAndAgg_Create t) (\<lambda>_. Inr FieldBoolAndAgg)
      else if str_agg = ''listagg'' then
        rbind (FieldListaggAgg_Create t (FieldListAggDelimiter options field_name) (FieldCollectAggDistinct options field_name))
          (\<lambda>du. Inr (FieldListaggAgg (fst du) (snd du)))
      else if str_agg = ''collect'' then
        rbind (FieldCollectAgg_Create t (FieldCollectAggDistinct options field_name))
          (\<lambda>eu. Inr (FieldCollectAgg (lib_hash libs) (fst eu) (snd eu)))
      else if str_agg = ''merge_map'' then
        rbind (FieldMergeMapAgg_Create t) (\<lambda>kv. Inr (FieldMergeMapAgg (lib_hash libs) (fst kv) (snd kv)))
      else if str_agg = ''nested_update'' then
        rbind (FieldNestedUpdateAgg_Create t (FieldNestedOptions options field_name)) (\<lambda>n. Inr (FieldNestedUpdateAgg n))
      else if str_agg = ''hll_sketch'' then
        rbind (ValidateSketchType t) (\<lambda>_. Inr (FieldHllSketchAgg (lib_hll_union libs)))
      else if str_agg = ''theta_sketch'' then
        rbind (ValidateSketchType t) (\<lambda>_. Inr (FieldThetaSketchAgg (lib_theta_union libs)))
      else Inl (Invalid ''Use unsupported aggregation {} or spell aggregate function incorrectly!''))"

definition CreateFieldAggregator :: "agg_libs \<Rightarrow> string \<Rightarrow> arrow_type \<Rightarrow> string \<Rightarrow> agg_options \<Rightarrow> field_aggregator result" where
  "CreateFieldAggregator libs field_name t str_agg options =
     rbind (plain_aggregator libs field_name t str_agg options) (\<lambda>agg.
     let remove_record_on_retract = AggregationRemoveRecordOnDelete options in
     rbind (FieldAggIgnoreRetract options field_name) (\<lambda>ignore_retract.
     if remove_record_on_retract \<and> ignore_retract
     then Inl (Invalid ''{} and {}.{}.{} have conflicting behavior so should not be enabled at the same time.'')
     else Inr (if ignore_retract then FieldIgnoreRetractAgg agg else agg)))"

section \<open>The merge function\<close>

record aggregate_config =
  agg_getters :: "(row \<Rightarrow> variant) list"
  agg_aggregators :: "field_aggregator list"
  agg_remove_on_delete :: bool

record aggregate_merge =
  current_delete_row :: bool
  latest_kv :: "key_value option"
  agg_row :: row
  agg_flags :: "bool list"

definition GetAggFuncName :: "string \<Rightarrow> string list \<Rightarrow> agg_options \<Rightarrow> string result" where
  "GetAggFuncName field_name primary_keys options =
     (if field_name \<in> set (GetSequenceField options) then Inr ''last_value''
      else if field_name \<in> set primary_keys then Inr ''primary-key''
      else rbind (GetFieldAggFunc options field_name) (\<lambda>str_agg.
        let str_agg' = (if str_agg = None then GetFieldsDefaultFunc options else str_agg) in
        Inr (case str_agg' of None \<Rightarrow> ''last_non_null_value'' | Some f \<Rightarrow> f)))"

definition AggregateMergeFunction_Create :: "agg_libs \<Rightarrow> (string \<times> arrow_type) list \<Rightarrow> string list \<Rightarrow> agg_options \<Rightarrow>
    aggregate_config result" where
  "AggregateMergeFunction_Create libs value_schema primary_keys options =
     rbind (rmap (\<lambda>f. rbind (GetAggFuncName (fst f) primary_keys options) (\<lambda>str_agg.
       CreateFieldAggregator libs (fst f) (snd f) str_agg options)) value_schema) (\<lambda>aggs.
     rbind (CreateFieldGetters (map snd value_schema) True) (\<lambda>gs.
     Inr \<lparr>agg_getters = gs, agg_aggregators = aggs, agg_remove_on_delete = AggregationRemoveRecordOnDelete options\<rparr>))"

definition null_row :: "aggregate_config \<Rightarrow> row" where
  "null_row cfg = replicate (length (agg_getters cfg)) VNull"

definition Aggregate_Reset :: "aggregate_config \<Rightarrow> aggregate_merge \<Rightarrow> aggregate_merge" where
  "Aggregate_Reset cfg s = \<lparr>current_delete_row = False, latest_kv = None, agg_row = null_row cfg,
     agg_flags = replicate (length (agg_aggregators cfg)) False\<rparr>"

definition aggregate_field :: "aggregate_config \<Rightarrow> bool \<Rightarrow> row \<Rightarrow> row \<times> bool list \<Rightarrow> nat \<Rightarrow> (row \<times> bool list) result" where
  "aggregate_field cfg is_retract v s i =
     (case s of (r, flags) \<Rightarrow>
       let accumulator = (agg_getters cfg ! i) r;
           input_field = (agg_getters cfg ! i) v
       in if is_retract
          then rbind (Retract (agg_aggregators cfg ! i) accumulator input_field) (\<lambda>merged. Inr (r[i := merged], flags))
          else rbind (Agg (agg_aggregators cfg ! i) (flags ! i) accumulator input_field) (\<lambda>merged.
            Inr (r[i := fst merged], flags[i := snd merged])))"

definition Aggregate_Add :: "aggregate_config \<Rightarrow> aggregate_merge \<Rightarrow> key_value \<Rightarrow> aggregate_merge result" where
  "Aggregate_Add cfg s kv =
     (if agg_remove_on_delete cfg \<and> value_kind kv = DELETE then
        Inr (s\<lparr>current_delete_row := True, latest_kv := Some kv, agg_row := map (\<lambda>g. g (kv_value kv)) (agg_getters cfg)\<rparr>)
      else
        rbind (rfold (aggregate_field cfg (IsRetract (value_kind kv)) (kv_value kv)) (agg_row s, agg_flags s)
            [0..<length (agg_getters cfg)]) (\<lambda>rf.
        Inr (s\<lparr>current_delete_row := False, latest_kv := Some kv, agg_row := fst rf, agg_flags := snd rf\<rparr>)))"

text \<open>A missing record, which the source asserts away, is an error.\<close>

definition Aggregate_GetResult :: "aggregate_merge \<Rightarrow> key_value option result" where
  "Aggregate_GetResult s = (case latest_kv s of
     None \<Rightarrow> Inl (Invalid ''latest_kv_'')
   | Some kv \<Rightarrow> Inr (Some (kv\<lparr>value_kind := if current_delete_row s then DELETE else INSERT, kv_level := UNKNOWN_LEVEL,
       kv_value := agg_row s\<rparr>)))"

definition AggregateMergeFunction :: "aggregate_config \<Rightarrow> aggregate_merge merge_function_ops" where
  "AggregateMergeFunction cfg =
     \<lparr>mf_Reset = Aggregate_Reset cfg, mf_Add = Aggregate_Add cfg, mf_GetResult = Aggregate_GetResult\<rparr>"

section \<open>Aggregation preserves types\<close>

lemma sum_func_typed: "CreateSumFunc t = Inr f \<Longrightarrow> has_type t a \<Longrightarrow> has_type t x \<Longrightarrow> a \<noteq> VNull \<Longrightarrow> x \<noteq> VNull \<Longrightarrow>
    has_type t (f a x)"
  using sum_func_value [of t f a x] by (cases "t = FLOAT \<or> t = DOUBLE") auto

lemma neg_func_typed: "CreateNegFunc t = Inr g \<Longrightarrow> has_type t x \<Longrightarrow> x \<noteq> VNull \<Longrightarrow> has_type t (g x) \<and> g x \<noteq> VNull"
  using neg_func_value [of t g x] by (cases "t = FLOAT \<or> t = DOUBLE") auto

lemma sum_typed:
  assumes "CreateSumFunc t = Inr f" "CreateNegFunc t = Inr g" "has_type t a" "has_type t x"
  shows "FieldSumAgg_Agg f a x = Inr v \<Longrightarrow> has_type t v" "has_type t (FieldSumAgg_Retract f g a x)"
  using sum_func_typed [OF assms(1,3)] neg_func_typed [OF assms(2,4)] assms(3,4)
  by (auto simp: FieldSumAgg_Agg_def FieldSumAgg_Retract_def IsVariantNull_def skip_null_def Let_def split: if_splits)

lemma decimal_typed:
  assumes "has_type (DECIMAL128 p s) a" "a \<noteq> VNull"
  shows "MultiplyDecimal d (variant_decimal a) y = Inr v \<Longrightarrow> has_type (DECIMAL128 p s) v"
    "DivideDecimal d (variant_decimal a) y = Inr v \<Longrightarrow> has_type (DECIMAL128 p s) v"
proof -
  obtain e where e: "a = VDecimal e" "precision e = p" "scale e = s" using assms by (cases a) (auto simp: has_type_nested)
  show "MultiplyDecimal d (variant_decimal a) y = Inr v \<Longrightarrow> has_type (DECIMAL128 p s) v"
    using e by (auto simp: MultiplyDecimal_def Let_def split: if_splits)
  show "DivideDecimal d (variant_decimal a) y = Inr v \<Longrightarrow> has_type (DECIMAL128 p s) v"
    using e by (auto simp: DivideDecimal_def Let_def split: if_splits option.splits)
qed

lemma multiply_typed:
  assumes "CreateMultiplyFunc d t = Inr f" "has_type t a" "a \<noteq> VNull" "f a x = Inr v"
  shows "has_type t v"
  using assms by (cases t) (auto simp: rbind_eq_Inr dest: decimal_typed)

lemma divide_typed:
  assumes "CreateDivideFunc d t = Inr f" "has_type t a" "a \<noteq> VNull" "f a x = Inr v"
  shows "has_type t v"
  using assms by (cases t) (auto simp: rbind_eq_Inr dest: decimal_typed)

lemma product_typed:
  assumes "FieldProductAgg_Create d t = Inr (f, g)" "has_type t a" "has_type t x"
  shows "FieldProductAgg_Agg f a x = Inr v \<Longrightarrow> has_type t v" "FieldProductAgg_Retract g a x = Inr v \<Longrightarrow> has_type t v"
  using assms multiply_typed [of d t f a x v] divide_typed [of d t g a x v]
  by (auto simp: FieldProductAgg_Create_def FieldProductAgg_Agg_def FieldProductAgg_Retract_def rbind_eq_Inr skip_null_def
      IsVariantNull_def Let_def split: if_splits)

lemma extreme_typed:
  assumes "has_type t a" "has_type t x"
  shows "CreateMaxFunc t = Inr f \<Longrightarrow> FieldMaxAgg_Agg f a x = Inr v \<Longrightarrow> has_type t v"
    "CreateMinFunc t = Inr f \<Longrightarrow> FieldMinAgg_Agg f a x = Inr v \<Longrightarrow> has_type t v"
proof -
  have "CreateMaxFunc t = Inr f \<Longrightarrow> f a x \<in> {a, x}" "CreateMinFunc t = Inr f \<Longrightarrow> f a x \<in> {a, x}" by (cases t; auto)+
  then show "CreateMaxFunc t = Inr f \<Longrightarrow> FieldMaxAgg_Agg f a x = Inr v \<Longrightarrow> has_type t v"
    "CreateMinFunc t = Inr f \<Longrightarrow> FieldMinAgg_Agg f a x = Inr v \<Longrightarrow> has_type t v"
    using assms by (auto simp: FieldMaxAgg_Agg_def FieldMinAgg_Agg_def skip_null_def Let_def split: if_splits)
qed

definition all_typed :: "arrow_type \<Rightarrow> variant list \<Rightarrow> bool" where
  "all_typed t vs \<longleftrightarrow> (\<forall>v\<in>set vs. has_type t v)"

lemma all_typed_simps [simp]:
  "all_typed t []" "all_typed t (v # vs) \<longleftrightarrow> has_type t v \<and> all_typed t vs"
  "all_typed t (us @ vs) \<longleftrightarrow> all_typed t us \<and> all_typed t vs" "has_type (LIST t) (VArray vs) \<longleftrightarrow> all_typed t vs"
  by (auto simp: all_typed_def has_type_nested)

lemma typed_array: "has_type (LIST t) a \<Longrightarrow> all_typed t (variant_array a)"
  by (cases a) (auto simp: has_type_nested all_typed_def)

lemma all_typed_update: "all_typed t vs \<Longrightarrow> has_type t v \<Longrightarrow> all_typed t (vs[i := v])"
  by (auto simp: all_typed_def dest!: set_update_subset_insert [THEN subsetD])

lemma all_typed_remove: "all_typed t vs \<Longrightarrow> all_typed t (remove_index i vs)"
  using set_remove_index [of i vs] by (auto simp: all_typed_def)

lemma GetValue_all_typed: "all_typed t a \<Longrightarrow> GetValue a i t = Inr v \<Longrightarrow> has_type t v"
  using GetValue_typed [of t a i] has_type_field_view [of t "row_field a i"]
  by (cases "i < length a") (auto simp: all_typed_def row_field_def)

lemma AppendArray_all_typed:
  assumes "case array of None \<Rightarrow> True | Some a \<Rightarrow> all_typed t a" "all_typed t vals" "AppendArray array t u vals = Inr vs"
  shows "all_typed t vs"
proof (cases array)
  case (Some a)
  have "all_typed t s'" if "all_typed t s" "append_element t u a s i = Inr s'" for s i s'
    using that GetValue_all_typed [of t a i] assms(1) Some by (auto simp: append_element_def rbind_eq_Inr split: if_splits)
  then show ?thesis
    using rfold_invariant [of "append_element t u a" vals "[0..<length a]" vs "all_typed t"] assms Some
    by (auto simp: AppendArray_def)
qed (use assms in \<open>simp add: AppendArray_def\<close>)

lemma AppendArrayWithHash_all_typed:
  assumes "case array of None \<Rightarrow> True | Some a \<Rightarrow> all_typed t a" "all_typed t (snd s)" "AppendArrayWithHash h array t s = Inr s'"
  shows "all_typed t (snd s')"
proof (cases array)
  case (Some a)
  have "all_typed t (snd s')" if "all_typed t (snd s)" "hash_append_element h t a s i = Inr s'" for s i s'
    using that GetValue_all_typed [of t a i] assms(1) Some
    by (auto simp: hash_append_element_def rbind_eq_Inr split: if_splits prod.splits)
  then show ?thesis
    using rfold_invariant [of "hash_append_element h t a" s "[0..<length a]" s' "\<lambda>s. all_typed t (snd s)"] assms Some
    by (auto simp: AppendArrayWithHash_def)
qed (use assms in \<open>simp add: AppendArrayWithHash_def\<close>)

lemma optional_array_typed: "has_type (LIST t) a \<Longrightarrow> case optional_array a of None \<Rightarrow> True | Some a \<Rightarrow> all_typed t a"
  using typed_array [of t a] by (simp add: optional_array_def)

lemma collect_typed:
  assumes "has_type (LIST t) a" "has_type (LIST t) x" "FieldCollectAgg_AggImpl h t u a x = Inr v"
  shows "has_type (LIST t) v"
proof -
  have "all_typed t vs" if "rbind (AppendArrayWithHash h (optional_array a) t ([], [])) (\<lambda>s.
      rbind (AppendArrayWithHash h (optional_array x) t s) (\<lambda>s'. Inr (snd s'))) = Inr vs" for vs
    using that AppendArrayWithHash_all_typed [OF optional_array_typed [OF assms(1)], of "([], [])" h]
      AppendArrayWithHash_all_typed [OF optional_array_typed [OF assms(2)], of _ h] by (auto simp: rbind_eq_Inr)
  moreover have "all_typed t vs" if "rbind (AppendArray (optional_array a) t u []) (AppendArray (optional_array x) t u) = Inr vs" for vs
    using that AppendArray_all_typed [OF optional_array_typed [OF assms(1)], of "[]" u]
      AppendArray_all_typed [OF optional_array_typed [OF assms(2)], of _ u] by (auto simp: rbind_eq_Inr)
  ultimately show ?thesis
    using assms unfolding FieldCollectAgg_AggImpl_def Let_def
    by (simp add: rbind_eq_Inr [of _ "\<lambda>values. Inr (VArray values)"] split: if_splits) auto
qed

lemma collect_retract_typed:
  assumes "has_type (LIST t) a" "FieldCollectAgg_Retract t a x = Inr v"
  shows "has_type (LIST t) v"
proof -
  have "all_typed t (snd s')" if "all_typed t (snd s)" "retract_element t (variant_array a) s i = Inr s'" for s i s'
    using that GetValue_all_typed [OF typed_array [OF assms(1)], of i]
    by (auto simp: retract_element_def rbind_eq_Inr split: option.splits prod.splits)
  then have "all_typed t (snd s')" if "rfold (retract_element t (variant_array a)) (r, []) xs = Inr s'" for r xs s'
    using rfold_invariant [of "retract_element t (variant_array a)" "(r, [])" xs s' "\<lambda>s. all_typed t (snd s)"] that by auto
  then show ?thesis
    using assms by (auto simp: FieldCollectAgg_Retract_def Let_def rbind_eq_Inr split: if_splits)
qed

definition entries_typed :: "arrow_type \<Rightarrow> arrow_type \<Rightarrow> (variant \<times> variant) list \<Rightarrow> bool" where
  "entries_typed k e m \<longleftrightarrow> all_typed k (map fst m) \<and> all_typed e (map snd m)"

lemma entries_typed_simps [simp]:
  "entries_typed k e []" "entries_typed k e (m @ [(x, v)]) \<longleftrightarrow> entries_typed k e m \<and> has_type k x \<and> has_type e v"
  "has_type (MAP k e) (VMap m) \<longleftrightarrow> entries_typed k e m"
  by (auto simp: entries_typed_def has_type_nested all_typed_def)

lemma typed_variant_map: "has_type (MAP k e) a \<Longrightarrow> entries_typed k e (variant_map a)"
  by (cases a) (auto simp: has_type_nested all_typed_def entries_typed_def)

lemma set_value_keys: "map fst (es[j := (fst (es ! j), v)]) = map fst es"
  by (cases "j < length es") (auto simp: nth_list_update intro!: nth_equalityI)

lemma set_value_typed: "entries_typed k e es \<Longrightarrow> has_type e v \<Longrightarrow> entries_typed k e (es[j := (fst (es ! j), v)])"
  unfolding entries_typed_def set_value_keys by (simp add: map_update all_typed_update)

lemma entries_typed_remove: "entries_typed k e es \<Longrightarrow> entries_typed k e (remove_index j es)"
  using all_typed_remove [of k "map fst es" j] all_typed_remove [of e "map snd es" j]
  by (simp add: entries_typed_def remove_index_def take_map drop_map)

lemma GetValue_entries_typed:
  "entries_typed k e m \<Longrightarrow> GetValue (map fst m) i k = Inr x \<Longrightarrow> has_type k x"
  "entries_typed k e m \<Longrightarrow> GetValue (map snd m) i e = Inr x \<Longrightarrow> has_type e x"
  by (auto simp: entries_typed_def dest: GetValue_all_typed)

lemma PutMap_entries_typed:
  assumes "entries_typed k e m" "entries_typed k e es" "PutMap k e m es = Inr es'"
  shows "entries_typed k e es'"
proof -
  have "entries_typed k e s'" if s: "entries_typed k e s" "put_entry k e m s i = Inr s'" for s i s'
    using s GetValue_entries_typed [OF assms(1)]
    by (auto simp: put_entry_def put_at_def rbind_eq_Inr intro!: set_value_typed split: option.splits)
  then show ?thesis
    using rfold_invariant [of "put_entry k e m" es "[0..<length m]" es' "entries_typed k e"] assms by (auto simp: PutMap_def)
qed

lemma PutMapWithHash_entries_typed:
  assumes "entries_typed k e m" "entries_typed k e (snd s)" "PutMapWithHash h k e m s = Inr s'"
  shows "entries_typed k e (snd s')"
proof -
  have "entries_typed k e (snd s')" if s: "entries_typed k e (snd s)" "hash_put_entry h k e m s i = Inr s'" for s i s'
  proof -
    obtain key v where g: "GetValue (map fst m) i k = Inr key" "GetValue (map snd m) i e = Inr v"
      using s(2) by (auto simp: hash_put_entry_def rbind_eq_Inr split: prod.splits)
    then show ?thesis
      using s GetValue_entries_typed(1) [OF assms(1) g(1)] GetValue_entries_typed(2) [OF assms(1) g(2)]
      by (cases "hash_find h k (fst s) key") (auto simp: hash_put_entry_def intro!: set_value_typed split: prod.splits if_splits)
  qed
  then show ?thesis
    using rfold_invariant [of "hash_put_entry h k e m" s "[0..<length m]" s' "\<lambda>s. entries_typed k e (snd s)"] assms
    by (auto simp: PutMapWithHash_def)
qed

lemma merge_map_typed:
  assumes "has_type (MAP k e) a" "has_type (MAP k e) x" "FieldMergeMapAgg_AggImpl h k e a x = Inr v"
  shows "has_type (MAP k e) v"
proof -
  note t = typed_variant_map [OF assms(1)] typed_variant_map [OF assms(2)]
  have "entries_typed k e es" if "rbind (PutMapWithHash h k e (variant_map a) ([], [])) (\<lambda>s.
      rbind (PutMapWithHash h k e (variant_map x) s) (\<lambda>s'. Inr (snd s'))) = Inr es" for es
    using that PutMapWithHash_entries_typed [OF t(1), of "([], [])" h] PutMapWithHash_entries_typed [OF t(2), of _ h]
    by (auto simp: rbind_eq_Inr)
  moreover have "entries_typed k e es" if "rbind (PutMap k e (variant_map a) []) (PutMap k e (variant_map x)) = Inr es" for es
    using that PutMap_entries_typed [OF t(1), of "[]"] PutMap_entries_typed [OF t(2)] by (auto simp: rbind_eq_Inr)
  ultimately show ?thesis
    using assms unfolding FieldMergeMapAgg_AggImpl_def Let_def
    by (simp add: rbind_eq_Inr [of _ "\<lambda>entries. Inr (VMap entries)"] split: if_splits) auto
qed

lemma merge_map_retract_typed:
  assumes "has_type (MAP k e) a" "FieldMergeMapAgg_Retract k e a x = Inr v"
  shows "has_type (MAP k e) v"
proof -
  have "entries_typed k e s'" if "entries_typed k e s" "retract_key k m s i = Inr s'" for m s i s'
    using that by (auto simp: retract_key_def rbind_eq_Inr entries_typed_remove split: option.splits)
  then have "entries_typed k e es'" if "entries_typed k e es" "rfold (retract_key k m) es xs = Inr es'" for m es xs es'
    using rfold_invariant [of "retract_key k m" es xs es' "entries_typed k e"] that by auto
  then show ?thesis
    using assms PutMap_entries_typed [OF typed_variant_map [OF assms(1)], of "[]"]
    by (auto simp: FieldMergeMapAgg_Retract_def Let_def rbind_eq_Inr split: if_splits)
qed

lemma AppendNonNullRows_typed: "all_typed t rs \<Longrightarrow> all_typed t rows \<Longrightarrow> all_typed t (AppendNonNullRows rs limit rows)"
  by (induction rs limit rows rule: AppendNonNullRows.induct) auto

lemma erase_if_subset: "erase_if p xs = Inr ys \<Longrightarrow> set ys \<subseteq> set xs"
proof (induction xs arbitrary: ys)
  case (Cons x xs)
  obtain b zs where "erase_if p xs = Inr zs" "ys = (if b then zs else x # zs)"
    using Cons.prems by (auto simp: rbind_eq_Inr)
  then show ?case using Cons.IH by (auto split: if_splits)
qed simp

lemma nested_rows_typed:
  assumes "has_type t r" "all_typed t rows"
  shows "add_row n u rows r = Inr rows' \<Longrightarrow> all_typed t rows'" "collect_row n rows r = Inr rows' \<Longrightarrow> all_typed t rows'"
    "retract_row n rows q = Inr rows' \<Longrightarrow> all_typed t rows'" "retract_keyed_row n rows q = Inr rows' \<Longrightarrow> all_typed t rows'"
proof -
  show "add_row n u rows r = Inr rows' \<Longrightarrow> all_typed t rows'" "collect_row n rows r = Inr rows' \<Longrightarrow> all_typed t rows'"
    using assms
    by (cases "AcceptKey n r"; cases "rindex (\<lambda>old. KeysEqual n old r) rows";
        auto simp: add_row_def collect_row_def all_typed_update split: if_splits option.split_asm)+
  have erase: "erase_if p rows = Inr rows' \<Longrightarrow> all_typed t rows'" for p
    using assms(2) erase_if_subset [of p rows rows'] by (auto simp: all_typed_def)
  show "retract_row n rows q = Inr rows' \<Longrightarrow> all_typed t rows'" "retract_keyed_row n rows q = Inr rows' \<Longrightarrow> all_typed t rows'"
    using assms erase by (auto simp: retract_row_def retract_keyed_row_def rbind_eq_Inr split: if_splits)
qed

lemma nested_fold_typed:
  assumes "all_typed t rs" "all_typed t rows"
  shows "rfold (add_row n u) rows rs = Inr rows' \<Longrightarrow> all_typed t rows'" "rfold (collect_row n) rows rs = Inr rows' \<Longrightarrow> all_typed t rows'"
proof -
  have r: "r \<in> set rs \<Longrightarrow> has_type t r" for r using assms(1) by (simp add: all_typed_def)
  show "rfold (add_row n u) rows rs = Inr rows' \<Longrightarrow> all_typed t rows'"
    by (rule rfold_invariant [where P = "all_typed t" and f = "add_row n u", OF _ assms(2) nested_rows_typed(1) [OF r]])
  show "rfold (collect_row n) rows rs = Inr rows' \<Longrightarrow> all_typed t rows'"
    by (rule rfold_invariant [where P = "all_typed t" and f = "collect_row n", OF _ assms(2) nested_rows_typed(2) [OF r]])
qed

lemma retract_fold_typed:
  assumes "all_typed t rows"
  shows "rfold (retract_row n) rows rs = Inr rows' \<Longrightarrow> all_typed t rows'"
    "rfold (retract_keyed_row n) rows rs = Inr rows' \<Longrightarrow> all_typed t rows'"
proof -
  have n: "has_type t VNull" by simp
  show "rfold (retract_row n) rows rs = Inr rows' \<Longrightarrow> all_typed t rows'"
    by (rule rfold_invariant [where P = "all_typed t" and f = "retract_row n", OF _ assms nested_rows_typed(3) [OF n]])
  show "rfold (retract_keyed_row n) rows rs = Inr rows' \<Longrightarrow> all_typed t rows'"
    by (rule rfold_invariant [where P = "all_typed t" and f = "retract_keyed_row n", OF _ assms nested_rows_typed(4) [OF n]])
qed

lemma nested_typed:
  assumes "has_type (LIST t) a" "has_type (LIST t) x" "FieldNestedUpdateAgg_AggImpl n a x = Inr v"
  shows "has_type (LIST t) v"
proof (cases "key_fields n = []")
  case True
  then show ?thesis
    using assms optional_array_typed [OF assms(1)] typed_array [OF assms(2)]
    by (auto simp: FieldNestedUpdateAgg_AggImpl_def Let_def AppendNonNullRows_typed split: if_splits option.splits)
next
  case False
  have acc: "all_typed t rows" if "(case optional_array a of None \<Rightarrow> Inr [] | Some b \<Rightarrow> rfold (add_row n False) [] b) = Inr rows" for rows
    using that optional_array_typed [OF assms(1)] nested_fold_typed(1) [of t "variant_array a" "[]" n False rows]
    by (auto simp: optional_array_def split: if_splits)
  show ?thesis
  proof (cases "IsVariantNull x")
    case False
    then obtain rows rows' where "(case optional_array a of None \<Rightarrow> Inr [] | Some b \<Rightarrow> rfold (add_row n False) [] b) = Inr rows"
      "rfold (add_row n True) rows (variant_array x) = Inr rows'" "v = VArray rows'"
      using assms(3) \<open>key_fields n \<noteq> []\<close> unfolding FieldNestedUpdateAgg_AggImpl_def Let_def by (auto simp: rbind_eq_Inr)
    then show ?thesis
      using nested_fold_typed(1) [OF typed_array [OF assms(2)] acc, of rows n True rows'] by simp
  qed (use assms in \<open>simp add: FieldNestedUpdateAgg_AggImpl_def\<close>)
qed

lemma nested_retract_typed:
  assumes "has_type (LIST t) a" "FieldNestedUpdateAgg_Retract n a x = Inr v"
  shows "has_type (LIST t) v"
proof (cases "IsVariantNull a \<or> IsVariantNull x")
  case False
  note t = typed_array [OF assms(1)]
  obtain rows rows' where "all_typed t rows" "v = VArray rows'"
    "rfold (retract_row n) rows (variant_array x) = Inr rows' \<or> rfold (retract_keyed_row n) rows (variant_array x) = Inr rows'"
    using assms(2) False nested_fold_typed(2) [OF t all_typed_simps(1), of n] AppendNonNullRows_typed [OF t all_typed_simps(1)]
    unfolding FieldNestedUpdateAgg_Retract_def Let_def by (auto simp: rbind_eq_Inr split: if_splits)
  then show ?thesis using retract_fold_typed [of t rows n "variant_array x" rows'] by auto
qed (use assms in \<open>auto simp: FieldNestedUpdateAgg_Retract_def\<close>)

text \<open>The aggregators the factory makes for a type.\<close>

fun aggregates :: "arrow_type \<Rightarrow> field_aggregator \<Rightarrow> bool" where
  "aggregates t (FieldSumAgg f g) \<longleftrightarrow> CreateSumFunc t = Inr f \<and> CreateNegFunc t = Inr g"
| "aggregates t (FieldProductAgg f g) \<longleftrightarrow> (\<exists>d. FieldProductAgg_Create d t = Inr (f, g))"
| "aggregates t (FieldMinAgg f) \<longleftrightarrow> CreateMinFunc t = Inr f"
| "aggregates t (FieldMaxAgg f) \<longleftrightarrow> CreateMaxFunc t = Inr f"
| "aggregates t FieldBoolOrAgg \<longleftrightarrow> t = BOOL"
| "aggregates t FieldBoolAndAgg \<longleftrightarrow> t = BOOL"
| "aggregates t (FieldListaggAgg d u) \<longleftrightarrow> t = STRING"
| "aggregates t (FieldCollectAgg h e u) \<longleftrightarrow> t = LIST e"
| "aggregates t (FieldMergeMapAgg h k e) \<longleftrightarrow> t = MAP k e"
| "aggregates t (FieldNestedUpdateAgg n) \<longleftrightarrow> t = LIST (STRUCT (row_type n))"
| "aggregates t (FieldHllSketchAgg u) \<longleftrightarrow> t = BINARY"
| "aggregates t (FieldThetaSketchAgg u) \<longleftrightarrow> t = BINARY"
| "aggregates t (FieldIgnoreRetractAgg agg) \<longleftrightarrow> aggregates t agg"
| "aggregates t _ \<longleftrightarrow> True"

lemma create_types:
  "FieldBoolOrAgg_Create t = Inr u \<Longrightarrow> t = BOOL" "FieldBoolAndAgg_Create t = Inr u \<Longrightarrow> t = BOOL"
  "FieldListaggAgg_Create t x y = Inr du \<Longrightarrow> t = STRING" "ValidateSketchType t = Inr u \<Longrightarrow> t = BINARY"
  "FieldCollectAgg_Create t c = Inr eu \<Longrightarrow> t = LIST (fst eu)" "FieldMergeMapAgg_Create t = Inr kv \<Longrightarrow> t = MAP (fst kv) (snd kv)"
  "FieldNestedUpdateAgg_Create t opts = Inr n \<Longrightarrow> t = LIST (STRUCT (row_type n))"
  by (auto simp: FieldBoolOrAgg_Create_def FieldBoolAndAgg_Create_def FieldListaggAgg_Create_def ValidateSketchType_def
      FieldCollectAgg_Create_def FieldMergeMapAgg_Create_def FieldNestedUpdateAgg_Create_def rbind_eq_Inr
      split: if_splits arrow_type.split_asm)

lemma plain_aggregates: "plain_aggregator libs name t str_agg options = Inr agg \<Longrightarrow> aggregates t agg"
  unfolding plain_aggregator_def by (auto simp: rbind_eq_Inr dest: create_types split: if_splits)

lemma CreateFieldAggregator_aggregates: "CreateFieldAggregator libs name t str_agg options = Inr agg \<Longrightarrow> aggregates t agg"
  by (auto simp: CreateFieldAggregator_def rbind_eq_Inr Let_def dest: plain_aggregates split: if_splits)

lemma OwnedBinary_typed [simp]: "has_type BINARY (OwnedBinary x)"
  by (cases x) (simp_all add: OwnedBinary_def)

lemma Agg_typed:
  assumes "aggregates t agg" "has_type t a" "has_type t x" "Agg agg i a x = Inr (v, j)"
  shows "has_type t v"
  using assms
proof (induction agg i a x rule: Agg.induct)
  case (7 f g i a x)
  then show ?case using product_typed(1) [of _ t f g a x v] by (auto simp: keep_flag_def rbind_eq_Inr)
qed (auto simp: keep_flag_def rbind_eq_Inr FieldPrimaryKeyAgg_Agg_def FieldLastNonNullValueAgg_Agg_def FieldFirstNonNullValueAgg_Agg_def
    FieldLastValueAgg_Agg_def FieldFirstValueAgg_Agg_def FieldBoolOrAgg_Agg_def FieldBoolAndAgg_Agg_def FieldListaggAgg_Agg_def
    FieldHllSketchAgg_Agg_def FieldThetaSketchAgg_Agg_def skip_null_def Let_def
    dest: sum_typed extreme_typed collect_typed merge_map_typed nested_typed split: if_splits option.split_asm)

lemma Retract_typed:
  assumes "aggregates t agg" "has_type t a" "has_type t x" "Retract agg a x = Inr v"
  shows "has_type t v"
  using assms product_typed(2) [of _ t _ _ a x v] sum_typed(2) [of t _ _ a x]
  by (cases agg) (auto simp: FieldPrimaryKeyAgg_Retract_def FieldLastNonNullValueAgg_Retract_def FieldLastValueAgg_Retract_def
      no_retract_def dest: collect_retract_typed merge_map_retract_typed nested_retract_typed split: if_splits)

section \<open>Fields aggregate independently\<close>

lemma rmap_Inr: "rmap f xs = Inr ys \<longleftrightarrow> length ys = length xs \<and> (\<forall>i<length xs. f (xs ! i) = Inr (ys ! i))"
proof (induction xs arbitrary: ys)
  case (Cons x xs)
  show ?case
  proof (cases ys)
    case (Cons y zs)
    then show ?thesis using Cons.IH [of zs] by (auto simp: rbind_eq_Inr nth_Cons less_Suc_eq_0_disj split: nat.splits)
  qed (auto simp: rbind_eq_Inr)
qed auto

lemma getter_local:
  assumes "CreateFieldGetter i t u = Inr g" "row_field r i = row_field r' i"
  shows "g r = g r'"
  using assms by (cases t) (auto simp: CreateFieldGetter_def field_defs GetArray_def GetMap_def GetRow_def)

text \<open>Getters that read only their own field, one aggregator for each of them.\<close>

definition config_ok :: "aggregate_config \<Rightarrow> bool" where
  "config_ok cfg \<longleftrightarrow> length (agg_aggregators cfg) = length (agg_getters cfg) \<and>
     (\<forall>i<length (agg_getters cfg). \<forall>r r'. row_field r i = row_field r' i \<longrightarrow> (agg_getters cfg ! i) r = (agg_getters cfg ! i) r')"

lemma Create_fields:
  assumes "AggregateMergeFunction_Create libs schema keys options = Inr cfg"
  shows "length (agg_getters cfg) = length schema" "length (agg_aggregators cfg) = length schema"
    "i < length schema \<Longrightarrow> CreateFieldGetter i (snd (schema ! i)) True = Inr (agg_getters cfg ! i)"
    "i < length schema \<Longrightarrow> aggregates (snd (schema ! i)) (agg_aggregators cfg ! i)"
    "agg_remove_on_delete cfg = AggregationRemoveRecordOnDelete options"
  using assms CreateFieldAggregator_aggregates
  by (auto simp: AggregateMergeFunction_Create_def CreateFieldGetters_def rbind_eq_Inr rmap_Inr)

lemma Create_config_ok: "AggregateMergeFunction_Create libs schema keys options = Inr cfg \<Longrightarrow> config_ok cfg"
  using Create_fields [of libs schema keys options cfg] getter_local by (simp add: config_ok_def) blast

text \<open>One field alone: its value and flag, over the records of a key.\<close>

definition field_step :: "aggregate_config \<Rightarrow> nat \<Rightarrow> variant \<times> bool \<Rightarrow> key_value \<Rightarrow> (variant \<times> bool) result" where
  "field_step cfg i s kv =
     (let x = (agg_getters cfg ! i) (kv_value kv);
          a = (agg_getters cfg ! i) ((null_row cfg)[i := fst s])
      in if agg_remove_on_delete cfg \<and> value_kind kv = DELETE then Inr (x, snd s)
         else if IsRetract (value_kind kv) then rbind (Retract (agg_aggregators cfg ! i) a x) (\<lambda>v. Inr (v, snd s))
         else Agg (agg_aggregators cfg ! i) (snd s) a x)"

definition field_fold :: "aggregate_config \<Rightarrow> nat \<Rightarrow> key_value list \<Rightarrow> (variant \<times> bool) result" where
  "field_fold cfg i kvs = rfold (field_step cfg i) (VNull, False) kvs"

definition state_ok :: "aggregate_config \<Rightarrow> aggregate_merge \<Rightarrow> bool" where
  "state_ok cfg s \<longleftrightarrow> length (agg_row s) = length (agg_getters cfg) \<and> length (agg_flags s) = length (agg_getters cfg)"

abbreviation field_of :: "aggregate_merge \<Rightarrow> nat \<Rightarrow> variant \<times> bool" where
  "field_of s i \<equiv> (agg_row s ! i, agg_flags s ! i)"

lemma aggregate_field_step:
  assumes "config_ok cfg" "i < length (agg_getters cfg)" "length r = length (agg_getters cfg)"
    "length fl = length (agg_getters cfg)" "\<not> (agg_remove_on_delete cfg \<and> value_kind kv = DELETE)"
  shows "aggregate_field cfg (IsRetract (value_kind kv)) (kv_value kv) (r, fl) i =
    rbind (field_step cfg i (r ! i, fl ! i) kv) (\<lambda>v. Inr (r[i := fst v], fl[i := snd v]))"
proof -
  have "(agg_getters cfg ! i) ((null_row cfg)[i := r ! i]) = (agg_getters cfg ! i) r"
    using assms(1-3) by (simp add: config_ok_def row_field_def null_row_def)
  then show ?thesis using assms by (auto simp: aggregate_field_def field_step_def rbind_assoc Let_def)
qed

lemma aggregate_fields_loop:
  assumes "config_ok cfg" "n \<le> length (agg_getters cfg)" "length r = length (agg_getters cfg)"
    "length fl = length (agg_getters cfg)" "\<not> (agg_remove_on_delete cfg \<and> value_kind kv = DELETE)"
  shows "if \<forall>i<n. is_ok (field_step cfg i (r ! i, fl ! i) kv)
    then \<exists>r' fl'. rfold (aggregate_field cfg (IsRetract (value_kind kv)) (kv_value kv)) (r, fl) [0..<n] = Inr (r', fl') \<and>
      length r' = length r \<and> length fl' = length fl \<and> (\<forall>i<n. field_step cfg i (r ! i, fl ! i) kv = Inr (r' ! i, fl' ! i)) \<and>
      (\<forall>i\<ge>n. r' ! i = r ! i \<and> fl' ! i = fl ! i)
    else \<not> is_ok (rfold (aggregate_field cfg (IsRetract (value_kind kv)) (kv_value kv)) (r, fl) [0..<n])"
  using assms(2)
proof (induction n)
  case (Suc n)
  let ?f = "aggregate_field cfg (IsRetract (value_kind kv)) (kv_value kv)"
  note IH = Suc.IH [OF Suc_leD [OF Suc.prems]]
  show ?case
  proof (cases "\<forall>i<n. is_ok (field_step cfg i (r ! i, fl ! i) kv)")
    case True
    then obtain r' fl' where l: "rfold ?f (r, fl) [0..<n] = Inr (r', fl')" "length r' = length r" "length fl' = length fl"
      "\<forall>i<n. field_step cfg i (r ! i, fl ! i) kv = Inr (r' ! i, fl' ! i)" "\<forall>i\<ge>n. r' ! i = r ! i \<and> fl' ! i = fl ! i"
      using IH by auto
    have step: "rfold ?f (r, fl) [0..<Suc n] =
        rbind (field_step cfg n (r ! n, fl ! n) kv) (\<lambda>v. Inr (r'[n := fst v], fl'[n := snd v]))"
      using aggregate_field_step [OF assms(1), of n r' fl' kv] assms(3-5) Suc.prems l by (simp add: rfold_append rbind_assoc)
    show ?thesis
    proof (cases "field_step cfg n (r ! n, fl ! n) kv")
      case (Inr v)
      then show ?thesis using step l assms(3,4) Suc.prems
        by (auto simp: less_Suc_eq is_ok_def nth_list_update simp del: upt_Suc)
    qed (use step in \<open>auto simp: less_Suc_eq simp del: upt_Suc\<close>)
  next
    case False
    then have "\<not> is_ok (rfold ?f (r, fl) [0..<n])" using IH by auto
    then have "\<not> is_ok (rfold ?f (r, fl) [0..<Suc n])" by (cases "rfold ?f (r, fl) [0..<n]") (auto simp: rfold_append)
    then show ?thesis using False less_SucI by (simp only: if_False) meson
  qed
qed simp

lemma Aggregate_Add_fields:
  assumes "config_ok cfg" "state_ok cfg s"
  shows "if \<forall>i<length (agg_getters cfg). is_ok (field_step cfg i (field_of s i) kv)
    then \<exists>s'. Aggregate_Add cfg s kv = Inr s' \<and> state_ok cfg s' \<and> latest_kv s' = Some kv \<and>
      current_delete_row s' = (agg_remove_on_delete cfg \<and> value_kind kv = DELETE) \<and>
      (\<forall>i<length (agg_getters cfg). field_step cfg i (field_of s i) kv = Inr (field_of s' i))
    else \<not> is_ok (Aggregate_Add cfg s kv)"
proof (cases "agg_remove_on_delete cfg \<and> value_kind kv = DELETE")
  case True
  then show ?thesis using assms(2) by (simp add: Aggregate_Add_def field_step_def state_ok_def)
next
  case False
  note l = aggregate_fields_loop [OF assms(1) order_refl _ _ False, of "agg_row s" "agg_flags s"]
  show ?thesis
  proof (cases "\<forall>i<length (agg_getters cfg). is_ok (field_step cfg i (field_of s i) kv)")
    case True
    then obtain r fl where "rfold (aggregate_field cfg (IsRetract (value_kind kv)) (kv_value kv)) (agg_row s, agg_flags s)
        [0..<length (agg_getters cfg)] = Inr (r, fl)" "length r = length (agg_row s)" "length fl = length (agg_flags s)"
      "\<forall>i<length (agg_getters cfg). field_step cfg i (field_of s i) kv = Inr (r ! i, fl ! i)"
      using l assms(2) by (auto simp: state_ok_def)
    then show ?thesis using False True assms(2) by (auto simp: Aggregate_Add_def state_ok_def)
  next
    case bad: False
    then have "\<not> is_ok (rfold (aggregate_field cfg (IsRetract (value_kind kv)) (kv_value kv)) (agg_row s, agg_flags s)
        [0..<length (agg_getters cfg)])"
      using l assms(2) by (auto simp: state_ok_def)
    then have "\<not> is_ok (Aggregate_Add cfg s kv)" using False
      by (cases "rfold (aggregate_field cfg (IsRetract (value_kind kv)) (kv_value kv)) (agg_row s, agg_flags s)
        [0..<length (agg_getters cfg)]") (auto simp: Aggregate_Add_def)
    then show ?thesis using bad by (simp only: if_False) simp
  qed
qed

lemma Aggregate_fold_fields:
  assumes "config_ok cfg" "state_ok cfg s"
  shows "if \<forall>i<length (agg_getters cfg). is_ok (rfold (field_step cfg i) (field_of s i) kvs)
    then \<exists>s'. rfold (Aggregate_Add cfg) s kvs = Inr s' \<and> state_ok cfg s' \<and>
      (kvs \<noteq> [] \<longrightarrow> latest_kv s' = Some (last kvs) \<and>
        current_delete_row s' = (agg_remove_on_delete cfg \<and> value_kind (last kvs) = DELETE)) \<and>
      (\<forall>i<length (agg_getters cfg). rfold (field_step cfg i) (field_of s i) kvs = Inr (field_of s' i))
    else \<not> is_ok (rfold (Aggregate_Add cfg) s kvs)"
  using assms(2)
proof (induction kvs arbitrary: s)
  case (Cons kv kvs)
  note step = Aggregate_Add_fields [OF assms(1) Cons.prems, of kv]
  show ?case
  proof (cases "\<forall>i<length (agg_getters cfg). is_ok (field_step cfg i (field_of s i) kv)")
    case True
    then obtain s1 where s1: "Aggregate_Add cfg s kv = Inr s1" "state_ok cfg s1" "latest_kv s1 = Some kv"
      "current_delete_row s1 = (agg_remove_on_delete cfg \<and> value_kind kv = DELETE)"
      "\<forall>i<length (agg_getters cfg). field_step cfg i (field_of s i) kv = Inr (field_of s1 i)"
      using step by auto
    then show ?thesis using Cons.IH [OF s1(2)] by (cases kvs) (auto split: if_splits)
  next
    case False
    then obtain i where "i < length (agg_getters cfg)" "\<not> is_ok (field_step cfg i (field_of s i) kv)" by auto
    then have "\<not> is_ok (rfold (field_step cfg i) (field_of s i) (kv # kvs))"
      by (cases "field_step cfg i (field_of s i) kv") auto
    moreover have "\<not> is_ok (rfold (Aggregate_Add cfg) s (kv # kvs))"
      using step False by (cases "Aggregate_Add cfg s kv") (auto split: if_splits)
    ultimately show ?thesis using \<open>i < length (agg_getters cfg)\<close> by (auto simp del: rfold.simps)
  qed
qed simp

definition aggregate_spec :: "aggregate_config \<Rightarrow> key_value list \<Rightarrow> key_value option result" where
  "aggregate_spec cfg kvs = rbind (rfold (Aggregate_Add cfg) \<lparr>current_delete_row = False, latest_kv = None, agg_row = null_row cfg,
     agg_flags = replicate (length (agg_aggregators cfg)) False\<rparr> kvs) Aggregate_GetResult"

interpretation aggregate: merge_function "AggregateMergeFunction cfg" "aggregate_spec cfg" for cfg
  by unfold_locales (simp add: merge_all_def AggregateMergeFunction_def aggregate_spec_def Aggregate_Reset_def)

interpretation lookup_aggregate: merge_function "LookupMergeFunction (AggregateMergeFunction cfg)"
  "\<lambda>kvs. aggregate_spec cfg (lookup_inputs kvs)" for cfg
  by (rule aggregate.lookup_merge_function)

lemma aggregate_spec_fields:
  assumes "config_ok cfg" "kvs \<noteq> []"
  shows "if \<forall>i<length (agg_getters cfg). is_ok (field_fold cfg i kvs)
    then \<exists>r. aggregate_spec cfg kvs = Inr (Some ((last kvs)\<lparr>value_kind :=
          if agg_remove_on_delete cfg \<and> value_kind (last kvs) = DELETE then DELETE else INSERT, kv_level := UNKNOWN_LEVEL, kv_value := r\<rparr>)) \<and>
      length r = length (agg_getters cfg) \<and> (\<forall>i<length (agg_getters cfg). \<exists>f. field_fold cfg i kvs = Inr (r ! i, f))
    else \<not> is_ok (aggregate_spec cfg kvs)"
proof -
  define s where "s = \<lparr>current_delete_row = False, latest_kv = None, agg_row = null_row cfg,
     agg_flags = replicate (length (agg_aggregators cfg)) False\<rparr>"
  have ok: "state_ok cfg s" and f: "\<And>i. i < length (agg_getters cfg) \<Longrightarrow> field_of s i = (VNull, False)"
    using assms(1) by (auto simp: s_def state_ok_def null_row_def config_ok_def)
  have fold: "\<And>i. i < length (agg_getters cfg) \<Longrightarrow> rfold (field_step cfg i) (field_of s i) kvs = field_fold cfg i kvs"
    using f by (simp add: field_fold_def)
  have spec: "aggregate_spec cfg kvs = rbind (rfold (Aggregate_Add cfg) s kvs) Aggregate_GetResult"
    by (simp add: aggregate_spec_def s_def)
  note folds = Aggregate_fold_fields [OF assms(1) ok, of kvs]
  show ?thesis
  proof (cases "\<forall>i<length (agg_getters cfg). is_ok (field_fold cfg i kvs)")
    case True
    then obtain s' where "rfold (Aggregate_Add cfg) s kvs = Inr s'" "state_ok cfg s'" "latest_kv s' = Some (last kvs)"
      "current_delete_row s' = (agg_remove_on_delete cfg \<and> value_kind (last kvs) = DELETE)"
      "\<forall>i<length (agg_getters cfg). field_fold cfg i kvs = Inr (field_of s' i)"
      using folds fold assms(2) by auto
    then show ?thesis using True by (simp add: spec Aggregate_GetResult_def state_ok_def) (intro conjI impI exI [of _ "agg_row s'"]; simp)
  next
    case False
    then have "\<not> is_ok (rfold (Aggregate_Add cfg) s kvs)" using folds fold by (auto split: if_splits)
    then show ?thesis using False by (cases "rfold (Aggregate_Add cfg) s kvs") (auto simp: spec)
  qed
qed

lemma getter_typed:
  assumes "CreateFieldGetter i t True = Inr g" "has_type t (row_field r i)"
  shows "has_type t (g r)"
proof -
  have "g r = field_view (row_field r i)"
    using assms by (cases "row_field r i") (auto simp: CreateFieldGetter_def rbind_eq_Inr field_defs has_type_nested
        GetArray_def GetMap_def GetRow_def split: arrow_type.split_asm)
  then show ?thesis using has_type_field_view [OF assms(2)] by simp
qed

lemma field_fold_typed:
  assumes cfg: "AggregateMergeFunction_Create libs schema keys options = Inr cfg" and i: "i < length schema"
    and typed: "\<forall>kv\<in>set kvs. has_type (snd (schema ! i)) (row_field (kv_value kv) i)"
    and "field_fold cfg i kvs = Inr v"
  shows "has_type (snd (schema ! i)) (fst v)"
proof -
  let ?t = "snd (schema ! i)"
  note g = getter_typed [OF Create_fields(3) [OF cfg i]]
  have "has_type ?t (fst s')" if "kv \<in> set kvs" "has_type ?t (fst s)" "field_step cfg i s kv = Inr s'" for s kv s'
  proof -
    have x: "has_type ?t ((agg_getters cfg ! i) (kv_value kv))" using typed that(1) g by blast
    have a: "has_type ?t ((agg_getters cfg ! i) ((null_row cfg)[i := fst s]))"
      using that(2) i Create_fields(1) [OF cfg] by (intro g) (simp add: row_field_def null_row_def)
    show ?thesis
      using that(3) x Agg_typed [OF Create_fields(4) [OF cfg i] a x, of _ "fst s'" "snd s'"]
        Retract_typed [OF Create_fields(4) [OF cfg i] a x]
      by (auto simp: field_step_def Let_def rbind_eq_Inr split: if_splits)
  qed
  then show ?thesis
    using rfold_invariant [of "field_step cfg i" "(VNull, False)" kvs v "\<lambda>s. has_type ?t (fst s)"] assms(4)
    by (auto simp: field_fold_def)
qed

text \<open>The fold of the aggregator of a field alone, for records none of which removes the row.\<close>

definition aggregator_step :: "aggregate_config \<Rightarrow> nat \<Rightarrow> variant \<times> bool \<Rightarrow> key_value \<Rightarrow> (variant \<times> bool) result" where
  "aggregator_step cfg i s kv =
     (let x = (agg_getters cfg ! i) (kv_value kv);
          a = (agg_getters cfg ! i) ((null_row cfg)[i := fst s])
      in if IsRetract (value_kind kv) then rbind (Retract (agg_aggregators cfg ! i) a x) (\<lambda>v. Inr (v, snd s))
         else Agg (agg_aggregators cfg ! i) (snd s) a x)"

definition aggregator_fold :: "aggregate_config \<Rightarrow> nat \<Rightarrow> key_value list \<Rightarrow> (variant \<times> bool) result" where
  "aggregator_fold cfg i kvs = rfold (aggregator_step cfg i) (VNull, False) kvs"

lemma rfold_cong_set: "(\<And>s x. x \<in> set xs \<Longrightarrow> f s x = g s x) \<Longrightarrow> rfold f s xs = rfold g s xs"
proof (induction xs arbitrary: s)
  case (Cons x xs)
  then show ?case by (cases "g s x") simp_all
qed simp

lemma aggregator_fold_eq:
  assumes "agg_remove_on_delete cfg \<longrightarrow> (\<forall>kv\<in>set kvs. value_kind kv \<noteq> DELETE)"
  shows "aggregator_fold cfg i kvs = field_fold cfg i kvs"
  unfolding aggregator_fold_def field_fold_def
  using assms by (intro rfold_cong_set) (auto simp: aggregator_step_def field_step_def Let_def)

section \<open>Properties\<close>

text \<open>
  C6. The aggregation engine merges field by field: the records of a key merge without error exactly if every field alone does,
  and then each field of the result is the fold of its own aggregator over that field of the records, insertions aggregated and
  retractions retracted. The result is an insert with the key and the sequence number of the last record. The case in which
  \<open>aggregation.remove-record-on-delete\<close> is set and a record is a delete is left out: see \<open>removed_record_is_aggregated\<close> below.
\<close>

theorem aggregate_per_field:
  assumes "AggregateMergeFunction_Create libs schema keys options = Inr cfg" "kvs \<noteq> []"
    "AggregationRemoveRecordOnDelete options \<longrightarrow> (\<forall>kv\<in>set kvs. value_kind kv \<noteq> DELETE)"
  shows "if \<forall>i<length schema. is_ok (aggregator_fold cfg i kvs)
    then \<exists>kv. merge_all (AggregateMergeFunction cfg) s kvs = Inr (Some kv) \<and> kv_key kv = kv_key (last kvs) \<and>
      sequence_number kv = sequence_number (last kvs) \<and> kv_level kv = UNKNOWN_LEVEL \<and>
      value_kind kv = INSERT \<and>
      length (kv_value kv) = length schema \<and> (\<forall>i<length schema. \<exists>f. aggregator_fold cfg i kvs = Inr (kv_value kv ! i, f))
    else \<not> is_ok (merge_all (AggregateMergeFunction cfg) s kvs)"
  using aggregate_spec_fields [OF Create_config_ok [OF assms(1)] assms(2)] assms(3) last_in_set [OF assms(2)]
  unfolding aggregate.merge_all_spec Create_fields(1) [OF assms(1)] Create_fields(5) [OF assms(1)]
    aggregator_fold_eq [OF assms(3) [folded Create_fields(5) [OF assms(1)]]]
  by (auto split: if_split_asm)

definition example_libs :: agg_libs where
  "example_libs = \<lparr>lib_decimal256 = exact_decimal256, lib_hash = example_hash, lib_hll_union = (\<lambda>_ _. None),
     lib_theta_union = (\<lambda>_ _. None)\<rparr>"

definition example_options :: "bool \<Rightarrow> agg_options" where
  "example_options remove = \<lparr>FieldListAggDelimiter = (\<lambda>_. Inr [44]), FieldCollectAggDistinct = (\<lambda>_. Inr False),
     FieldNestedOptions = (\<lambda>_. \<lparr>nested_key = Inr [], nested_sequence_field = Inr [], strategy_configured = False,
       nested_key_null_strategy = Inr MERGE, nested_count_limit = Inr 10\<rparr>),
     AggregationRemoveRecordOnDelete = remove, FieldAggIgnoreRetract = (\<lambda>_. Inr False), GetSequenceField = [],
     GetFieldAggFunc = (\<lambda>name. Inr (if name = ''s'' then Some ''sum'' else None)), GetFieldsDefaultFunc = None\<rparr>"

abbreviation example_schema :: "(string \<times> arrow_type) list" where
  "example_schema \<equiv> [(''k'', INT32), (''s'', INT16)]"

abbreviation example_config :: "bool \<Rightarrow> aggregate_config" where
  "example_config remove \<equiv> projr (AggregateMergeFunction_Create example_libs example_schema [''k''] (example_options remove))"

abbreviation example_state :: aggregate_merge where
  "example_state \<equiv> \<lparr>current_delete_row = False, latest_kv = None, agg_row = [], agg_flags = []\<rparr>"

lemma example_config:
  "AggregateMergeFunction_Create example_libs example_schema [''k''] (example_options remove) = Inr (example_config remove)"
  by (simp add: AggregateMergeFunction_Create_def CreateFieldAggregator_def plain_aggregator_def GetAggFuncName_def
      example_options_def CreateFieldGetters_def CreateFieldGetter_def Let_def)

theorem aggregate_per_field_witness:
  "\<exists>kv. merge_all (AggregateMergeFunction (example_config False)) example_state
      [example_kv INSERT 1 0 [VInt 7, VShort 3], example_kv UPDATE_AFTER 2 0 [VInt 7, VShort 4], example_kv DELETE 3 0 [VInt 7, VShort 1]] =
      Inr (Some kv) \<and> sequence_number kv = 3 \<and> value_kind kv = INSERT \<and> kv_value kv ! 1 = VShort 6"
proof -
  let ?kvs = "[example_kv INSERT 1 0 [VInt 7, VShort 3], example_kv UPDATE_AFTER 2 0 [VInt 7, VShort 4],
    example_kv DELETE 3 0 [VInt 7, VShort 1]]"
  have f: "aggregator_fold (example_config False) 0 ?kvs = Inr (VInt 7, False)" "aggregator_fold (example_config False) 1 ?kvs = Inr (VShort 6, False)"
    by (simp_all add: AggregateMergeFunction_Create_def CreateFieldAggregator_def plain_aggregator_def GetAggFuncName_def
        example_options_def CreateFieldGetters_def CreateFieldGetter_def Let_def aggregator_fold_def aggregator_step_def null_row_def
        field_defs row_field_def FieldPrimaryKeyAgg_Agg_def FieldPrimaryKeyAgg_Retract_def FieldSumAgg_Agg_def FieldSumAgg_Retract_def
        skip_null_def keep_flag_def IsRetract_def)
  then show ?thesis
    using aggregate_per_field [OF example_config, of ?kvs False example_state]
    by (auto simp: less_Suc_eq_0_disj example_options_def split: if_split_asm)
qed

text \<open>
  C13. Aggregation preserves types: for a configuration the factory accepts, merging records whose values have the types of the
  schema gives a value that has them, whatever aggregators, retractions and deletes are involved.
\<close>

theorem aggregate_types:
  assumes "AggregateMergeFunction_Create libs schema keys options = Inr cfg" "kvs \<noteq> []"
    "\<forall>kv\<in>set kvs. \<forall>i<length schema. has_type (snd (schema ! i)) (row_field (kv_value kv) i)"
    "merge_all (AggregateMergeFunction cfg) s kvs = Inr (Some kv)"
  shows "has_type (STRUCT schema) (VRow (value_kind kv) (kv_value kv))"
proof -
  have "length (kv_value kv) = length schema" "\<forall>i<length schema. \<exists>f. field_fold cfg i kvs = Inr (kv_value kv ! i, f)"
    using aggregate_spec_fields [OF Create_config_ok [OF assms(1)] assms(2)] assms(4)
    unfolding aggregate.merge_all_spec Create_fields(1) [OF assms(1)] by (auto split: if_split_asm)
  then show ?thesis using field_fold_typed [OF assms(1)] assms(3) by (fastforce simp: has_type_nested)
qed

theorem aggregate_types_witness:
  "\<exists>kv. merge_all (AggregateMergeFunction (example_config False)) example_state [example_kv INSERT 1 0 [VInt 7, VNull], example_kv INSERT 2 0 [VInt 7, VShort 4]] =
      Inr (Some kv) \<and> has_type (STRUCT example_schema) (VRow (value_kind kv) (kv_value kv))"
proof -
  let ?kvs = "[example_kv INSERT 1 0 [VInt 7, VNull], example_kv INSERT 2 0 [VInt 7, VShort 4]]"
  have "\<exists>kv. merge_all (AggregateMergeFunction (example_config False)) example_state ?kvs = Inr (Some kv)"
    by (simp add: merge_all_def AggregateMergeFunction_def AggregateMergeFunction_Create_def CreateFieldAggregator_def plain_aggregator_def
        GetAggFuncName_def example_options_def CreateFieldGetters_def CreateFieldGetter_def Let_def Aggregate_Reset_def Aggregate_Add_def
        aggregate_field_def null_row_def Aggregate_GetResult_def field_defs row_field_def FieldPrimaryKeyAgg_Agg_def FieldSumAgg_Agg_def
        skip_null_def keep_flag_def IsRetract_def upt_rec)
  then obtain kv where kv: "merge_all (AggregateMergeFunction (example_config False)) example_state ?kvs = Inr (Some kv)" by blast
  show ?thesis
    using kv aggregate_types [OF example_config _ _ kv] by (simp add: row_field_def less_Suc_eq_0_disj)
qed

text \<open>
  A delete that removes the record leaves its values behind: a later insert is aggregated with them.
\<close>

lemma removed_record_is_aggregated:
  "field_fold (example_config True) 1 [example_kv INSERT 1 0 [VInt 7, VShort 100], example_kv DELETE 2 0 [VInt 7, VShort 200],
     example_kv INSERT 3 0 [VInt 7, VShort 300]] = Inr (VShort 500, False)"
  by (simp add: AggregateMergeFunction_Create_def CreateFieldAggregator_def plain_aggregator_def GetAggFuncName_def
      example_options_def CreateFieldGetters_def CreateFieldGetter_def Let_def field_fold_def field_step_def null_row_def
      field_defs row_field_def FieldSumAgg_Agg_def skip_null_def keep_flag_def IsRetract_def)

end
