(* ===== verification/Partial_Update.thy ===== *)
theory Partial_Update
  imports Aggregate_Merge "HOL-Library.AList"
begin

text \<open>
  The partial update merge engine, \<open>PartialUpdateMergeFunction\<close>
  (\<^verbatim>\<open>core/mergetree/compact/partial_update_merge_function.cpp\<close>): records update the fields they have values for, the fields of a
  sequence group only if the sequence of the record is not older. The index maps of comparators and aggregators
  are lists with one optional entry per field, the map from a field to its sequence group is an association list;
  the cache of comparators by group, which returns what \<open>Create\<close> returns, is left out. The lemmas show that without sequence groups
  each field is the last value that is not null, that the loop over the fields updates them as if
  at once, and that the fields of a sequence group come from one record with the greatest sequence.
\<close>

section \<open>Configuration\<close>

fun find_sub :: "'a list \<Rightarrow> 'a list \<Rightarrow> nat option" where
  "find_sub p [] = (if p = [] then Some 0 else None)"
| "find_sub p (x # xs) = (if take (length p) (x # xs) = p then Some 0 else map_option Suc (find_sub p xs))"

lemma find_sub_bound: "find_sub p xs = Some n \<Longrightarrow> n + length p \<le> length xs"
  by (induction xs arbitrary: n) (auto split: if_splits dest: arg_cong [where f = length])

function split_from :: "'a list \<Rightarrow> bool \<Rightarrow> 'a list \<Rightarrow> 'a list list" where
  "split_from sep ignore_empty text =
     (case (if sep = [] then None else find_sub sep text) of
        Some n \<Rightarrow> (if \<not> ignore_empty \<or> n \<noteq> 0 then [take n text] else []) @ split_from sep ignore_empty (drop (n + length sep) text)
      | None \<Rightarrow> if \<not> ignore_empty \<or> text \<noteq> [] then [text] else [])"
  by pat_completeness auto
termination
  by (relation "measure (\<lambda>(_, _, text). length text)") (auto split: if_splits dest!: find_sub_bound simp flip: length_greater_0_conv)

definition Split :: "'a list \<Rightarrow> 'a list \<Rightarrow> bool \<Rightarrow> 'a list list" where
  "Split text sep_str ignore_empty = (if sep_str = [] then [text] else split_from sep_str ignore_empty text)"

type_synonym seq_groups = "(string \<times> string list) list"

fun add_value_fields :: "string list \<Rightarrow> string list \<Rightarrow> seq_groups \<Rightarrow> seq_groups result" where
  "add_value_fields seq_fields [] groups = Inr groups"
| "add_value_fields seq_fields (field # rest) groups =
     (if map_of groups field \<noteq> None then Inl (Invalid ''field {} is defined repeatedly by multiple groups: {} and {}'')
      else add_value_fields seq_fields rest (AList.update field seq_fields groups))"

definition parse_group :: "seq_groups \<times> string set \<Rightarrow> string \<times> string \<Rightarrow> (seq_groups \<times> string set) result" where
  "parse_group s kv =
     (let seq_fields = Split (fst kv) '','' False; seq_value_fields = Split (snd kv) '','' False in
      rbind (add_value_fields seq_fields seq_value_fields (fst s)) (\<lambda>groups.
      Inr (foldl (\<lambda>m field. AList.update field seq_fields m) groups seq_fields, snd s \<union> set seq_fields)))"

definition ParseSequenceGroupFields :: "(string \<times> string) list \<Rightarrow> (seq_groups \<times> string set) result" where
  "ParseSequenceGroupFields fields_seq_group_map = rfold parse_group ([], {}) fields_seq_group_map"

definition complete_field :: "(string \<Rightarrow> (string \<times> arrow_type) result) \<Rightarrow> string list \<times> (string \<times> arrow_type) list \<Rightarrow> string \<Rightarrow>
    (string list \<times> (string \<times> arrow_type) list) result" where
  "complete_field get_field s seq_field =
     (if seq_field \<in> set (fst s) then Inr s
      else rbind (get_field seq_field) (\<lambda>f. Inr (fst s @ [seq_field], snd s @ [f])))"

definition CompleteSequenceGroupFields :: "(string \<Rightarrow> (string \<times> arrow_type) result) \<Rightarrow> seq_groups \<Rightarrow> (string \<times> arrow_type) list \<Rightarrow>
    (string \<times> arrow_type) list result" where
  "CompleteSequenceGroupFields get_field groups value_fields =
     (if groups = [] then Inr value_fields
      else rbind (rfold (\<lambda>s field. case map_of groups (fst field) of
             None \<Rightarrow> Inr s
           | Some seq_group_fields \<Rightarrow> rfold (complete_field get_field) s seq_group_fields) (map fst value_fields, []) value_fields)
         (\<lambda>s. Inr (value_fields @ snd s)))"

record partial_options =
  agg_opts :: agg_options
  PartialUpdateRemoveRecordOnDelete :: bool
  IgnoreDelete :: bool
  GetPartialUpdateRemoveRecordOnSequenceGroup :: "string list"

record partial_config =
  pc_ignore_delete :: bool
  pc_remove_on_delete :: bool
  pc_sequence_enabled :: bool
  pc_getters :: "(row \<Rightarrow> variant) list"
  pc_comparators :: "FieldsComparator option list"
  pc_aggregators :: "field_aggregator option list"
  pc_partial_delete :: "nat list"

definition sequence_comparator_of :: "(string \<times> arrow_type) list \<Rightarrow> string list \<Rightarrow> FieldsComparator result" where
  "sequence_comparator_of schema seq_group =
     rbind (rmap (\<lambda>seq_group_field. case GetFieldIndex schema seq_group_field of
         None \<Rightarrow> Inl (Invalid ''cannot find sequence group field {} in value schema, unexpected.'')
       | Some i \<Rightarrow> Inr i) seq_group) (\<lambda>sort_idx.
     FieldsComparator_Create (map snd schema) sort_idx True)"

definition CreateFieldSeqComparator :: "(string \<times> arrow_type) list \<Rightarrow> seq_groups \<Rightarrow> FieldsComparator option list result" where
  "CreateFieldSeqComparator schema groups = rmap (\<lambda>f. case map_of groups (fst f) of
       None \<Rightarrow> Inr None
     | Some seq_group \<Rightarrow> rbind (sequence_comparator_of schema seq_group) (\<lambda>c. Inr (Some c))) schema"

definition CreateFieldAggregators :: "agg_libs \<Rightarrow> (string \<times> arrow_type) list \<Rightarrow> string list \<Rightarrow> agg_options \<Rightarrow> seq_groups \<Rightarrow> string set \<Rightarrow>
    field_aggregator option list result" where
  "CreateFieldAggregators libs schema primary_keys options groups seq_group_key_set = rmap (\<lambda>f.
     if fst f \<in> seq_group_key_set then Inr None
     else if fst f \<in> set primary_keys then
       rbind (CreateFieldAggregator libs (fst f) (snd f) ''primary-key'' options) (\<lambda>agg. Inr (Some agg))
     else rbind (GetFieldAggFunc options (fst f)) (\<lambda>str_agg.
       case (if str_agg = None then GetFieldsDefaultFunc options else str_agg) of
         None \<Rightarrow> Inr None
       | Some name \<Rightarrow>
           if name \<noteq> ''last_non_null_value'' \<and> map_of groups (fst f) = None
           then Inl (Invalid ''Must use sequence group for aggregation functions but not found for field {}'')
           else rbind (CreateFieldAggregator libs (fst f) (snd f) name options) (\<lambda>agg. Inr (Some agg)))) schema"

definition partial_delete_fields :: "(string \<times> arrow_type) list \<Rightarrow> string list \<Rightarrow> nat list" where
  "partial_delete_fields schema names = concat (map (\<lambda>name. case GetFieldIndex schema name of None \<Rightarrow> [] | Some i \<Rightarrow> [i]) names)"

definition PartialUpdate_Create :: "agg_libs \<Rightarrow> (string \<times> arrow_type) list \<Rightarrow> string list \<Rightarrow> partial_options \<Rightarrow> seq_groups \<Rightarrow> string set \<Rightarrow>
    partial_config result" where
  "PartialUpdate_Create libs schema primary_keys options groups seq_group_key_set =
     rbind (CreateFieldAggregators libs schema primary_keys (agg_opts options) groups seq_group_key_set) (\<lambda>aggs.
     rbind (CreateFieldSeqComparator schema groups) (\<lambda>cmps.
     let remove_record_on_delete = PartialUpdateRemoveRecordOnDelete options; ignore_delete = IgnoreDelete options;
         remove_fields = GetPartialUpdateRemoveRecordOnSequenceGroup options
     in if remove_record_on_delete \<and> ignore_delete
        then Inl (Invalid ''{} and {} have conflicting behavior so should not be enabled at the same time.'')
        else if remove_record_on_delete \<and> (\<exists>c\<in>set cmps. c \<noteq> None)
        then Inl (Invalid ''sequence group and {} have conflicting behavior so should not be enabled at the same time.'')
        else if remove_fields \<noteq> [] \<and> \<not> set remove_fields \<subseteq> seq_group_key_set
        then Inl (Invalid ''field {} defined in {} option must be part of sequence groups.'')
        else
          rbind (CreateFieldGetters (map snd schema) True) (\<lambda>gs.
          Inr \<lparr>pc_ignore_delete = ignore_delete, pc_remove_on_delete = remove_record_on_delete, pc_sequence_enabled = groups \<noteq> [],
            pc_getters = gs, pc_comparators = cmps, pc_aggregators = aggs,
            pc_partial_delete = partial_delete_fields schema remove_fields\<rparr>)))"

section \<open>Merging\<close>

record partial_update =
  pu_key :: "row option"
  pu_row :: row
  pu_seq :: int
  pu_delete_row :: bool
  pu_meet_insert :: bool
  pu_filled :: bool
  pu_flags :: "bool list"

abbreviation field_at :: "partial_config \<Rightarrow> row \<Rightarrow> nat \<Rightarrow> variant" where
  "field_at cfg r i \<equiv> (pc_getters cfg ! i) r"

definition Partial_Reset :: "partial_config \<Rightarrow> partial_update \<Rightarrow> partial_update" where
  "Partial_Reset cfg s = s\<lparr>pu_key := None, pu_meet_insert := False, pu_filled := False,
     pu_row := replicate (length (pc_getters cfg)) VNull, pu_seq := 0, pu_flags := replicate (length (pc_getters cfg)) False\<rparr>"

definition InitRow :: "partial_config \<Rightarrow> row \<Rightarrow> row" where
  "InitRow cfg v = map (\<lambda>g. g v) (pc_getters cfg)"

definition IsEmptySequenceGroup :: "partial_config \<Rightarrow> row \<Rightarrow> FieldsComparator \<Rightarrow> bool" where
  "IsEmptySequenceGroup cfg v c \<longleftrightarrow> (\<forall>i\<in>set (sort_fields c). IsVariantNull (field_at cfg v i))"

definition UpdateNonNullFields :: "partial_config \<Rightarrow> row \<Rightarrow> row \<Rightarrow> row" where
  "UpdateNonNullFields cfg v r = foldl (\<lambda>r i.
     let field = field_at cfg v i in if \<not> IsVariantNull field then r[i := field] else r) r [0..<length (pc_getters cfg)]"

definition set_result :: "row \<Rightarrow> bool list \<Rightarrow> nat \<Rightarrow> (variant \<times> bool) result \<Rightarrow> (row \<times> bool list) result" where
  "set_result r flags i res = rbind res (\<lambda>v. Inr (r[i := fst v], flags[i := snd v]))"

definition copy_fields :: "partial_config \<Rightarrow> row \<Rightarrow> nat list \<Rightarrow> row \<Rightarrow> row" where
  "copy_fields cfg v is r = foldl (\<lambda>r j. r[j := field_at cfg v j]) r is"

definition update_field :: "partial_config \<Rightarrow> row \<Rightarrow> row \<times> bool list \<Rightarrow> nat \<Rightarrow> (row \<times> bool list) result" where
  "update_field cfg v s i =
     (case s of (r, flags) \<Rightarrow>
       let field = field_at cfg v i; accumulator = field_at cfg r i; agg = pc_aggregators cfg ! i in
       case pc_comparators cfg ! i of
         None \<Rightarrow> (case agg of
             Some a \<Rightarrow> set_result r flags i (Agg a (flags ! i) accumulator field)
           | None \<Rightarrow> Inr (if \<not> IsVariantNull field then r[i := field] else r, flags))
       | Some c \<Rightarrow>
           if IsEmptySequenceGroup cfg v c then Inr (r, flags)
           else if FieldsComparator_CompareTo c v r \<ge> 0 then
             if i \<in> set (sort_fields c) then Inr (copy_fields cfg v (sort_fields c) r, flags)
             else (case agg of
                 Some a \<Rightarrow> set_result r flags i (Agg a (flags ! i) accumulator field)
               | None \<Rightarrow> Inr (r[i := field], flags))
           else (case agg of
               Some a \<Rightarrow> set_result r flags i (AggReversed a (flags ! i) accumulator field)
             | None \<Rightarrow> Inr (r, flags)))"

definition UpdateWithSequenceGroup :: "partial_config \<Rightarrow> row \<Rightarrow> row \<times> bool list \<Rightarrow> (row \<times> bool list) result" where
  "UpdateWithSequenceGroup cfg v s = rfold (update_field cfg v) s [0..<length (pc_getters cfg)]"

text \<open>Copying the sequence fields that are not copied yet; none if one of them removes the record.\<close>

fun retract_sequence :: "partial_config \<Rightarrow> key_value \<Rightarrow> nat list \<Rightarrow> nat set \<Rightarrow> row \<Rightarrow> (row \<times> nat set) option" where
  "retract_sequence cfg kv [] updated r = Some (r, updated)"
| "retract_sequence cfg kv (j # js) updated r =
     (if j \<in> updated then retract_sequence cfg kv js updated r
      else if value_kind kv = DELETE \<and> j \<in> set (pc_partial_delete cfg) then None
      else retract_sequence cfg kv js (insert j updated) (r[j := field_at cfg (kv_value kv) j]))"

definition retract_aggregate :: "partial_config \<Rightarrow> row \<Rightarrow> row \<Rightarrow> nat \<Rightarrow> field_aggregator \<Rightarrow> row result" where
  "retract_aggregate cfg v r i agg =
     rbind (Retract agg (field_at cfg r i) (field_at cfg v i)) (\<lambda>ret. Inr (r[i := ret]))"

text \<open>The loop over the fields: the row, and whether the record is removed.\<close>

fun retract_fields :: "partial_config \<Rightarrow> key_value \<Rightarrow> nat set \<Rightarrow> row \<Rightarrow> nat list \<Rightarrow> (row \<times> bool) result" where
  "retract_fields cfg kv updated r [] = Inr (r, False)"
| "retract_fields cfg kv updated r (i # is) =
     (case pc_comparators cfg ! i of
        None \<Rightarrow> retract_fields cfg kv updated r is
      | Some c \<Rightarrow>
          if IsEmptySequenceGroup cfg (kv_value kv) c then retract_fields cfg kv updated r is
          else if FieldsComparator_CompareTo c (kv_value kv) r \<ge> 0 then
            if i \<in> set (sort_fields c) then
              (case retract_sequence cfg kv (sort_fields c) updated r of
                 None \<Rightarrow> Inr (InitRow cfg (kv_value kv), True)
               | Some (r', updated') \<Rightarrow> retract_fields cfg kv updated' r' is)
            else (case pc_aggregators cfg ! i of
                None \<Rightarrow> retract_fields cfg kv updated (r[i := VNull]) is
              | Some agg \<Rightarrow> rbind (retract_aggregate cfg (kv_value kv) r i agg) (\<lambda>r'. retract_fields cfg kv updated r' is))
          else (case pc_aggregators cfg ! i of
              None \<Rightarrow> retract_fields cfg kv updated r is
            | Some agg \<Rightarrow> rbind (retract_aggregate cfg (kv_value kv) r i agg) (\<lambda>r'. retract_fields cfg kv updated r' is)))"

definition RetractWithSequenceGroup :: "partial_config \<Rightarrow> partial_update \<Rightarrow> key_value \<Rightarrow> partial_update result" where
  "RetractWithSequenceGroup cfg s kv =
     (let r = (if pu_filled s then pu_row s else InitRow cfg (kv_value kv)) in
      rbind (retract_fields cfg kv {} r [0..<length (pc_getters cfg)]) (\<lambda>res.
      Inr (s\<lparr>pu_filled := True, pu_row := fst res, pu_delete_row := snd res\<rparr>)))"

definition Partial_Add :: "partial_config \<Rightarrow> partial_update \<Rightarrow> key_value \<Rightarrow> partial_update result" where
  "Partial_Add cfg s0 kv =
     (let s = s0\<lparr>pu_key := Some (kv_key kv), pu_delete_row := False\<rparr> in
      if IsRetract (value_kind kv) then
        if pc_ignore_delete cfg then
          Inr (if \<not> pu_filled s then s\<lparr>pu_row := InitRow cfg (kv_value kv), pu_filled := True\<rparr> else s)
        else
          let s = s\<lparr>pu_seq := sequence_number kv\<rparr> in
          if pc_sequence_enabled cfg then RetractWithSequenceGroup cfg s kv
          else if pc_remove_on_delete cfg then
            Inr (if value_kind kv = DELETE then s\<lparr>pu_delete_row := True, pu_row := InitRow cfg (kv_value kv)\<rparr>
                 else if \<not> pu_filled s then s\<lparr>pu_row := InitRow cfg (kv_value kv), pu_filled := True\<rparr>
                 else s)
          else Inl (Invalid ''By default, Partial update can not accept delete records'')
      else
        let s = s\<lparr>pu_seq := sequence_number kv\<rparr> in
        rbind (if list_all (\<lambda>c. c = None) (pc_comparators cfg)
               then Inr (UpdateNonNullFields cfg (kv_value kv) (pu_row s), pu_flags s)
               else UpdateWithSequenceGroup cfg (kv_value kv) (pu_row s, pu_flags s)) (\<lambda>rf.
        Inr (s\<lparr>pu_row := fst rf, pu_flags := snd rf, pu_meet_insert := True, pu_filled := True\<rparr>)))"

text \<open>A result before any record, which would have no key, is an error.\<close>

definition Partial_GetResult :: "partial_update \<Rightarrow> key_value option result" where
  "Partial_GetResult s = (case pu_key s of
     None \<Rightarrow> Inl (Invalid ''current_key_'')
   | Some key \<Rightarrow> Inr (Some \<lparr>value_kind = (if pu_delete_row s \<or> \<not> pu_meet_insert s then DELETE else INSERT),
       sequence_number = pu_seq s, kv_level = UNKNOWN_LEVEL, kv_key = key, kv_value = pu_row s\<rparr>))"

definition PartialUpdateMergeFunction :: "partial_config \<Rightarrow> partial_update merge_function_ops" where
  "PartialUpdateMergeFunction cfg =
     \<lparr>mf_Reset = Partial_Reset cfg, mf_Add = Partial_Add cfg, mf_GetResult = Partial_GetResult\<rparr>"

section \<open>A merge function\<close>

definition partial_fresh :: "partial_config \<Rightarrow> partial_update" where
  "partial_fresh cfg = \<lparr>pu_key = None, pu_row = replicate (length (pc_getters cfg)) VNull, pu_seq = 0, pu_delete_row = False,
     pu_meet_insert = False, pu_filled = False, pu_flags = replicate (length (pc_getters cfg)) False\<rparr>"

definition partial_spec :: "partial_config \<Rightarrow> key_value list \<Rightarrow> key_value option result" where
  "partial_spec cfg kvs = rbind (rfold (Partial_Add cfg) (partial_fresh cfg) kvs) Partial_GetResult"

lemma Partial_Reset_fresh: "Partial_Reset cfg s = (partial_fresh cfg)\<lparr>pu_delete_row := pu_delete_row s\<rparr>"
  by (simp add: Partial_Reset_def partial_fresh_def)

lemma Partial_Add_delete_row: "Partial_Add cfg (s\<lparr>pu_delete_row := b\<rparr>) kv = Partial_Add cfg s kv"
  by (simp add: Partial_Add_def)

interpretation partial: merge_function "PartialUpdateMergeFunction cfg" "partial_spec cfg" for cfg
proof unfold_locales
  fix s kvs
  have "rbind (rfold (Partial_Add cfg) (Partial_Reset cfg s) kvs) Partial_GetResult = partial_spec cfg kvs"
  proof (cases kvs)
    case Nil
    then show ?thesis by (simp add: Partial_Reset_fresh partial_spec_def Partial_GetResult_def partial_fresh_def)
  next
    case (Cons kv rest)
    then show ?thesis by (simp add: Partial_Reset_fresh partial_spec_def Partial_Add_delete_row)
  qed
  then show "merge_all (PartialUpdateMergeFunction cfg) s kvs = partial_spec cfg kvs"
    by (simp add: merge_all_def PartialUpdateMergeFunction_def)
qed

interpretation lookup_partial: merge_function "LookupMergeFunction (PartialUpdateMergeFunction cfg)"
  "\<lambda>kvs. partial_spec cfg (lookup_inputs kvs)" for cfg
  by (rule partial.lookup_merge_function)

section \<open>Without sequence groups\<close>

definition last_non_null :: "variant list \<Rightarrow> variant" where
  "last_non_null vs = (if \<exists>v\<in>set vs. v \<noteq> VNull then last (filter (\<lambda>v. v \<noteq> VNull) vs) else VNull)"

lemma last_non_null_snoc: "last_non_null (u # vs @ [v]) = (if v \<noteq> VNull then v else last_non_null (u # vs))"
  by (auto simp: last_non_null_def)

lemma UpdateNonNull_loop:
  fixes cfg v
  assumes "n \<le> length r"
  defines "r' \<equiv> foldl (\<lambda>r i. let field = field_at cfg v i in if \<not> IsVariantNull field then r[i := field] else r) r [0..<n]"
  shows "length r' = length r \<and> (\<forall>i<length r. r' ! i = (if i < n \<and> field_at cfg v i \<noteq> VNull then field_at cfg v i else r ! i))"
  using assms(1) unfolding r'_def
  by (induction n) (auto simp: Let_def IsVariantNull_def nth_list_update less_Suc_eq)

lemma Create_partial:
  assumes "PartialUpdate_Create libs schema keys options groups key_set = Inr cfg"
  shows "length (pc_getters cfg) = length schema" "length (pc_comparators cfg) = length schema" "length (pc_aggregators cfg) = length schema"
    "i < length schema \<Longrightarrow> CreateFieldGetter i (snd (schema ! i)) True = Inr (pc_getters cfg ! i)"
    "i < length schema \<Longrightarrow> (case map_of groups (fst (schema ! i)) of None \<Rightarrow> pc_comparators cfg ! i = None
      | Some g \<Rightarrow> \<exists>c. pc_comparators cfg ! i = Some c \<and> sequence_comparator_of schema g = Inr c)"
    "pc_sequence_enabled cfg \<longleftrightarrow> groups \<noteq> []" "pc_ignore_delete cfg = IgnoreDelete options"
    "pc_remove_on_delete cfg = PartialUpdateRemoveRecordOnDelete options"
proof -
  obtain aggs cmps gs where c: "CreateFieldAggregators libs schema keys (agg_opts options) groups key_set = Inr aggs"
    "CreateFieldSeqComparator schema groups = Inr cmps" "CreateFieldGetters (map snd schema) True = Inr gs"
    "cfg = \<lparr>pc_ignore_delete = IgnoreDelete options, pc_remove_on_delete = PartialUpdateRemoveRecordOnDelete options,
      pc_sequence_enabled = groups \<noteq> [], pc_getters = gs, pc_comparators = cmps, pc_aggregators = aggs,
      pc_partial_delete = partial_delete_fields schema (GetPartialUpdateRemoveRecordOnSequenceGroup options)\<rparr>"
    using assms unfolding PartialUpdate_Create_def Let_def
    by (cases "CreateFieldAggregators libs schema keys (agg_opts options) groups key_set"; cases "CreateFieldSeqComparator schema groups";
        cases "CreateFieldGetters (map snd schema) True") (simp_all split: if_splits)
  show "length (pc_getters cfg) = length schema" "length (pc_comparators cfg) = length schema" "length (pc_aggregators cfg) = length schema"
    "i < length schema \<Longrightarrow> CreateFieldGetter i (snd (schema ! i)) True = Inr (pc_getters cfg ! i)"
    using c by (auto simp: CreateFieldAggregators_def CreateFieldSeqComparator_def CreateFieldGetters_def rmap_Inr)
  show "case map_of groups (fst (schema ! i)) of None \<Rightarrow> pc_comparators cfg ! i = None
      | Some g \<Rightarrow> \<exists>c. pc_comparators cfg ! i = Some c \<and> sequence_comparator_of schema g = Inr c" if i: "i < length schema"
  proof -
    have "(case map_of groups (fst (schema ! i)) of None \<Rightarrow> Inr None
        | Some seq_group \<Rightarrow> rbind (sequence_comparator_of schema seq_group) (\<lambda>c. Inr (Some c))) = Inr (cmps ! i)"
      using c(2) i by (simp add: CreateFieldSeqComparator_def rmap_Inr)
    then show ?thesis by (auto simp: c(4) rbind_eq_Inr split: option.splits)
  qed
  show "pc_sequence_enabled cfg \<longleftrightarrow> groups \<noteq> []" "pc_ignore_delete cfg = IgnoreDelete options"
    "pc_remove_on_delete cfg = PartialUpdateRemoveRecordOnDelete options"
    by (simp_all add: c(4))
qed

lemma no_groups: "PartialUpdate_Create libs schema keys options [] key_set = Inr cfg \<Longrightarrow> list_all (\<lambda>c. c = None) (pc_comparators cfg)"
  using Create_partial(2,5) [of libs schema keys options "[]" key_set cfg] by (auto simp: list_all_length)

lemma plain_inserts:
  assumes "list_all (\<lambda>c. c = None) (pc_comparators cfg)" "\<forall>kv\<in>set kvs. \<not> IsRetract (value_kind kv)" "length (pu_row s) = length (pc_getters cfg)"
  shows "\<exists>s'. rfold (Partial_Add cfg) s kvs = Inr s' \<and> length (pu_row s') = length (pc_getters cfg) \<and>
    (kvs \<noteq> [] \<longrightarrow> pu_key s' = Some (kv_key (last kvs)) \<and> pu_seq s' = sequence_number (last kvs) \<and> \<not> pu_delete_row s' \<and> pu_meet_insert s') \<and>
    (\<forall>i<length (pc_getters cfg). pu_row s' ! i = last_non_null (pu_row s ! i # map (\<lambda>kv. field_at cfg (kv_value kv) i) kvs))"
  using assms(2)
proof (induction kvs rule: rev_induct)
  case Nil
  then show ?case using assms(3) by (auto simp: last_non_null_def)
next
  case (snoc kv kvs)
  then obtain s' where s': "rfold (Partial_Add cfg) s kvs = Inr s'" "length (pu_row s') = length (pc_getters cfg)"
    "\<forall>i<length (pc_getters cfg). pu_row s' ! i = last_non_null (pu_row s ! i # map (\<lambda>kv. field_at cfg (kv_value kv) i) kvs)" by auto
  define r where "r = UpdateNonNullFields cfg (kv_value kv) (pu_row s')"
  have add: "Partial_Add cfg s' kv = Inr (s'\<lparr>pu_key := Some (kv_key kv), pu_delete_row := False, pu_seq := sequence_number kv,
      pu_row := r, pu_meet_insert := True, pu_filled := True\<rparr>)"
    using snoc.prems assms(1) by (simp add: Partial_Add_def r_def)
  have r: "length r = length (pc_getters cfg)"
    "\<forall>i<length (pc_getters cfg). r ! i = (if field_at cfg (kv_value kv) i \<noteq> VNull then field_at cfg (kv_value kv) i else pu_row s' ! i)"
    using UpdateNonNull_loop [of "length (pc_getters cfg)" "pu_row s'" cfg "kv_value kv"] s'(2)
    by (auto simp: r_def UpdateNonNullFields_def)
  then show ?case
    unfolding rfold_append s'(1) using s'(3) by (simp add: add last_non_null_snoc)
qed

section \<open>Sequence groups\<close>

text \<open>The value a getter reads: strings and binaries as views.\<close>

definition view :: "row \<Rightarrow> nat \<Rightarrow> variant" where
  "view r i = field_view (row_field r i)"

lemma field_view_cases: "field_view v = field_view w \<Longrightarrow> v = w \<or> (v \<noteq> VNull \<and> w \<noteq> VNull \<and>
    (\<exists>b c. (v = VString b \<or> v = VBytes b \<or> v = VStringView b) \<and> (w = VString b \<or> w = VBytes b \<or> w = VStringView b)))"
  by (cases v; cases w) auto

lemma CompareField_view:
  assumes "CompareField i t = Inr c" "view l i = view l' i" "view r i = view r' i"
  shows "c l r = c l' r'"
proof -
  have s: "GetBoolean x i = GetBoolean y i" "GetByte x i = GetByte y i" "GetShort x i = GetShort y i" "GetInt x i = GetInt y i"
    "GetDate x i = GetDate y i" "GetLong x i = GetLong y i" "GetFloat x i = GetFloat y i" "GetDouble x i = GetDouble y i"
    "GetStringView x i = GetStringView y i" "GetTimestamp x i = GetTimestamp y i" "GetDecimal x i p q = GetDecimal y i p q"
    if "view x i = view y i" for x y p q
    using field_view_cases [OF that [unfolded view_def]] by (auto simp: field_defs)
  show ?thesis using assms(1) s [OF assms(2)] s [OF assms(3)] by (cases t) auto
qed

lemma IsNullAt_view: "view l i = view l' i \<Longrightarrow> IsNullAt l i = IsNullAt l' i"
  by (metis IsNullAt_def IsVariantNull_def field_view_string(2) view_def)

lemma compare_fields_view:
  assumes "list_all2 (\<lambda>i c. \<exists>t. CompareField i t = Inr c) is cs" "\<forall>i\<in>set is. view l i = view l' i \<and> view r i = view r' i"
  shows "compare_fields asc is cs l r = compare_fields asc is cs l' r'"
  using assms
proof (induction rule: list_all2_induct)
  case (Cons i "is" c cs)
  then have "c l r = c l' r'" using CompareField_view [of i _ c l l' r r'] by auto
  then show ?case using Cons IsNullAt_view [of l i l'] IsNullAt_view [of r i r'] by (simp add: Let_def)
qed simp

lemma FieldsComparator_view:
  assumes "FieldsComparator_Create types sort_idx asc = Inr c"
    "\<forall>i\<in>set (sort_fields c). view l i = view l' i \<and> view r i = view r' i"
  shows "FieldsComparator_CompareTo c l r = FieldsComparator_CompareTo c l' r'"
proof -
  obtain cs where c: "rmap (\<lambda>i. if i < length types then CompareField i (types ! i) else Inl (Invalid ''sort field out of range''))
      sort_idx = Inr cs" "c = \<lparr>is_ascending_order = asc, sort_fields = sort_idx, comparators = cs\<rparr>"
    using assms(1) by (auto simp: FieldsComparator_Create_def rbind_eq_Inr)
  have "list_all2 (\<lambda>i c. \<exists>t. CompareField i t = Inr c) sort_idx cs"
    using c(1) unfolding rmap_Inr list_all2_conv_all_nth by (metis Inl_Inr_False)
  then show ?thesis using compare_fields_view assms(2) by (simp add: FieldsComparator_CompareTo_def c(2))
qed

lemma getter_view:
  assumes "CreateFieldGetter i t True = Inr g" "has_type t (row_field r i)"
  shows "g r = view r i"
  unfolding view_def using assms
  by (cases "row_field r i") (auto simp: CreateFieldGetter_def rbind_eq_Inr field_defs has_type_nested
      GetArray_def GetMap_def GetRow_def split: arrow_type.split_asm)

text \<open>
  Getters read their own field, the fields of a sequence belong to its group, and comparators look only at the
  fields of the sequence.
\<close>

definition sequence_field :: "partial_config \<Rightarrow> nat \<Rightarrow> bool" where
  "sequence_field cfg i \<longleftrightarrow> (case pc_comparators cfg ! i of None \<Rightarrow> False | Some c \<Rightarrow> i \<in> set (sort_fields c))"

definition partial_ok :: "partial_config \<Rightarrow> bool" where
  "partial_ok cfg \<longleftrightarrow> length (pc_comparators cfg) = length (pc_getters cfg) \<and>
     (\<forall>i<length (pc_getters cfg). sequence_field cfg i \<longrightarrow> pc_aggregators cfg ! i = None) \<and>
     (\<forall>i<length (pc_getters cfg). (\<forall>r r'. row_field r i = row_field r' i \<longrightarrow> field_at cfg r i = field_at cfg r' i) \<and>
       (\<forall>c. pc_comparators cfg ! i = Some c \<longrightarrow> (\<exists>types. FieldsComparator_Create types (sort_fields c) True = Inr c) \<and>
         (\<forall>j\<in>set (sort_fields c). j < length (pc_getters cfg) \<and> pc_comparators cfg ! j = Some c)))"

definition accepts :: "partial_config \<Rightarrow> row \<Rightarrow> row \<Rightarrow> FieldsComparator \<Rightarrow> bool" where
  "accepts cfg v r c \<longleftrightarrow> \<not> IsEmptySequenceGroup cfg v c \<and> FieldsComparator_CompareTo c v r \<ge> 0"

text \<open>The update of one field, decided on the row before the record.\<close>

definition field_update :: "partial_config \<Rightarrow> row \<Rightarrow> row \<Rightarrow> bool list \<Rightarrow> nat \<Rightarrow> (variant \<times> bool) result" where
  "field_update cfg v r flags i =
     (let field = field_at cfg v i; accumulator = field_at cfg r i; agg = pc_aggregators cfg ! i in
      case pc_comparators cfg ! i of
        None \<Rightarrow> (case agg of
            Some a \<Rightarrow> Agg a (flags ! i) accumulator field
          | None \<Rightarrow> Inr (if \<not> IsVariantNull field then field else r ! i, flags ! i))
      | Some c \<Rightarrow>
          if IsEmptySequenceGroup cfg v c then Inr (r ! i, flags ! i)
          else if accepts cfg v r c then
            if i \<in> set (sort_fields c) then Inr (field, flags ! i)
            else (case agg of Some a \<Rightarrow> Agg a (flags ! i) accumulator field | None \<Rightarrow> Inr (field, flags ! i))
          else (case agg of Some a \<Rightarrow> AggReversed a (flags ! i) accumulator field | None \<Rightarrow> Inr (r ! i, flags ! i)))"

text \<open>The row and flags when the loop has passed the first \<open>m\<close> fields.\<close>

definition field_passed :: "partial_config \<Rightarrow> row \<Rightarrow> row \<Rightarrow> bool list \<Rightarrow> nat \<Rightarrow> nat \<Rightarrow> variant \<Rightarrow> bool \<Rightarrow> bool" where
  "field_passed cfg v r flags m i a f \<longleftrightarrow>
     (if sequence_field cfg i then
        f = flags ! i \<and>
        a = (if accepts cfg v r (the (pc_comparators cfg ! i)) \<and> (\<exists>k\<in>set (sort_fields (the (pc_comparators cfg ! i))). k < m)
          then field_at cfg v i else r ! i)
      else if i < m then field_update cfg v r flags i = Inr (a, f)
      else a = r ! i \<and> f = flags ! i)"

definition passed :: "partial_config \<Rightarrow> row \<Rightarrow> row \<Rightarrow> bool list \<Rightarrow> nat \<Rightarrow> row \<Rightarrow> bool list \<Rightarrow> bool" where
  "passed cfg v r flags m r' flags' \<longleftrightarrow>
     length r' = length (pc_getters cfg) \<and> length flags' = length (pc_getters cfg) \<and>
     (\<forall>i<length (pc_getters cfg). field_passed cfg v r flags m i (r' ! i) (flags' ! i))"

lemma copy_fields_nth:
  "length (copy_fields cfg v is r) = length r"
  "i < length r \<Longrightarrow> copy_fields cfg v is r ! i = (if i \<in> set is then field_at cfg v i else r ! i)"
proof -
  have "length (copy_fields cfg v is r) = length r \<and>
      (i < length r \<longrightarrow> copy_fields cfg v is r ! i = (if i \<in> set is then field_at cfg v i else r ! i))"
  proof (induction "is" rule: rev_induct)
    case (snoc j js)
    then show ?case by (cases "j = i") (auto simp: copy_fields_def)
  qed (simp add: copy_fields_def)
  then show "length (copy_fields cfg v is r) = length r"
    "i < length r \<Longrightarrow> copy_fields cfg v is r ! i = (if i \<in> set is then field_at cfg v i else r ! i)" by auto
qed

lemma partial_ok_group:
  assumes "partial_ok cfg" "i < length (pc_getters cfg)" "pc_comparators cfg ! i = Some c"
  shows "\<exists>types. FieldsComparator_Create types (sort_fields c) True = Inr c"
    "\<forall>j\<in>set (sort_fields c). j < length (pc_getters cfg) \<and> pc_comparators cfg ! j = Some c"
  using assms unfolding partial_ok_def by blast+

lemma partial_ok_sequence: "partial_ok cfg \<Longrightarrow> i < length (pc_getters cfg) \<Longrightarrow> sequence_field cfg i \<Longrightarrow> pc_aggregators cfg ! i = None"
  unfolding partial_ok_def by blast

lemma partial_ok_length: "partial_ok cfg \<Longrightarrow> length (pc_comparators cfg) = length (pc_getters cfg)"
  unfolding partial_ok_def by blast

lemma partial_ok_getter:
  "partial_ok cfg \<Longrightarrow> i < length (pc_getters cfg) \<Longrightarrow> row_field r i = row_field r' i \<Longrightarrow> field_at cfg r i = field_at cfg r' i"
  unfolding partial_ok_def by blast

lemma accepts_passed:
  assumes ok: "partial_ok cfg" and m: "m < length (pc_getters cfg)" "pc_comparators cfg ! m = Some c"
    and p: "passed cfg v r flags m r' flags'" and len: "length r = length (pc_getters cfg)"
    and v: "\<forall>i<length (pc_getters cfg). field_view (field_at cfg v i) = view v i"
  shows "accepts cfg v r' c = accepts cfg v r c"
proof -
  note group = partial_ok_group [OF ok m]
  have c: "j < length (pc_getters cfg)" "pc_comparators cfg ! j = Some c" "sequence_field cfg j" if "j \<in> set (sort_fields c)" for j
    using group(2) that by (auto simp: sequence_field_def)
  obtain types where create: "FieldsComparator_Create types (sort_fields c) True = Inr c" using group(1) by blast
  have row: "row_field r' j = (if accepts cfg v r c \<and> (\<exists>k\<in>set (sort_fields c). k < m) then field_at cfg v j else row_field r j)"
    if "j \<in> set (sort_fields c)" for j
  proof -
    have "field_passed cfg v r flags m j (r' ! j) (flags' ! j)" "length r' = length (pc_getters cfg)"
      using p c [OF that] by (simp_all add: passed_def)
    then show ?thesis using c [OF that] len by (auto simp: field_passed_def row_field_def)
  qed
  show ?thesis
  proof (cases "accepts cfg v r c \<and> (\<exists>k\<in>set (sort_fields c). k < m)")
    case True
    then have "FieldsComparator_CompareTo c v r' = FieldsComparator_CompareTo c v v"
      using row v c by (intro FieldsComparator_view [OF create]) (simp add: view_def)
    then show ?thesis
      using True comparison.cmp_refl [OF FieldsComparator_comparison [OF create], of v] by (simp add: accepts_def)
  next
    case False
    then have "\<forall>j\<in>set (sort_fields c). row_field r' j = row_field r j" using row by auto
    then have "FieldsComparator_CompareTo c v r' = FieldsComparator_CompareTo c v r"
      by (intro FieldsComparator_view [OF create]) (simp add: view_def)
    then show ?thesis by (simp add: accepts_def)
  qed
qed

lemma passed_Suc:
  assumes p: "passed cfg v r flags m r' flags'" and len: "length r'' = length (pc_getters cfg)" "length flags'' = length (pc_getters cfg)"
    and same: "\<And>i. i < length (pc_getters cfg) \<Longrightarrow> i \<noteq> m \<or> sequence_field cfg m \<Longrightarrow>
      \<not> (sequence_field cfg i \<and> accepts cfg v r (the (pc_comparators cfg ! i)) \<and> m \<in> set (sort_fields (the (pc_comparators cfg ! i)))) \<Longrightarrow>
      r'' ! i = r' ! i \<and> flags'' ! i = flags' ! i"
    and copied: "\<And>i. i < length (pc_getters cfg) \<Longrightarrow> sequence_field cfg i \<Longrightarrow> accepts cfg v r (the (pc_comparators cfg ! i)) \<Longrightarrow>
      m \<in> set (sort_fields (the (pc_comparators cfg ! i))) \<Longrightarrow> r'' ! i = field_at cfg v i \<and> flags'' ! i = flags ! i"
    and here: "\<not> sequence_field cfg m \<Longrightarrow> field_update cfg v r flags m = Inr (r'' ! m, flags'' ! m)"
  shows "passed cfg v r flags (Suc m) r'' flags''"
  unfolding passed_def
proof (intro conjI allI impI len)
  fix i assume i: "i < length (pc_getters cfg)"
  have f: "field_passed cfg v r flags m i (r' ! i) (flags' ! i)" using p i by (simp add: passed_def)
  let ?c = "the (pc_comparators cfg ! i)"
  show "field_passed cfg v r flags (Suc m) i (r'' ! i) (flags'' ! i)"
  proof (cases "sequence_field cfg i")
    case seq: True
    show ?thesis
    proof (cases "accepts cfg v r ?c \<and> m \<in> set (sort_fields ?c)")
      case True
      then show ?thesis using copied [OF i seq] seq by (auto simp: field_passed_def)
    next
      case False
      then have "accepts cfg v r ?c \<and> (\<exists>k\<in>set (sort_fields ?c). k < Suc m) \<longleftrightarrow> accepts cfg v r ?c \<and> (\<exists>k\<in>set (sort_fields ?c). k < m)"
        by (auto simp: less_Suc_eq)
      then show ?thesis using f same [OF i] False seq unfolding field_passed_def by simp metis
    qed
  next
    case False
    show ?thesis
    proof (cases "i = m")
      case True
      then show ?thesis using here False by (simp add: field_passed_def)
    next
      case ne: False
      then show ?thesis using f same [OF i] False by (simp add: field_passed_def)
    qed
  qed
qed

lemma update_field_passed:
  assumes ok: "partial_ok cfg" and m: "m < length (pc_getters cfg)" and p: "passed cfg v r flags m r' flags'"
    and len: "length r = length (pc_getters cfg)"
    and v: "\<forall>i<length (pc_getters cfg). field_view (field_at cfg v i) = view v i"
  shows "if is_ok (field_update cfg v r flags m)
    then \<exists>r'' flags''. update_field cfg v (r', flags') m = Inr (r'', flags'') \<and> passed cfg v r flags (Suc m) r'' flags''
    else \<not> is_ok (update_field cfg v (r', flags') m)"
proof (cases "sequence_field cfg m")
  case True
  then obtain c where c: "pc_comparators cfg ! m = Some c" "m \<in> set (sort_fields c)" by (auto simp: sequence_field_def split: option.splits)
  note acc = accepts_passed [OF ok m c(1) p len v]
  have agg: "pc_aggregators cfg ! m = None" using ok m True by (rule partial_ok_sequence)
  have group: "pc_comparators cfg ! i = Some c" "sequence_field cfg i" if "i \<in> set (sort_fields c)" for i
    using partial_ok_group(2) [OF ok m c(1)] that by (auto simp: sequence_field_def)
  have mem: "i \<in> set (sort_fields c)" if i: "i < length (pc_getters cfg)" "sequence_field cfg i" "m \<in> set (sort_fields (the (pc_comparators cfg ! i)))" for i
  proof -
    obtain c' where c': "pc_comparators cfg ! i = Some c'" "i \<in> set (sort_fields c')"
      using i(2) by (auto simp: sequence_field_def split: option.splits)
    then show ?thesis using partial_ok_group(2) [OF ok i(1) c'(1)] i(3) c(1) by auto
  qed
  have lens: "length r' = length (pc_getters cfg)" "length flags' = length (pc_getters cfg)" using p by (auto simp: passed_def)
  show ?thesis
  proof (cases "accepts cfg v r c")
    case True
    have "update_field cfg v (r', flags') m = Inr (copy_fields cfg v (sort_fields c) r', flags')"
      using True acc c by (auto simp: update_field_def Let_def accepts_def)
    moreover have "passed cfg v r flags (Suc m) (copy_fields cfg v (sort_fields c) r') flags'"
      using p
    proof (rule passed_Suc)
      fix i assume i: "i < length (pc_getters cfg)" "sequence_field cfg i" "m \<in> set (sort_fields (the (pc_comparators cfg ! i)))"
      have "field_passed cfg v r flags m i (r' ! i) (flags' ! i)" using p i by (simp add: passed_def)
      then show "copy_fields cfg v (sort_fields c) r' ! i = field_at cfg v i \<and> flags' ! i = flags ! i"
        using i mem [OF i] lens by (auto simp: copy_fields_nth field_passed_def)
    qed (use group c True \<open>sequence_field cfg m\<close> lens in \<open>auto simp: copy_fields_nth\<close>)
    ultimately show ?thesis using True c by (simp add: field_update_def accepts_def Let_def)
  next
    case False
    have "update_field cfg v (r', flags') m = Inr (r', flags')"
      using False acc c agg by (auto simp: update_field_def Let_def accepts_def)
    moreover have "passed cfg v r flags (Suc m) r' flags'"
      using p lens
    proof (rule passed_Suc)
      fix i assume i: "i < length (pc_getters cfg)" "sequence_field cfg i" "accepts cfg v r (the (pc_comparators cfg ! i))"
        "m \<in> set (sort_fields (the (pc_comparators cfg ! i)))"
      have "pc_comparators cfg ! i = Some c" by (rule group [OF mem [OF i(1,2,4)]])
      then show "r' ! i = field_at cfg v i \<and> flags' ! i = flags ! i" using i(3) False by simp
    qed (simp_all add: \<open>sequence_field cfg m\<close>)
    ultimately show ?thesis using False c agg by (simp add: field_update_def accepts_def Let_def)
  qed
next
  case False
  have f: "r' ! m = r ! m" "flags' ! m = flags ! m" "length r' = length (pc_getters cfg)" "length flags' = length (pc_getters cfg)"
    using p m False by (auto simp: passed_def field_passed_def)
  have acc: "field_at cfg r' m = field_at cfg r m" using f m len by (intro partial_ok_getter [OF ok m]) (simp add: row_field_def)
  have id: "r'[m := r ! m] = r'" "flags'[m := flags ! m] = flags'" using list_update_id [of r' m] list_update_id [of flags' m] unfolding f(1,2) .
  have step: "update_field cfg v (r', flags') m =
      rbind (field_update cfg v r flags m) (\<lambda>a. Inr (r'[m := fst a], flags'[m := snd a]))"
  proof (cases "pc_comparators cfg ! m")
    case None
    then show ?thesis using f acc id
      by (cases "pc_aggregators cfg ! m") (simp_all add: update_field_def field_update_def set_result_def Let_def)
  next
    case (Some c)
    then have "m \<notin> set (sort_fields c)" using False by (simp add: sequence_field_def)
    then show ?thesis using f acc id Some accepts_passed [OF ok m Some p len v]
      by (cases "pc_aggregators cfg ! m") (auto simp: update_field_def field_update_def set_result_def accepts_def Let_def)
  qed
  have other: "m \<notin> set (sort_fields (the (pc_comparators cfg ! i)))" if i: "i < length (pc_getters cfg)" "sequence_field cfg i" for i
  proof
    assume m': "m \<in> set (sort_fields (the (pc_comparators cfg ! i)))"
    obtain c where c: "pc_comparators cfg ! i = Some c" using i(2) by (auto simp: sequence_field_def split: option.splits)
    then have "pc_comparators cfg ! m = Some c" using partial_ok_group(2) [OF ok i(1) c] m' by simp
    then show False using m' False c by (simp add: sequence_field_def)
  qed
  have "passed cfg v r flags (Suc m) (r'[m := fst a]) (flags'[m := snd a])" if "field_update cfg v r flags m = Inr a" for a
    using p by (rule passed_Suc) (use that f(3,4) m other False in auto)
  then show ?thesis using step by (cases "field_update cfg v r flags m") simp_all
qed

lemma update_loop:
  assumes ok: "partial_ok cfg" and len: "length r = length (pc_getters cfg)" "length flags = length (pc_getters cfg)"
    and v: "\<forall>i<length (pc_getters cfg). field_view (field_at cfg v i) = view v i" and "m \<le> length (pc_getters cfg)"
  shows "if \<forall>i<m. is_ok (field_update cfg v r flags i)
    then \<exists>r' flags'. rfold (update_field cfg v) (r, flags) [0..<m] = Inr (r', flags') \<and> passed cfg v r flags m r' flags'
    else \<not> is_ok (rfold (update_field cfg v) (r, flags) [0..<m])"
  using assms(5)
proof (induction m)
  case 0
  then show ?case using len by (simp add: passed_def field_passed_def)
next
  case (Suc m)
  note IH = Suc.IH [OF Suc_leD [OF Suc.prems]]
  show ?case
  proof (cases "\<forall>i<m. is_ok (field_update cfg v r flags i)")
    case True
    then obtain r' flags' where l: "rfold (update_field cfg v) (r, flags) [0..<m] = Inr (r', flags')" "passed cfg v r flags m r' flags'"
      using IH by auto
    have "rfold (update_field cfg v) (r, flags) [0..<Suc m] = update_field cfg v (r', flags') m" by (simp add: rfold_append l(1))
    then show ?thesis using update_field_passed [OF ok _ l(2) len(1) v] Suc.prems True by (auto simp: less_Suc_eq simp del: upt_Suc)
  next
    case False
    then have "\<not> is_ok (rfold (update_field cfg v) (r, flags) [0..<m])" using IH by auto
    then have "\<not> is_ok (rfold (update_field cfg v) (r, flags) [0..<Suc m])"
      by (cases "rfold (update_field cfg v) (r, flags) [0..<m]") (auto simp: rfold_append)
    then show ?thesis using False less_SucI by (simp only: if_False) meson
  qed
qed

lemma UpdateWithSequenceGroup_fields:
  assumes ok: "partial_ok cfg" and len: "length r = length (pc_getters cfg)" "length flags = length (pc_getters cfg)"
    and v: "\<forall>i<length (pc_getters cfg). field_view (field_at cfg v i) = view v i"
  shows "if \<forall>i<length (pc_getters cfg). is_ok (field_update cfg v r flags i)
    then \<exists>r' flags'. UpdateWithSequenceGroup cfg v (r, flags) = Inr (r', flags') \<and>
      length r' = length (pc_getters cfg) \<and> length flags' = length (pc_getters cfg) \<and>
      (\<forall>i<length (pc_getters cfg). field_update cfg v r flags i = Inr (r' ! i, flags' ! i))
    else \<not> is_ok (UpdateWithSequenceGroup cfg v (r, flags))"
proof -
  note loop = update_loop [OF ok len v order_refl]
  have fin: "field_update cfg v r flags i = Inr (r' ! i, flags' ! i)"
    if p: "passed cfg v r flags (length (pc_getters cfg)) r' flags'" and i: "i < length (pc_getters cfg)" for r' flags' i
  proof -
    have f: "field_passed cfg v r flags (length (pc_getters cfg)) i (r' ! i) (flags' ! i)" using p i by (simp add: passed_def)
    show ?thesis
    proof (cases "sequence_field cfg i")
      case True
      then obtain c where c: "pc_comparators cfg ! i = Some c" "i \<in> set (sort_fields c)"
        by (auto simp: sequence_field_def split: option.splits)
      have "pc_aggregators cfg ! i = None" using ok i True by (rule partial_ok_sequence)
      then show ?thesis using f True c i by (auto simp: field_passed_def field_update_def accepts_def Let_def)
    qed (use f i in \<open>simp add: field_passed_def\<close>)
  qed
  show ?thesis
  proof (cases "\<forall>i<length (pc_getters cfg). is_ok (field_update cfg v r flags i)")
    case True
    then obtain r' flags' where "rfold (update_field cfg v) (r, flags) [0..<length (pc_getters cfg)] = Inr (r', flags')"
      "passed cfg v r flags (length (pc_getters cfg)) r' flags'"
      using loop by auto
    then show ?thesis using True fin by (auto simp: UpdateWithSequenceGroup_def passed_def)
  next
    case False
    then show ?thesis using loop unfolding UpdateWithSequenceGroup_def by (simp only: if_False) simp
  qed
qed

lemma Partial_Add_insert:
  assumes "\<not> IsRetract (value_kind kv)" "\<not> list_all (\<lambda>c. c = None) (pc_comparators cfg)" "Partial_Add cfg s kv = Inr s'"
  shows "\<exists>r flags. UpdateWithSequenceGroup cfg (kv_value kv) (pu_row s, pu_flags s) = Inr (r, flags) \<and>
    s' = s\<lparr>pu_key := Some (kv_key kv), pu_delete_row := False, pu_seq := sequence_number kv, pu_row := r, pu_flags := flags,
      pu_meet_insert := True, pu_filled := True\<rparr>"
proof (cases "UpdateWithSequenceGroup cfg (kv_value kv) (pu_row s, pu_flags s)")
  case (Inr rf)
  then show ?thesis using assms by (cases rf) (simp add: Partial_Add_def)
qed (use assms in \<open>simp add: Partial_Add_def\<close>)

text \<open>
  \<open>greatest cfg c kvs w\<close>: among the records with a sequence, \<open>w\<close> has the greatest one, and is the last of those; none if no record has one.
\<close>

definition greatest :: "partial_config \<Rightarrow> FieldsComparator \<Rightarrow> key_value list \<Rightarrow> key_value option \<Rightarrow> bool" where
  "greatest cfg c kvs w \<longleftrightarrow> (case w of
     None \<Rightarrow> \<forall>kv\<in>set kvs. IsEmptySequenceGroup cfg (kv_value kv) c
   | Some kv \<Rightarrow> \<exists>pre post. kvs = pre @ kv # post \<and> \<not> IsEmptySequenceGroup cfg (kv_value kv) c \<and>
       (\<forall>k\<in>set pre. \<not> IsEmptySequenceGroup cfg (kv_value k) c \<longrightarrow> FieldsComparator_CompareTo c (kv_value k) (kv_value kv) \<le> 0) \<and>
       (\<forall>k\<in>set post. \<not> IsEmptySequenceGroup cfg (kv_value k) c \<longrightarrow> FieldsComparator_CompareTo c (kv_value k) (kv_value kv) < 0))"

lemma greatest_skip:
  "greatest cfg c kvs w \<Longrightarrow> IsEmptySequenceGroup cfg (kv_value kv) c \<or>
     (\<exists>g. w = Some g \<and> FieldsComparator_CompareTo c (kv_value kv) (kv_value g) < 0) \<Longrightarrow> greatest cfg c (kvs @ [kv]) w"
  by (cases w) (fastforce simp: greatest_def)+

lemma greatest_take:
  assumes "comparison (FieldsComparator_CompareTo c)" "greatest cfg c kvs w" "\<not> IsEmptySequenceGroup cfg (kv_value kv) c"
    and new: "\<And>g. w = Some g \<Longrightarrow> FieldsComparator_CompareTo c (kv_value kv) (kv_value g) \<ge> 0"
  shows "greatest cfg c (kvs @ [kv]) (Some kv)"
proof -
  have "FieldsComparator_CompareTo c (kv_value k) (kv_value kv) \<le> 0"
    if k: "k \<in> set kvs" "\<not> IsEmptySequenceGroup cfg (kv_value k) c" for k
  proof (cases w)
    case None
    then show ?thesis using assms(2) k by (simp add: greatest_def)
  next
    case (Some g)
    then obtain pre post where "kvs = pre @ g # post"
      "\<forall>k\<in>set pre. \<not> IsEmptySequenceGroup cfg (kv_value k) c \<longrightarrow> FieldsComparator_CompareTo c (kv_value k) (kv_value g) \<le> 0"
      "\<forall>k\<in>set post. \<not> IsEmptySequenceGroup cfg (kv_value k) c \<longrightarrow> FieldsComparator_CompareTo c (kv_value k) (kv_value g) < 0"
      using assms(2) by (auto simp: greatest_def)
    then have "FieldsComparator_CompareTo c (kv_value k) (kv_value g) \<le> 0"
      using k comparison.cmp_refl [OF assms(1), of "kv_value g"] by fastforce
    moreover have "FieldsComparator_CompareTo c (kv_value g) (kv_value kv) \<le> 0"
      using new [OF Some] comparison.cmp_flip_le [OF assms(1)] by blast
    ultimately show ?thesis using comparison.cmp_trans [OF assms(1)] by blast
  qed
  then show ?thesis using assms(3) by (simp add: greatest_def) (rule exI [of _ kvs]; simp)
qed

lemma compare_null_row: "\<forall>i\<in>set is. IsNullAt r i \<Longrightarrow> compare_fields asc is cs l r \<ge> 0"
  by (induction asc "is" cs l r rule: compare_fields.induct) (auto simp: Let_def)

definition group_row :: "partial_config \<Rightarrow> FieldsComparator \<Rightarrow> key_value option \<Rightarrow> row \<Rightarrow> bool" where
  "group_row cfg c w r \<longleftrightarrow> (\<forall>i<length (pc_getters cfg). pc_comparators cfg ! i = Some c \<longrightarrow> pc_aggregators cfg ! i = None \<longrightarrow>
     r ! i = (case w of None \<Rightarrow> VNull | Some g \<Rightarrow> field_at cfg (kv_value g) i))"

lemma group_row_compare:
  assumes ok: "partial_ok cfg" and i: "i < length (pc_getters cfg)" "pc_comparators cfg ! i = Some c"
    and r: "group_row cfg c w r" "length r = length (pc_getters cfg)"
    and views: "\<And>g j. w = Some g \<Longrightarrow> j < length (pc_getters cfg) \<Longrightarrow> field_view (field_at cfg (kv_value g) j) = view (kv_value g) j"
  shows "case w of None \<Rightarrow> FieldsComparator_CompareTo c v r \<ge> 0
    | Some g \<Rightarrow> FieldsComparator_CompareTo c v r = FieldsComparator_CompareTo c v (kv_value g)"
proof -
  note group = partial_ok_group [OF ok i]
  have seq: "row_field r j = (case w of None \<Rightarrow> VNull | Some g \<Rightarrow> field_at cfg (kv_value g) j)" "j < length (pc_getters cfg)"
    if "j \<in> set (sort_fields c)" for j
  proof -
    have j: "j < length (pc_getters cfg)" "pc_comparators cfg ! j = Some c" using group(2) that by auto
    moreover have "pc_aggregators cfg ! j = None" using partial_ok_sequence [OF ok j(1)] j that by (simp add: sequence_field_def)
    ultimately show "row_field r j = (case w of None \<Rightarrow> VNull | Some g \<Rightarrow> field_at cfg (kv_value g) j)" "j < length (pc_getters cfg)"
      using r by (auto simp: group_row_def row_field_def)
  qed
  show ?thesis
  proof (cases w)
    case None
    then show ?thesis using seq(1) unfolding FieldsComparator_CompareTo_def
      by (auto intro!: compare_null_row simp: IsNullAt_def IsVariantNull_def)
  next
    case (Some g)
    obtain types where "FieldsComparator_Create types (sort_fields c) True = Inr c" using group(1) by blast
    then show ?thesis using Some seq views [OF Some] by (auto intro!: FieldsComparator_view simp: view_def)
  qed
qed

lemma group_step:
  assumes ok: "partial_ok cfg" and i: "i < length (pc_getters cfg)" "pc_comparators cfg ! i = Some c"
    and r: "group_row cfg c w r" "length r = length (pc_getters cfg)"
    and views: "\<And>g j. w = Some g \<Longrightarrow> j < length (pc_getters cfg) \<Longrightarrow> field_view (field_at cfg (kv_value g) j) = view (kv_value g) j"
    and new: "\<And>j. j < length (pc_getters cfg) \<Longrightarrow> field_update cfg (kv_value kv) r flags j = Inr (r' ! j, flags' ! j)"
    and w: "greatest cfg c kvs w"
  shows "\<exists>w'. greatest cfg c (kvs @ [kv]) w' \<and> group_row cfg c w' r' \<and> (w' = w \<or> w' = Some kv)"
proof -
  note cmp = group_row_compare [OF ok i r views, of "kv_value kv"]
  have upd: "r' ! j = (if accepts cfg (kv_value kv) r c then field_at cfg (kv_value kv) j else r ! j)"
    if "j < length (pc_getters cfg)" "pc_comparators cfg ! j = Some c" "pc_aggregators cfg ! j = None" for j
    using new [OF that(1)] that by (auto simp: field_update_def accepts_def Let_def split: if_splits)
  obtain types where create: "FieldsComparator_Create types (sort_fields c) True = Inr c" using partial_ok_group(1) [OF ok i] by blast
  show ?thesis
  proof (cases "accepts cfg (kv_value kv) r c")
    case True
    have "greatest cfg c (kvs @ [kv]) (Some kv)"
      by (rule greatest_take [OF FieldsComparator_comparison [OF create] w]) (use True cmp in \<open>auto simp: accepts_def\<close>)
    then show ?thesis using True upd by (auto simp: group_row_def)
  next
    case False
    have "IsEmptySequenceGroup cfg (kv_value kv) c \<or> (\<exists>g. w = Some g \<and> FieldsComparator_CompareTo c (kv_value kv) (kv_value g) < 0)"
      using False cmp by (cases w) (auto simp: accepts_def)
    then have "greatest cfg c (kvs @ [kv]) w" by (rule greatest_skip [OF w])
    moreover have "group_row cfg c w r'" using False upd r(1) unfolding group_row_def by simp
    ultimately show ?thesis by blast
  qed
qed

lemma group_fold:
  assumes ok: "partial_ok cfg" and i: "i < length (pc_getters cfg)" "pc_comparators cfg ! i = Some c"
    and kvs: "\<forall>kv\<in>set kvs. \<not> IsRetract (value_kind kv) \<and>
      (\<forall>j<length (pc_getters cfg). field_view (field_at cfg (kv_value kv) j) = view (kv_value kv) j)"
    and fold: "rfold (Partial_Add cfg) (partial_fresh cfg) kvs = Inr s"
  shows "length (pu_row s) = length (pc_getters cfg) \<and> length (pu_flags s) = length (pc_getters cfg) \<and>
    (kvs \<noteq> [] \<longrightarrow> pu_key s = Some (kv_key (last kvs)) \<and> pu_seq s = sequence_number (last kvs) \<and> \<not> pu_delete_row s \<and> pu_meet_insert s) \<and>
    (\<exists>w. greatest cfg c kvs w \<and> group_row cfg c w (pu_row s) \<and> set_option w \<subseteq> set kvs)"
  using kvs fold
proof (induction kvs arbitrary: s rule: rev_induct)
  case Nil
  then have "pu_row s = replicate (length (pc_getters cfg)) VNull" "pu_flags s = replicate (length (pc_getters cfg)) False"
    by (auto simp: partial_fresh_def)
  then show ?case by (auto simp: greatest_def group_row_def intro!: exI [of _ None])
next
  case (snoc kv kvs)
  obtain s0 where s0: "rfold (Partial_Add cfg) (partial_fresh cfg) kvs = Inr s0" "Partial_Add cfg s0 kv = Inr s"
    using snoc.prems(2) by (auto simp: rfold_append rbind_eq_Inr)
  obtain w where w: "length (pu_row s0) = length (pc_getters cfg)" "length (pu_flags s0) = length (pc_getters cfg)"
    "greatest cfg c kvs w" "group_row cfg c w (pu_row s0)" "set_option w \<subseteq> set kvs"
    using snoc.IH [OF _ s0(1)] snoc.prems(1) by auto
  have kv: "\<not> IsRetract (value_kind kv)" "\<forall>j<length (pc_getters cfg). field_view (field_at cfg (kv_value kv) j) = view (kv_value kv) j"
    using snoc.prems(1) by auto
  have cmps: "\<not> list_all (\<lambda>c. c = None) (pc_comparators cfg)"
    using i partial_ok_length [OF ok] unfolding list_all_length by auto
  obtain r flags where r: "UpdateWithSequenceGroup cfg (kv_value kv) (pu_row s0, pu_flags s0) = Inr (r, flags)"
    "s = s0\<lparr>pu_key := Some (kv_key kv), pu_delete_row := False, pu_seq := sequence_number kv, pu_row := r, pu_flags := flags,
      pu_meet_insert := True, pu_filled := True\<rparr>"
    using Partial_Add_insert [OF kv(1) cmps s0(2)] by blast
  have f: "length r = length (pc_getters cfg)" "length flags = length (pc_getters cfg)"
    "\<And>j. j < length (pc_getters cfg) \<Longrightarrow> field_update cfg (kv_value kv) (pu_row s0) (pu_flags s0) j = Inr (r ! j, flags ! j)"
    using UpdateWithSequenceGroup_fields [OF ok w(1,2) kv(2)] r(1) by (auto split: if_splits)
  have views: "field_view (field_at cfg (kv_value g) j) = view (kv_value g) j" if "w = Some g" "j < length (pc_getters cfg)" for g j
    using that w(5) snoc.prems(1) by auto
  obtain w' where "greatest cfg c (kvs @ [kv]) w'" "group_row cfg c w' r" "w' = w \<or> w' = Some kv"
    using group_step [OF ok i w(4,1) views f(3) w(3)] by blast
  then show ?case using f r(2) w(5) by auto
qed

lemma GetFieldIndex_name: "GetFieldIndex fs x = Some j \<Longrightarrow> j < length fs \<and> fst (fs ! j) = x"
proof -
  assume "GetFieldIndex fs x = Some j"
  then have "filter (\<lambda>i. fst (fs ! i) = x) [0..<length fs] = [j]"
    unfolding GetFieldIndex_def by (auto split: list.splits)
  then have "j \<in> set (filter (\<lambda>i. fst (fs ! i) = x) [0..<length fs])" by simp
  then show ?thesis by simp
qed

lemma sequence_comparator_fields:
  assumes "sequence_comparator_of schema g = Inr c"
  shows "FieldsComparator_Create (map snd schema) (sort_fields c) True = Inr c"
    "j \<in> set (sort_fields c) \<Longrightarrow> j < length schema \<and> fst (schema ! j) \<in> set g"
proof -
  define find where "find = (\<lambda>f. case GetFieldIndex schema f of None \<Rightarrow>
      Inl (Invalid ''cannot find sequence group field {} in value schema, unexpected.'') | Some i \<Rightarrow> Inr i)"
  obtain js where js: "rmap find g = Inr js" "FieldsComparator_Create (map snd schema) js True = Inr c"
    using assms by (auto simp: sequence_comparator_of_def find_def rbind_eq_Inr)
  then have c: "sort_fields c = js" by (auto simp: FieldsComparator_Create_def rbind_eq_Inr)
  then show "FieldsComparator_Create (map snd schema) (sort_fields c) True = Inr c" using js(2) by simp
  show "j < length schema \<and> fst (schema ! j) \<in> set g" if j: "j \<in> set (sort_fields c)"
  proof -
    obtain x where "x \<in> set g" "find x = Inr j" using rmap_set [OF js(1)] j unfolding c by blast
    then show ?thesis using GetFieldIndex_name [of schema x j] by (cases "GetFieldIndex schema x") (auto simp: find_def)
  qed
qed

text \<open>Every field of a sequence is in the group of that sequence.\<close>

definition own_groups :: "seq_groups \<Rightarrow> string set \<Rightarrow> bool" where
  "own_groups groups key_set \<longleftrightarrow> (\<forall>g\<in>set (map snd groups). \<forall>x\<in>set g. map_of groups x = Some g \<and> x \<in> key_set)"

lemma Create_partial_aggregators:
  assumes "PartialUpdate_Create libs schema keys options groups key_set = Inr cfg" "i < length schema" "fst (schema ! i) \<in> key_set"
  shows "pc_aggregators cfg ! i = None"
proof -
  have "CreateFieldAggregators libs schema keys (agg_opts options) groups key_set = Inr (pc_aggregators cfg)"
    using assms(1) unfolding PartialUpdate_Create_def Let_def
    by (cases "CreateFieldAggregators libs schema keys (agg_opts options) groups key_set"; cases "CreateFieldSeqComparator schema groups";
        cases "CreateFieldGetters (map snd schema) True") (auto split: if_splits)
  then show ?thesis using assms(2,3) unfolding CreateFieldAggregators_def rmap_Inr by auto
qed

lemma Create_comparator:
  assumes "PartialUpdate_Create libs schema keys options groups key_set = Inr cfg" "i < length schema" "pc_comparators cfg ! i = Some c"
  shows "\<exists>g. map_of groups (fst (schema ! i)) = Some g \<and> sequence_comparator_of schema g = Inr c"
  using Create_partial(5) [OF assms(1,2)] assms(3) by (auto split: option.splits)

lemma Create_partial_ok:
  assumes create: "PartialUpdate_Create libs schema keys options groups key_set = Inr cfg" and own: "own_groups groups key_set"
  shows "partial_ok cfg"
proof -
  have local: "field_at cfg r i = field_at cfg r' i" if "i < length schema" "row_field r i = row_field r' i" for i r r'
    using getter_local [OF Create_partial(4) [OF create that(1)] that(2)] .
  have group: "j < length schema \<and> pc_comparators cfg ! j = Some c \<and> pc_aggregators cfg ! j = None"
    "FieldsComparator_Create (map snd schema) (sort_fields c) True = Inr c"
    if i: "i < length schema" "pc_comparators cfg ! i = Some c" and j: "j \<in> set (sort_fields c)" for i j c
  proof -
    obtain g where g: "map_of groups (fst (schema ! i)) = Some g" "sequence_comparator_of schema g = Inr c"
      using Create_comparator [OF create i] by blast
    show "FieldsComparator_Create (map snd schema) (sort_fields c) True = Inr c" by (rule sequence_comparator_fields(1) [OF g(2)])
    have j': "j < length schema" "fst (schema ! j) \<in> set g" using sequence_comparator_fields(2) [OF g(2) j] by auto
    then have "map_of groups (fst (schema ! j)) = Some g" "fst (schema ! j) \<in> key_set"
      using own map_of_SomeD [OF g(1)] unfolding own_groups_def by force+
    then show "j < length schema \<and> pc_comparators cfg ! j = Some c \<and> pc_aggregators cfg ! j = None"
      using Create_partial(5) [OF create j'(1)] Create_partial_aggregators [OF create j'(1)] g(2) j'(1) by simp
  qed
  have types: "\<exists>types. FieldsComparator_Create types (sort_fields c) True = Inr c"
    if "i < length schema" "pc_comparators cfg ! i = Some c" for i c
    using Create_comparator [OF create that] sequence_comparator_fields(1) by blast
  have agg: "pc_aggregators cfg ! i = None" if "i < length schema" "sequence_field cfg i" for i
    using that(2) group(1) [OF that(1), of _ i] unfolding sequence_field_def by (cases "pc_comparators cfg ! i") simp_all
  show ?thesis unfolding partial_ok_def Create_partial(1,2) [OF create]
    by (intro conjI allI impI ballI refl) (blast intro: agg, blast intro: local, blast intro: types, (use group(1) in blast)+)
qed

section \<open>Properties\<close>

lemma retract_rejected:
  assumes "\<not> pc_ignore_delete cfg" "\<not> pc_sequence_enabled cfg" "\<not> pc_remove_on_delete cfg" "\<exists>kv\<in>set kvs. IsRetract (value_kind kv)"
  shows "\<not> is_ok (rfold (Partial_Add cfg) s kvs)"
  using assms(4)
proof (induction kvs arbitrary: s)
  case (Cons kv kvs)
  show ?case
  proof (cases "IsRetract (value_kind kv)")
    case True
    then show ?thesis using assms(1-3) by (simp add: Partial_Add_def)
  next
    case False
    then have "\<exists>kv\<in>set kvs. IsRetract (value_kind kv)" using Cons.prems by auto
    then show ?thesis using Cons.IH by (cases "Partial_Add cfg s kv") auto
  qed
qed simp

text \<open>
  C18. Without sequence groups, merging inserts and updates always succeeds and gives, for each field, the last value that is not
  null, with the key and the sequence number of the last record; a retraction is an error unless deletes are configured to be
  ignored or to remove the record.
\<close>

theorem partial_update_last_non_null:
  assumes "PartialUpdate_Create libs schema keys options [] key_set = Inr cfg" "kvs \<noteq> []"
  shows "if \<forall>kv\<in>set kvs. \<not> IsRetract (value_kind kv)
    then \<exists>kv. merge_all (PartialUpdateMergeFunction cfg) s kvs = Inr (Some kv) \<and> value_kind kv = INSERT \<and>
      kv_key kv = kv_key (last kvs) \<and> sequence_number kv = sequence_number (last kvs) \<and>
      (\<forall>i<length schema. kv_value kv ! i = last_non_null (map (\<lambda>kv. field_at cfg (kv_value kv) i) kvs))
    else IgnoreDelete options \<or> PartialUpdateRemoveRecordOnDelete options \<or> \<not> is_ok (merge_all (PartialUpdateMergeFunction cfg) s kvs)"
proof -
  note cfg = Create_partial [OF assms(1)]
  have "\<not> is_ok (partial_spec cfg kvs)" if "\<not> IgnoreDelete options" "\<not> PartialUpdateRemoveRecordOnDelete options"
    "\<exists>kv\<in>set kvs. IsRetract (value_kind kv)"
    using retract_rejected [of cfg kvs "partial_fresh cfg"] that cfg(6-8)
    by (cases "rfold (Partial_Add cfg) (partial_fresh cfg) kvs") (auto simp: partial_spec_def)
  moreover have "\<exists>kv. partial_spec cfg kvs = Inr (Some kv) \<and> value_kind kv = INSERT \<and>
      kv_key kv = kv_key (last kvs) \<and> sequence_number kv = sequence_number (last kvs) \<and>
      (\<forall>i<length schema. kv_value kv ! i = last_non_null (map (\<lambda>kv. field_at cfg (kv_value kv) i) kvs))"
    if adds: "\<forall>kv\<in>set kvs. \<not> IsRetract (value_kind kv)"
  proof -
    have skip: "last_non_null (VNull # vs) = last_non_null vs" for vs by (simp add: last_non_null_def)
    obtain s' where "rfold (Partial_Add cfg) (partial_fresh cfg) kvs = Inr s'" "pu_key s' = Some (kv_key (last kvs))"
      "pu_seq s' = sequence_number (last kvs)" "\<not> pu_delete_row s'" "pu_meet_insert s'"
      "\<forall>i<length schema. pu_row s' ! i = last_non_null (map (\<lambda>kv. field_at cfg (kv_value kv) i) kvs)"
      using plain_inserts [OF no_groups [OF assms(1)] adds, of "partial_fresh cfg"] assms(2) cfg(1) by (auto simp: partial_fresh_def skip)
    then show ?thesis by (simp add: partial_spec_def Partial_GetResult_def)
  qed
  ultimately show ?thesis unfolding partial.merge_all_spec by auto
qed

text \<open>
  C5. The fields of a sequence group come from one record: after merging inserts and updates in any order, all fields of a group that
  have no aggregator hold the values of the record with the greatest sequence, the last one among equals, and are null if no record
  had a sequence. So a late record with an older sequence never overwrites the group.
\<close>

theorem sequence_group_greatest:
  assumes "PartialUpdate_Create libs schema keys options groups key_set = Inr cfg" "own_groups groups key_set" "kvs \<noteq> []"
    "\<forall>kv\<in>set kvs. \<not> IsRetract (value_kind kv) \<and> (\<forall>i<length schema. has_type (snd (schema ! i)) (row_field (kv_value kv) i))"
    "merge_all (PartialUpdateMergeFunction cfg) s kvs = Inr (Some kv)" "i < length schema" "pc_comparators cfg ! i = Some c"
  shows "\<exists>w. greatest cfg c kvs w \<and> value_kind kv = INSERT \<and>
    (\<forall>j<length schema. pc_comparators cfg ! j = Some c \<longrightarrow> pc_aggregators cfg ! j = None \<longrightarrow>
      kv_value kv ! j = (case w of None \<Rightarrow> VNull | Some g \<Rightarrow> view (kv_value g) j))"
proof -
  note cfg = Create_partial [OF assms(1)]
  have view: "field_at cfg (kv_value k) j = view (kv_value k) j" if "k \<in> set kvs" "j < length schema" for k j
    using getter_view [OF cfg(4) [OF that(2)]] assms(4) that by blast
  obtain s' where s': "rfold (Partial_Add cfg) (partial_fresh cfg) kvs = Inr s'" "Partial_GetResult s' = Inr (Some kv)"
    using assms(5) unfolding partial.merge_all_spec partial_spec_def rbind_eq_Inr by blast
  have typed: "\<forall>k\<in>set kvs. \<not> IsRetract (value_kind k) \<and>
      (\<forall>j<length (pc_getters cfg). field_view (field_at cfg (kv_value k) j) = view (kv_value k) j)"
    using assms(4) view cfg(1) by (simp add: view_def)
  have "i < length (pc_getters cfg)" using assms(6) cfg(1) by simp
  then have "pu_key s' = Some (kv_key (last kvs)) \<and> \<not> pu_delete_row s' \<and> pu_meet_insert s' \<and>
      (\<exists>w. greatest cfg c kvs w \<and> group_row cfg c w (pu_row s') \<and> set_option w \<subseteq> set kvs)"
    using group_fold [OF Create_partial_ok [OF assms(1,2)] _ assms(7) typed s'(1)] assms(3) by blast
  then obtain w where w: "greatest cfg c kvs w" "group_row cfg c w (pu_row s')" "set_option w \<subseteq> set kvs"
    and kv: "value_kind kv = INSERT" "kv_value kv = pu_row s'"
    using s'(2) by (auto simp: Partial_GetResult_def)
  then show ?thesis
    by (intro exI [of _ w]) (auto simp: group_row_def cfg(1) view split: option.splits)
qed

definition partial_example :: partial_options where
  "partial_example = \<lparr>agg_opts = example_options False\<lparr>GetFieldAggFunc := \<lambda>_. Inr None\<rparr>, PartialUpdateRemoveRecordOnDelete = False,
     IgnoreDelete = False, GetPartialUpdateRemoveRecordOnSequenceGroup = []\<rparr>"

abbreviation sequence_schema :: "(string \<times> arrow_type) list" where
  "sequence_schema \<equiv> [(''k'', INT32), (''s'', INT32), (''v'', INT16)]"

abbreviation example_groups :: "seq_groups \<times> string set" where
  "example_groups \<equiv> ([(''v'', [''s'']), (''s'', [''s''])], {''s''})"

lemma example_groups_parsed: "ParseSequenceGroupFields [(''s'', ''v'')] = Inr example_groups"
  by (simp add: ParseSequenceGroupFields_def parse_group_def Split_def Let_def)

lemmas create_simps = PartialUpdate_Create_def CreateFieldAggregators_def CreateFieldSeqComparator_def CreateFieldGetters_def
  CreateFieldGetter_def CreateFieldAggregator_def plain_aggregator_def sequence_comparator_of_def FieldsComparator_Create_def
  GetFieldIndex_def partial_example_def example_options_def Let_def

abbreviation partial_example_config :: "seq_groups \<times> string set \<Rightarrow> partial_config" where
  "partial_example_config gs \<equiv> projr (PartialUpdate_Create example_libs sequence_schema [''k''] partial_example (fst gs) (snd gs))"

lemma partial_example_created:
  "PartialUpdate_Create example_libs sequence_schema [''k''] partial_example [] {} = Inr (partial_example_config ([], {}))"
  "PartialUpdate_Create example_libs sequence_schema [''k''] partial_example (fst example_groups) (snd example_groups) =
     Inr (partial_example_config example_groups)"
  by (simp_all add: create_simps)

abbreviation partial_state :: partial_update where
  "partial_state \<equiv> \<lparr>pu_key = None, pu_row = [], pu_seq = 0, pu_delete_row = False, pu_meet_insert = False, pu_filled = False, pu_flags = []\<rparr>"

theorem partial_update_last_non_null_witness:
  "\<exists>kv. merge_all (PartialUpdateMergeFunction (partial_example_config ([], {}))) partial_state
      [example_kv INSERT 1 0 [VInt 7, VInt 2, VShort 20], example_kv UPDATE_AFTER 2 0 [VInt 7, VInt 1, VNull]] = Inr (Some kv) \<and>
    sequence_number kv = 2 \<and> kv_value kv ! 1 = VInt 1 \<and> kv_value kv ! 2 = VShort 20"
proof -
  let ?kvs = "[example_kv INSERT 1 0 [VInt 7, VInt 2, VShort 20], example_kv UPDATE_AFTER 2 0 [VInt 7, VInt 1, VNull]]"
  have "field_at (partial_example_config ([], {})) [VInt 7, VInt 2, VShort 20] 2 = VShort 20"
    "field_at (partial_example_config ([], {})) [VInt 7, VInt 1, VNull] 2 = VNull"
    "field_at (partial_example_config ([], {})) [VInt 7, VInt 1, VNull] 1 = VInt 1"
    "field_at (partial_example_config ([], {})) [VInt 7, VInt 2, VShort 20] 1 = VInt 2"
    by (simp_all add: create_simps field_defs row_field_def)
  then show ?thesis
    using partial_update_last_non_null [OF partial_example_created(1), of ?kvs partial_state] by (auto simp: last_non_null_def IsRetract_def)
qed

theorem sequence_group_greatest_witness:
  "\<exists>kv w. merge_all (PartialUpdateMergeFunction (partial_example_config example_groups)) partial_state
      [example_kv INSERT 1 0 [VInt 7, VInt 2, VShort 20], example_kv INSERT 2 0 [VInt 7, VInt 1, VShort 10]] = Inr (Some kv) \<and>
    greatest (partial_example_config example_groups) (the (pc_comparators (partial_example_config example_groups) ! 1))
      [example_kv INSERT 1 0 [VInt 7, VInt 2, VShort 20], example_kv INSERT 2 0 [VInt 7, VInt 1, VShort 10]] (Some w) \<and>
    kv_value kv ! 2 = view (kv_value w) 2"
proof -
  let ?cfg = "partial_example_config example_groups"
  let ?kvs = "[example_kv INSERT 1 0 [VInt 7, VInt 2, VShort 20], example_kv INSERT 2 0 [VInt 7, VInt 1, VShort 10]]"
  have c: "pc_comparators ?cfg ! 1 = Some (the (pc_comparators ?cfg ! 1))" "pc_comparators ?cfg ! 2 = Some (the (pc_comparators ?cfg ! 1))"
    "pc_aggregators ?cfg ! 2 = None" "\<not> IsEmptySequenceGroup ?cfg [VInt 7, VInt 2, VShort 20] (the (pc_comparators ?cfg ! 1))"
    by (simp_all add: create_simps IsEmptySequenceGroup_def field_defs row_field_def)
  have "\<exists>kv. merge_all (PartialUpdateMergeFunction ?cfg) partial_state ?kvs = Inr (Some kv)"
    by (simp add: merge_all_def PartialUpdateMergeFunction_def create_simps Partial_Reset_def Partial_Add_def Partial_GetResult_def
        UpdateWithSequenceGroup_def update_field_def IsEmptySequenceGroup_def field_defs row_field_def IsRetract_def set_result_def keep_flag_def
        copy_fields_def FieldsComparator_CompareTo_def FieldPrimaryKeyAgg_Agg_def upt_rec)
  then obtain kv where kv: "merge_all (PartialUpdateMergeFunction ?cfg) partial_state ?kvs = Inr (Some kv)" by blast
  have typed: "\<forall>kv\<in>set ?kvs. \<not> IsRetract (value_kind kv) \<and>
      (\<forall>i<length sequence_schema. has_type (snd (sequence_schema ! i)) (row_field (kv_value kv) i))"
    by (auto simp: row_field_def less_Suc_eq_0_disj IsRetract_def)
  have own: "own_groups (fst example_groups) (snd example_groups)" by (simp add: own_groups_def)
  obtain w where w: "greatest ?cfg (the (pc_comparators ?cfg ! 1)) ?kvs w"
    "kv_value kv ! 2 = (case w of None \<Rightarrow> VNull | Some g \<Rightarrow> view (kv_value g) 2)"
    using sequence_group_greatest [OF partial_example_created(2) own _ typed kv _ c(1)] c(2,3) by auto
  then show ?thesis using kv c(4) by (cases w) (auto simp: greatest_def)
qed

end
