(* ===== verification/Rolling_Writer.thy ===== *)
theory Rolling_Writer
  imports Data_File
begin

text \<open>
  \<open>RollingFileWriter\<close> (\<^verbatim>\<open>core/io/rolling_file_writer.h\<close>): batches of rows go to a current file, and a new
  file is begun when the current one has enough rows or bytes. The writer of a single file is an
  argument: its operations may fail, and depend on the number of the file and on the batches it was
  given. Files are numbered in the order they are opened, as their path factory numbers them. The lemmas
  show that the results are the files of consecutive groups of the batches, with no batch lost, repeated
  or moved, and where a file ends.
\<close>

section \<open>The writer\<close>

text \<open>
  The single file writer: \<open>CreateWriter\<close>, \<open>Write\<close>, \<open>ReachTargetSize\<close> (given whether to look
  at the size), \<open>Close\<close> with \<open>GetAbortExecutor\<close>, and \<open>GetResult\<close>.
\<close>

record 'a single_file_writer =
  sw_Create :: "nat \<Rightarrow> unit result"
  sw_Write :: "nat \<Rightarrow> 'a list list \<Rightarrow> 'a list \<Rightarrow> unit result"
  sw_ReachTargetSize :: "nat \<Rightarrow> 'a list list \<Rightarrow> bool \<Rightarrow> int \<Rightarrow> bool result"
  sw_Close :: "nat \<Rightarrow> 'a list list \<Rightarrow> unit result"
  sw_GetResult :: "nat \<Rightarrow> 'a list list \<Rightarrow> data_file_meta result"

record 'a rolling_writer =
  target_file_size :: int
  target_file_row_num :: int
  rw_record_count :: int
  current_file_record_count :: int
  last_need_rolling_record_count :: int
  rw_closed :: bool
  closed_writers :: "nat list"
  rw_results :: "data_file_meta list"
  current_writer :: "(nat \<times> 'a list list) option"
  path_count :: nat
  aborted_files :: "nat list"

definition CHECK_ROLLING_RECORD_CNT :: int where
  "CHECK_ROLLING_RECORD_CNT = 1000"

definition RollingFileWriter :: "int \<Rightarrow> int \<Rightarrow> nat \<Rightarrow> 'a rolling_writer" where
  "RollingFileWriter size_target row_target n =
     \<lparr>target_file_size = size_target, target_file_row_num = row_target, rw_record_count = 0, current_file_record_count = 0,
       last_need_rolling_record_count = 0, rw_closed = False, closed_writers = [], rw_results = [], current_writer = None,
       path_count = n, aborted_files = []\<rparr>"

definition SuggestCheck :: "'a rolling_writer \<Rightarrow> bool \<times> 'a rolling_writer" where
  "SuggestCheck w =
     (if rw_record_count w - last_need_rolling_record_count w \<ge> CHECK_ROLLING_RECORD_CNT
      then (True, w\<lparr>last_need_rolling_record_count := rw_record_count w\<rparr>) else (False, w))"

text \<open>The current writer is open wherever it is asked; \<open>n\<close> and \<open>bs\<close> are its number and batches.\<close>

definition NeedRollingFile ::
  "'a single_file_writer \<Rightarrow> nat \<Rightarrow> 'a list list \<Rightarrow> 'a rolling_writer \<Rightarrow> 'a rolling_writer \<times> bool result" where
  "NeedRollingFile env n bs w =
     (if current_file_record_count w \<ge> target_file_row_num w then (w, Inr True)
      else let (suggest, w1) = SuggestCheck w in (w1, sw_ReachTargetSize env n bs suggest (target_file_size w1)))"

definition OpenCurrentWriter :: "'a single_file_writer \<Rightarrow> 'a rolling_writer \<Rightarrow> 'a rolling_writer \<times> unit result" where
  "OpenCurrentWriter env w =
     (case sw_Create env (path_count w) of
        Inl e \<Rightarrow> (w\<lparr>path_count := path_count w + 1\<rparr>, Inl e)
      | Inr _ \<Rightarrow> (w\<lparr>current_writer := Some (path_count w, []), path_count := path_count w + 1\<rparr>, Inr ()))"

definition CloseCurrentWriter :: "'a single_file_writer \<Rightarrow> 'a rolling_writer \<Rightarrow> 'a rolling_writer \<times> unit result" where
  "CloseCurrentWriter env w =
     (case current_writer w of
        None \<Rightarrow> (w, Inr ())
      | Some (n, bs) \<Rightarrow>
        (case sw_Close env n bs of
           Inl e \<Rightarrow> (w, Inl e)
         | Inr _ \<Rightarrow>
             let w1 = w\<lparr>closed_writers := closed_writers w @ [n]\<rparr> in
             case sw_GetResult env n bs of
               Inl e \<Rightarrow> (w1, Inl e)
             | Inr r \<Rightarrow> (w1\<lparr>rw_results := rw_results w1 @ [r], current_writer := None, current_file_record_count := 0\<rparr>, Inr ())))"

definition Rolling_Abort :: "'a rolling_writer \<Rightarrow> 'a rolling_writer" where
  "Rolling_Abort w = w\<lparr>aborted_files := aborted_files w @
     (case current_writer w of None \<Rightarrow> [] | Some (n, _) \<Rightarrow> [n]) @ closed_writers w\<rparr>"

text \<open>\<open>Write\<close>; the scope guard aborts on every early return.\<close>

definition write_current :: "'a single_file_writer \<Rightarrow> 'a list \<Rightarrow> 'a rolling_writer \<Rightarrow> 'a rolling_writer \<times> unit result" where
  "write_current env batch w =
     (case current_writer w of
        None \<Rightarrow> (w, Inr ())
      | Some (n, bs) \<Rightarrow>
        (case sw_Write env n bs batch of
           Inl e \<Rightarrow> (w, Inl e)
         | Inr _ \<Rightarrow>
             let w1 = w\<lparr>current_writer := Some (n, bs @ [batch]), rw_record_count := rw_record_count w + int (length batch),
                 current_file_record_count := current_file_record_count w + int (length batch)\<rparr> in
             case NeedRollingFile env n (bs @ [batch]) w1 of
               (w2, Inl e) \<Rightarrow> (w2, Inl e)
             | (w2, Inr need) \<Rightarrow> if need then CloseCurrentWriter env w2 else (w2, Inr ())))"

definition Rolling_Write :: "'a single_file_writer \<Rightarrow> 'a rolling_writer \<Rightarrow> 'a list \<Rightarrow> 'a rolling_writer \<times> unit result" where
  "Rolling_Write env w batch =
     (let (w1, opened) = (if current_writer w = None then OpenCurrentWriter env w else (w, Inr ())) in
      case opened of
        Inl e \<Rightarrow> (Rolling_Abort w1, Inl e)
      | Inr _ \<Rightarrow> (case write_current env batch w1 of
          (w2, Inl e) \<Rightarrow> (Rolling_Abort w2, Inl e)
        | (w2, Inr _) \<Rightarrow> (w2, Inr ())))"

definition Rolling_Close :: "'a single_file_writer \<Rightarrow> 'a rolling_writer \<Rightarrow> 'a rolling_writer \<times> unit result" where
  "Rolling_Close env w =
     (if rw_closed w then (w, Inr ())
      else case CloseCurrentWriter env w of
        (w1, Inl e) \<Rightarrow> ((Rolling_Abort w1)\<lparr>rw_closed := True\<rparr>, Inl e)
      | (w1, Inr _) \<Rightarrow> (w1\<lparr>rw_closed := True\<rparr>, Inr ()))"

definition Rolling_GetResult :: "'a rolling_writer \<Rightarrow> data_file_meta list result" where
  "Rolling_GetResult w =
     (if \<not> rw_closed w then Inl (Invalid ''Cannot access the results unless close all writers.'') else Inr (rw_results w))"

text \<open>Several calls of \<open>Write\<close>, up to the first that fails.\<close>

fun write_batches :: "'a single_file_writer \<Rightarrow> 'a rolling_writer \<Rightarrow> 'a list list \<Rightarrow> 'a rolling_writer \<times> unit result" where
  "write_batches env w [] = (w, Inr ())"
| "write_batches env w (b # bs) =
     (case Rolling_Write env w b of
        (w1, Inl e) \<Rightarrow> (w1, Inl e)
      | (w1, Inr _) \<Rightarrow> write_batches env w1 bs)"

section \<open>What is written\<close>

text \<open>
  The invariant: the closed files hold the groups \<open>gs\<close> of the batches so far, numbered from \<open>n\<close>
  on, and the current file holds the rest \<open>cur\<close>. A closed group has reached a target with its last
  batch and the rows before that batch were fewer than the row target.
\<close>

definition rolled :: "'a single_file_writer \<Rightarrow> int \<Rightarrow> int \<Rightarrow> nat \<Rightarrow> 'a list list \<Rightarrow> bool" where
  "rolled env size_target row_target i g \<longleftrightarrow> g \<noteq> [] \<and> (row_target \<le> int (length (concat g)) \<or>
     (\<exists>s. sw_ReachTargetSize env i g s size_target = Inr True))"

definition below_rows :: "int \<Rightarrow> 'a list list \<Rightarrow> bool" where
  "below_rows row_target g \<longleftrightarrow> butlast g = [] \<or> int (length (concat (butlast g))) < row_target"

definition rolling_inv ::
  "'a single_file_writer \<Rightarrow> int \<Rightarrow> int \<Rightarrow> nat \<Rightarrow> 'a rolling_writer \<Rightarrow> 'a list list list \<Rightarrow> 'a list list \<Rightarrow> bool" where
  "rolling_inv env s r n w gs cur \<longleftrightarrow> target_file_size w = s \<and> target_file_row_num w = r \<and> \<not> rw_closed w \<and>
     closed_writers w = [n..<n + length gs] \<and> length (rw_results w) = length gs \<and> (\<forall>i < length gs. sw_GetResult env (n + i) (gs ! i) = Inr (rw_results w ! i)) \<and>
     (\<forall>i < length gs. rolled env s r (n + i) (gs ! i) \<and> below_rows r (gs ! i)) \<and>
     current_writer w = (if cur = [] then None else Some (n + length gs, cur)) \<and>
     path_count w = n + length gs + (if cur = [] then 0 else 1) \<and>
     current_file_record_count w = int (length (concat cur)) \<and> (cur = [] \<or> int (length (concat cur)) < r)"

lemma RollingFileWriter_inv: "rolling_inv env s r n (RollingFileWriter s r n) [] []"
  by (simp add: rolling_inv_def RollingFileWriter_def)

lemma SuggestCheck_frame:
  assumes "SuggestCheck w = (b, w1)"
  shows "w1 = w\<lparr>last_need_rolling_record_count := last_need_rolling_record_count w1\<rparr>"
  using assms by (auto simp: SuggestCheck_def split: if_splits)

lemma NeedRollingFile_Inr:
  assumes "NeedRollingFile env n bs w = (w1, Inr need)"
  obtains c where "w1 = w\<lparr>last_need_rolling_record_count := c\<rparr>"
    "need \<longrightarrow> target_file_row_num w \<le> current_file_record_count w \<or> (\<exists>s. sw_ReachTargetSize env n bs s (target_file_size w) = Inr True)"
    "\<not> need \<longrightarrow> current_file_record_count w < target_file_row_num w"
proof (cases "current_file_record_count w \<ge> target_file_row_num w")
  case True
  then have "w1 = w\<lparr>last_need_rolling_record_count := last_need_rolling_record_count w\<rparr>" "need"
    using assms by (simp_all add: NeedRollingFile_def)
  then show thesis using that True by blast
next
  case False
  obtain b w2 where s: "SuggestCheck w = (b, w2)" by fastforce
  note frame = SuggestCheck_frame [OF s]
  have "w1 = w2" "sw_ReachTargetSize env n bs b (target_file_size w2) = Inr need"
    using assms False s by (auto simp: NeedRollingFile_def)
  moreover have "target_file_size w2 = target_file_size w" using frame by (metis rolling_writer.ext_inject rolling_writer.surjective rolling_writer.update_convs(5))
  ultimately show thesis using that [of "last_need_rolling_record_count w2"] frame False by (cases need) auto
qed

lemma CloseCurrentWriter_inv:
  assumes "CloseCurrentWriter env w = (w', Inr ())" "current_writer w = Some (n + length gs, cur)"
    "length (rw_results w) = length gs" "\<forall>i < length gs. sw_GetResult env (n + i) (gs ! i) = Inr (rw_results w ! i)"
  obtains r where "w' = w\<lparr>closed_writers := closed_writers w @ [n + length gs], rw_results := rw_results w @ [r],
      current_writer := None, current_file_record_count := 0\<rparr>"
    "\<forall>i < length (gs @ [cur]). sw_GetResult env (n + i) ((gs @ [cur]) ! i) = Inr ((rw_results w @ [r]) ! i)"
proof -
  obtain r where r: "sw_GetResult env (n + length gs) cur = Inr r"
    "w' = w\<lparr>closed_writers := closed_writers w @ [n + length gs], rw_results := rw_results w @ [r],
      current_writer := None, current_file_record_count := 0\<rparr>"
    using assms(1,2) by (auto simp: CloseCurrentWriter_def Let_def split: sum.splits)
  have "\<forall>i < length (gs @ [cur]). sw_GetResult env (n + i) ((gs @ [cur]) ! i) = Inr ((rw_results w @ [r]) ! i)"
    using assms(3,4) r(1) by (auto simp: nth_append less_Suc_eq)
  then show thesis using that r(2) by blast
qed

text \<open>One batch goes to the end of the current file, which may then be closed.\<close>

lemma write_current_inv:
  assumes w: "target_file_size w = s" "target_file_row_num w = r" "\<not> rw_closed w" "length (rw_results w) = length gs"
      "\<forall>i < length gs. sw_GetResult env (n + i) (gs ! i) = Inr (rw_results w ! i)"
      "\<forall>i < length gs. rolled env s r (n + i) (gs ! i) \<and> below_rows r (gs ! i)"
      "current_writer w = Some (n + length gs, cur)" "path_count w = n + length gs + 1"
      "current_file_record_count w = int (length (concat cur))" "cur = [] \<or> int (length (concat cur)) < r"
      "closed_writers w = [n..<n + length gs]"
    and run: "write_current env b w = (w', Inr ())"
  shows "rolling_inv env s r n w' gs (cur @ [b]) \<or> rolling_inv env s r n w' (gs @ [cur @ [b]]) []"
proof -
  define w1 where "w1 = w\<lparr>current_writer := Some (n + length gs, cur @ [b]), rw_record_count := rw_record_count w + int (length b),
    current_file_record_count := current_file_record_count w + int (length b)\<rparr>"
  obtain w2 need where need: "NeedRollingFile env (n + length gs) (cur @ [b]) w1 = (w2, Inr need)"
    and rest: "if need then CloseCurrentWriter env w2 = (w', Inr ()) else w' = w2"
    using run w(7) by (auto simp: write_current_def Let_def w1_def [symmetric] split: sum.splits prod.splits if_splits)
  obtain c where c: "w2 = w1\<lparr>last_need_rolling_record_count := c\<rparr>"
    "need \<longrightarrow> target_file_row_num w1 \<le> current_file_record_count w1 \<or>
       (\<exists>s. sw_ReachTargetSize env (n + length gs) (cur @ [b]) s (target_file_size w1) = Inr True)"
    "\<not> need \<longrightarrow> current_file_record_count w1 < target_file_row_num w1"
    using NeedRollingFile_Inr [OF need] by metis
  show ?thesis
  proof (cases need)
    case False
    then have "rolling_inv env s r n w' gs (cur @ [b])" using rest c w by (simp add: rolling_inv_def w1_def)
    then show ?thesis ..
  next
    case True
    then have close: "CloseCurrentWriter env w2 = (w', Inr ())" using rest by simp
    have "rolled env s r (n + length gs) (cur @ [b])" using c(2) True w(1,2,9) by (simp add: rolled_def w1_def)
    moreover have "below_rows r (cur @ [b])" using w(10) by (simp add: below_rows_def)
    ultimately have all: "\<forall>i < length (gs @ [cur @ [b]]). rolled env s r (n + i) ((gs @ [cur @ [b]]) ! i) \<and> below_rows r ((gs @ [cur @ [b]]) ! i)"
      using w(6) by (auto simp: nth_append less_Suc_eq)
    obtain f where f: "w' = w2\<lparr>closed_writers := closed_writers w2 @ [n + length gs], rw_results := rw_results w2 @ [f],
        current_writer := None, current_file_record_count := 0\<rparr>"
      "\<forall>i < length (gs @ [cur @ [b]]). sw_GetResult env (n + i) ((gs @ [cur @ [b]]) ! i) = Inr ((rw_results w2 @ [f]) ! i)"
      by (rule CloseCurrentWriter_inv [OF close, of n gs "cur @ [b]"]) (use c(1) w(4,5) in \<open>simp_all add: w1_def\<close>)
    have "rw_results w' = rw_results w2 @ [f]" using f(1) by simp
    then have "rolling_inv env s r n w' (gs @ [cur @ [b]]) []"
      using all f c(1) w(1-4,8,11) unfolding rolling_inv_def by (simp add: w1_def)
    then show ?thesis ..
  qed
qed

lemma Rolling_Write_inv:
  assumes "rolling_inv env s r n w gs cur" "Rolling_Write env w b = (w', Inr ())"
  shows "rolling_inv env s r n w' gs (cur @ [b]) \<or> rolling_inv env s r n w' (gs @ [cur @ [b]]) []"
proof (cases "cur = []")
  case True
  then have "write_current env b (w\<lparr>current_writer := Some (path_count w, []), path_count := path_count w + 1\<rparr>) = (w', Inr ())"
    using assms by (auto simp: rolling_inv_def Rolling_Write_def OpenCurrentWriter_def split: sum.splits prod.splits)
  then show ?thesis
    by (rule write_current_inv [rotated 11]) (use assms(1) True in \<open>simp_all add: rolling_inv_def\<close>)
next
  case False
  then have "write_current env b w = (w', Inr ())"
    using assms by (auto simp: rolling_inv_def Rolling_Write_def split: sum.splits prod.splits)
  then show ?thesis
    by (rule write_current_inv [rotated 11]) (use assms(1) False in \<open>simp_all add: rolling_inv_def\<close>)
qed

lemma write_batches_inv:
  "rolling_inv env s r n w gs cur \<Longrightarrow> write_batches env w bs = (w', Inr ()) \<Longrightarrow>
   \<exists>gs' cur'. rolling_inv env s r n w' gs' cur' \<and> concat gs' @ cur' = concat gs @ cur @ bs"
proof (induction bs arbitrary: w gs cur)
  case (Cons b bs)
  obtain w1 where w1: "Rolling_Write env w b = (w1, Inr ())" "write_batches env w1 bs = (w', Inr ())"
    using Cons.prems(2) by (auto split: sum.splits prod.splits)
  from Rolling_Write_inv [OF Cons.prems(1) w1(1)] show ?case
    using Cons.IH [OF _ w1(2), of gs "cur @ [b]"] Cons.IH [OF _ w1(2), of "gs @ [cur @ [b]]" "[]"] by auto
qed auto

text \<open>A reader of the files: each group is one file, only the last may have been closed before its target.\<close>

definition written_groups ::
  "'a single_file_writer \<Rightarrow> int \<Rightarrow> int \<Rightarrow> nat \<Rightarrow> 'a list list list \<Rightarrow> data_file_meta list \<Rightarrow> bool" where
  "written_groups env s r n gs files \<longleftrightarrow> length files = length gs \<and> [] \<notin> set gs \<and>
     (\<forall>i < length gs. sw_GetResult env (n + i) (gs ! i) = Inr (files ! i) \<and> below_rows r (gs ! i)) \<and>
     (\<forall>i < length gs - 1. rolled env s r (n + i) (gs ! i))"

lemma Rolling_Close_groups:
  assumes "rolling_inv env s r n w gs cur" "Rolling_Close env w = (w', Inr ())"
  obtains gs' where "written_groups env s r n gs' (rw_results w')" "concat gs' = concat gs @ cur" "rw_closed w'"
    "path_count w' = n + length gs'"
proof -
  have inv: "length (rw_results w) = length gs" "\<forall>i < length gs. sw_GetResult env (n + i) (gs ! i) = Inr (rw_results w ! i)"
    "\<forall>i < length gs. rolled env s r (n + i) (gs ! i) \<and> below_rows r (gs ! i)" "\<not> rw_closed w"
    "current_writer w = (if cur = [] then None else Some (n + length gs, cur))"
    "path_count w = n + length gs + (if cur = [] then 0 else 1)" "cur = [] \<or> int (length (concat cur)) < r"
    using assms(1) by (simp_all add: rolling_inv_def)
  have ne: "[] \<notin> set gs" using inv(3) by (auto simp: rolled_def in_set_conv_nth)
  obtain w1 where w1: "CloseCurrentWriter env w = (w1, Inr ())" "w' = w1\<lparr>rw_closed := True\<rparr>"
    using assms(2) inv(4) by (auto simp: Rolling_Close_def split: sum.splits prod.splits)
  show thesis
  proof (cases "cur = []")
    case True
    then have "w1 = w" using w1(1) inv(5) by (simp add: CloseCurrentWriter_def)
    then show thesis using that [of gs] inv ne True w1(2) by (simp add: written_groups_def)
  next
    case False
    have cur: "current_writer w = Some (n + length gs, cur)" using inv(5) False by simp
    have "below_rows r cur"
    proof -
      have "length (concat (butlast cur)) \<le> length (concat cur)"
        using append_butlast_last_id [OF False] by (metis concat_append length_append le_add1)
      then show ?thesis using inv(7) False by (simp add: below_rows_def)
    qed
    then have all: "\<forall>i < length (gs @ [cur]). below_rows r ((gs @ [cur]) ! i)" "\<forall>i < length gs. rolled env s r (n + i) ((gs @ [cur]) ! i)"
      using inv(3) by (auto simp: nth_append less_Suc_eq)
    obtain f where f: "w1 = w\<lparr>closed_writers := closed_writers w @ [n + length gs], rw_results := rw_results w @ [f],
        current_writer := None, current_file_record_count := 0\<rparr>"
      "\<forall>i < length (gs @ [cur]). sw_GetResult env (n + i) ((gs @ [cur]) ! i) = Inr ((rw_results w @ [f]) ! i)"
      by (rule CloseCurrentWriter_inv [OF w1(1) cur inv(1,2)])
    have "written_groups env s r n (gs @ [cur]) (rw_results w')"
      using f all inv(1) ne False w1(2) by (simp add: written_groups_def)
    then show thesis using that [of "gs @ [cur]"] w1(2) f(1) inv(6) False by simp
  qed
qed

text \<open>A failed call aborts every file that was opened.\<close>

lemma CloseCurrentWriter_Inl:
  assumes "CloseCurrentWriter env w = (w', Inl e)"
  shows "current_writer w' = current_writer w" "set (closed_writers w) \<subseteq> set (closed_writers w')" "path_count w' = path_count w"
  using assms by (auto simp: CloseCurrentWriter_def Let_def split: option.splits sum.splits)

lemma NeedRollingFile_frame:
  assumes "NeedRollingFile env n bs w = (w1, res)"
  shows "current_writer w1 = current_writer w" "closed_writers w1 = closed_writers w" "path_count w1 = path_count w"
  using assms by (auto simp: NeedRollingFile_def SuggestCheck_def split: if_splits)

lemma write_current_Inl:
  assumes "write_current env b w = (w', Inl e)"
  shows "map_option fst (current_writer w') = map_option fst (current_writer w)" "set (closed_writers w) \<subseteq> set (closed_writers w')"
    "path_count w' = path_count w"
  using assms NeedRollingFile_frame CloseCurrentWriter_Inl
  by (fastforce simp: write_current_def Let_def split: option.splits sum.splits prod.splits if_splits)+

lemma Rolling_Write_aborts:
  assumes "rolling_inv env s r n w gs cur" "Rolling_Write env w b = (w', Inl e)"
  shows "\<forall>i \<in> {n..<path_count w'}. i \<in> set (aborted_files w') \<or> (i + 1 = path_count w' \<and> sw_Create env i = Inl e)"
proof -
  have inv: "closed_writers w = [n..<n + length gs]" "current_writer w = (if cur = [] then None else Some (n + length gs, cur))"
    "path_count w = n + length gs + (if cur = [] then 0 else 1)"
    using assms(1) by (simp_all add: rolling_inv_def)
  have aborts: "\<forall>i \<in> {n..<path_count (Rolling_Abort v)}. i \<in> set (aborted_files (Rolling_Abort v))"
    if v: "write_current env b u = (v, Inl e)" "closed_writers u = [n..<n + length gs]" "path_count u = n + length gs + 1"
      "map_option fst (current_writer u) = Some (n + length gs)" for u v
    using write_current_Inl [OF v(1)] v(2-4) by (fastforce simp: Rolling_Abort_def less_Suc_eq split: option.splits)
  show ?thesis
  proof (cases "cur = []")
    case False
    then obtain v where "write_current env b w = (v, Inl e)" "w' = Rolling_Abort v"
      using assms(2) inv(2) by (auto simp: Rolling_Write_def split: sum.splits prod.splits)
    then show ?thesis using aborts [of w v] inv False by simp
  next
    case True
    then have none: "current_writer w = None" "path_count w = n + length gs" using inv by simp_all
    show ?thesis
    proof (cases "sw_Create env (n + length gs)")
      case (Inl e')
      then show ?thesis
        using assms(2) none inv(1) by (auto simp: Rolling_Write_def OpenCurrentWriter_def Rolling_Abort_def less_Suc_eq)
    next
      case (Inr x)
      let ?u = "w\<lparr>current_writer := Some (n + length gs, []), path_count := n + length gs + 1\<rparr>"
      obtain v where "write_current env b ?u = (v, Inl e)" "w' = Rolling_Abort v"
        using assms(2) none Inr by (auto simp: Rolling_Write_def OpenCurrentWriter_def split: sum.splits prod.splits)
      then show ?thesis using aborts [of ?u v] inv(1) by simp
    qed
  qed
qed

lemma Rolling_Write_append: "write_batches env w (bs @ cs) = (case write_batches env w bs of
    (w1, Inl e) \<Rightarrow> (w1, Inl e) | (w1, Inr _) \<Rightarrow> write_batches env w1 cs)"
  by (induction bs arbitrary: w) (auto split: sum.splits prod.splits)

lemma write_batches_aborts:
  assumes "rolling_inv env s r n w gs cur" "write_batches env w bs = (w', Inl e)"
  shows "\<forall>i \<in> {n..<path_count w'}. i \<in> set (aborted_files w') \<or> (i + 1 = path_count w' \<and> sw_Create env i = Inl e)"
  using assms
proof (induction bs arbitrary: w gs cur)
  case (Cons b bs)
  obtain w1 res where step: "Rolling_Write env w b = (w1, res)" by fastforce
  show ?case
  proof (cases res)
    case (Inl e')
    then have "Rolling_Write env w b = (w', Inl e)" using Cons.prems(2) step by simp
    then show ?thesis using Rolling_Write_aborts Cons.prems(1) by blast
  next
    case (Inr u)
    then have "Rolling_Write env w b = (w1, Inr ())" "write_batches env w1 bs = (w', Inl e)" using Cons.prems(2) step by simp_all
    then show ?thesis using Cons.IH Rolling_Write_inv [OF Cons.prems(1)] by blast
  qed
qed simp

section \<open>Properties\<close>

text \<open>
  C11. When every batch is written and the rolling writer is closed, its results are the files of
  consecutive groups of the batches: together the groups are exactly the batches written, in order, and
  each file but the last had reached the row or size target, with fewer rows than the row target before
  its last batch.
\<close>

theorem rolling_writer_results:
  assumes "write_batches env (RollingFileWriter s r n) bs = (w1, Inr ())" "Rolling_Close env w1 = (w2, Inr ())"
  shows "\<exists>gs files. Rolling_GetResult w2 = Inr files \<and> concat gs = bs \<and> length files = length gs \<and>
    (\<forall>i < length gs. gs ! i \<noteq> [] \<and> sw_GetResult env (n + i) (gs ! i) = Inr (files ! i) \<and>
       (butlast (gs ! i) = [] \<or> int (length (concat (butlast (gs ! i)))) < r)) \<and>
    (\<forall>i < length gs - 1. r \<le> int (length (concat (gs ! i))) \<or> (\<exists>b. sw_ReachTargetSize env (n + i) (gs ! i) b s = Inr True))"
proof -
  obtain gs cur where inv: "rolling_inv env s r n w1 gs cur" "concat gs @ cur = bs"
    using write_batches_inv [OF RollingFileWriter_inv assms(1)] by auto
  obtain gs' where gs': "written_groups env s r n gs' (rw_results w2)" "concat gs' = concat gs @ cur" "rw_closed w2"
    using Rolling_Close_groups [OF inv(1) assms(2)] by metis
  have "\<forall>i < length gs'. gs' ! i \<noteq> []" using gs'(1) nth_mem unfolding written_groups_def by metis
  then show ?thesis
    using gs' inv(2) by (intro exI [of _ gs'] exI [of _ "rw_results w2"])
      (simp add: Rolling_GetResult_def written_groups_def below_rows_def rolled_def)
qed

text \<open>A single file writer that never fails and names its files by their number.\<close>

definition example_writer :: "nat single_file_writer" where
  "example_writer = \<lparr>sw_Create = (\<lambda>_. Inr ()), sw_Write = (\<lambda>_ _ _. Inr ()), sw_ReachTargetSize = (\<lambda>_ _ _ _. Inr False),
     sw_Close = (\<lambda>_ _. Inr ()), sw_GetResult = (\<lambda>n bs. Inr (example_file (replicate n CHR ''x'') 1 [] [] 0 (int (length (concat bs)))))\<rparr>"

theorem rolling_writer_results_witness:
  "\<exists>w1 w2 gs files. write_batches example_writer (RollingFileWriter 100 2 5) [[1], [2], [3 :: nat]] = (w1, Inr ()) \<and>
     Rolling_Close example_writer w1 = (w2, Inr ()) \<and> Rolling_GetResult w2 = Inr files \<and> concat gs = [[1], [2], [3 :: nat]] \<and>
     length files = length gs"
proof -
  obtain w1 where w1: "write_batches example_writer (RollingFileWriter 100 2 5) [[1], [2], [3 :: nat]] = (w1, Inr ())"
    by (simp add: example_writer_def RollingFileWriter_def Rolling_Write_def OpenCurrentWriter_def write_current_def NeedRollingFile_def
        SuggestCheck_def CHECK_ROLLING_RECORD_CNT_def CloseCurrentWriter_def Let_def)
  have "\<exists>w'. CloseCurrentWriter example_writer w1 = (w', Inr ())"
    by (cases "current_writer w1") (auto simp: CloseCurrentWriter_def example_writer_def Let_def)
  then obtain w2 where w2: "Rolling_Close example_writer w1 = (w2, Inr ())" by (cases "rw_closed w1") (auto simp: Rolling_Close_def)
  show ?thesis using rolling_writer_results [OF w1 w2] w1 w2 by blast
qed

text \<open>
  C24. When a write to the rolling writer fails, every file it has opened is aborted, the current one and
  those already closed: only a file whose creation is what failed is not among them.
\<close>

theorem rolling_writer_aborts:
  assumes "write_batches env (RollingFileWriter s r n) bs = (w, Inl e)" "n \<le> i" "i < path_count w"
  shows "i \<in> set (aborted_files w) \<or> (i + 1 = path_count w \<and> sw_Create env i = Inl e)"
  using write_batches_aborts [OF RollingFileWriter_inv assms(1)] assms(2,3) by simp

theorem rolling_writer_aborts_witness:
  "\<exists>w. write_batches (example_writer\<lparr>sw_Write := \<lambda>n bs b. if n = 6 then Inl (Invalid ''full'') else Inr ()\<rparr>)
       (RollingFileWriter 100 1 5) [[1], [2 :: nat]] = (w, Inl (Invalid ''full'')) \<and> {5, 6} \<subseteq> set (aborted_files w)"
proof -
  let ?env = "example_writer\<lparr>sw_Write := \<lambda>n bs b. if n = 6 then Inl (Invalid ''full'') else Inr ()\<rparr>"
  obtain w where w: "write_batches ?env (RollingFileWriter 100 1 5) [[1], [2 :: nat]] = (w, Inl (Invalid ''full''))" "path_count w = 7"
    by (simp add: example_writer_def RollingFileWriter_def Rolling_Write_def OpenCurrentWriter_def write_current_def NeedRollingFile_def
        CloseCurrentWriter_def Rolling_Abort_def Let_def)
  show ?thesis
    using rolling_writer_aborts [OF w(1), of 5] rolling_writer_aborts [OF w(1), of 6] w by (auto simp: example_writer_def)
qed

end
