(* ===== verification/Spec2Isabelle.thy ===== *)
theory Spec2Isabelle
  imports Decimal_Bytes Key_Value Ranges Grouping Data_File Levels Interval_Partition Compaction Merge_Functions Sort_Merge Field_Values Scalar_Aggregators Product_Aggregator
    String_Aggregators Nested_Aggregators Aggregate_Merge Partial_Update Rolling_Writer
begin

text \<open>
  \<^bold>\<open>A verification library for Apache Paimon C++.\<close>

  Paimon stores a table with a primary key as a log-structured merge tree. Writers sort records in memory and
  write them to data files of level 0; compaction picks files, merges the records of every key with the merge engine
  of the table, and writes the result to a deeper level, where files do not overlap; readers merge the sorted runs of
  all levels in the same way. This development models that path from the values of a field to the choice of the files,
  and the helpers for ranges of row ids and bytes that reads use. Paths below are relative to
  \<^verbatim>\<open>src/src/paimon\<close>.

  \<^bold>\<open>Conventions.\<close> A \<open>Status\<close> or \<open>Result<T>\<close> is a sum type, \<open>Inl\<close> an error with its message and \<open>Inr\<close> a value; the
  macros that return early are \<open>rbind\<close>. A class is a record of its fields, a method a function from the record to the new
  record and the result. A virtual class is a record of its methods: \<open>merge_function_ops\<close> for \<open>MergeFunction\<close>, \<open>wrapper_ops\<close> for
  \<open>MergeFunctionWrapper\<close>, \<open>single_file_writer\<close> for \<open>SingleFileWriter\<close>; the contract that clients rely on is a locale,
  and every locale is interpreted on the classes of the program. Definitions keep the names of the source; a loop is a
  recursive function next to the operation it belongs to. Integers that the code computes on at their width, field values
  and hashes, are words; \<open>int64_t\<close> row ids and weights are integers whose sums pass through \<open>wrap64\<close>; sizes and
  sequence numbers of files are unbounded integers, on which no theorem depends but the one on the total size of the levels.

  \<^bold>\<open>Theories.\<close>

  \<^item> \<open>Prelude\<close>: errors, \<open>std::sort\<close> and \<open>std::stable_sort\<close> as a stable insertion sort, \<open>std::priority_queue\<close> as the
    choice of a greatest element, 64-bit wrap around, the locale \<open>comparison\<close> of three-way comparisons.
  \<^item> \<open>Soft_Float\<close>: \<open>float\<close> and \<open>double\<close> with rounding, signed zeros, infinities and NaNs with their bits, and
    \<open>CompareFloatingPoint\<close> of \<^verbatim>\<open>common/utils/fields_comparator.h\<close>.
  \<^item> \<open>Decimal\<close>, \<open>Decimal_Bytes\<close>: \<^verbatim>\<open>common/data/decimal.cpp\<close>. The comparison of values of different scales is exact;
    bytes are read back.
  \<^item> \<open>Key_Value\<close>: row kinds, field values, rows and records (\<^verbatim>\<open>common/types/row_kind.h\<close>, \<^verbatim>\<open>common/data\<close>,
    \<^verbatim>\<open>core/key_value.h\<close>) and \<open>FieldsComparator\<close>, a total preorder for every schema, which interprets the locale
    \<open>key_comparator\<close>; row kinds are read back from their byte and string.
  \<^item> \<open>Ranges\<close>, \<open>Grouping\<close>: \<^verbatim>\<open>common/utils/range.cpp\<close>, \<^verbatim>\<open>row_range_index.cpp\<close>, \<^verbatim>\<open>range_helper.h\<close>,
    \<^verbatim>\<open>bin_packing.h\<close> and \<^verbatim>\<open>byte_range_combiner.cpp\<close>: set operations, binary search, grouping, packing and coalescing against
    their set-theoretic meaning.
  \<^item> \<open>Data_File\<close>: \<^verbatim>\<open>core/io/data_file_meta.cpp\<close>, with the selection of rows by row ids.
  \<^item> \<open>Levels\<close>: \<^verbatim>\<open>core/mergetree/levels.cpp\<close> and \<^verbatim>\<open>sorted_run.h\<close>. Creation and update keep the invariant \<open>levels_ok\<close>: no file
    twice, level 0 in the order of its set, each deeper level a run of files with disjoint key intervals.
  \<^item> \<open>Interval_Partition\<close>: \<^verbatim>\<open>core/mergetree/compact/interval_partition.cpp\<close>. Sections have disjoint key intervals, nothing is
    lost, and a section is packed into as few runs as possible.
  \<^item> \<open>Compaction\<close>: \<^verbatim>\<open>core/compact/compact_unit.h\<close> and the strategies of \<^verbatim>\<open>core/mergetree/compact\<close>. Whatever is picked is a
    prefix of the runs and covers level 0; a forced strategy picks level 0 within its interval of calls.
  \<^item> \<open>Merge_Functions\<close>: \<open>MergeFunction\<close> as the locale \<open>merge_function\<close>, with deduplication, first row and lookup, the reducer
    and the wrappers that produce a changelog, whose replay gives the merged record.
  \<^item> \<open>Sort_Merge\<close>: \<open>SortMergeReaderWithMinHeap\<close>. Reading ends and returns one merged record per key, in key order.
  \<^item> \<open>Field_Values\<close>: typed getters, equality and hash of values, the locale \<open>value_equality\<close>.
  \<^item> \<open>Scalar_Aggregators\<close>, \<open>Product_Aggregator\<close>, \<open>String_Aggregators\<close>, \<open>Nested_Aggregators\<close>: the aggregators of
    \<^verbatim>\<open>core/mergetree/compact/aggregate\<close>.
  \<^item> \<open>Aggregate_Merge\<close>, \<open>Partial_Update\<close>: the two engines over fields, each shown to act field by field and to interpret
    \<open>merge_function\<close>.
  \<^item> \<open>Rolling_Writer\<close>: \<^verbatim>\<open>core/io/rolling_file_writer.h\<close>. No batch is lost or moved, files are closed at their target, and
    a failed write aborts every file that was opened.

  \<^bold>\<open>How the parts interact.\<close> The comparators of \<open>Key_Value\<close> discharge the contract under which \<open>Levels\<close>, \<open>Interval_Partition\<close>
  and \<open>Sort_Merge\<close> are proved. The merge functions, the two engines and their lookup variants are instances of
  \<open>merge_function\<close>; the reducer turns one into a \<open>group_merge\<close>, and a \<open>merge_order\<close> with a \<open>group_merge\<close> is a \<open>sort_merge\<close>,
  which is what the reader needs. A pick of \<open>Compaction\<close> consists of runs of \<open>Levels\<close>, and its files are what
  \<open>Interval_Partition\<close> splits.

  \<^bold>\<open>Parameters.\<close> Code outside the repository is an argument with its documented behaviour as a hypothesis: the 256-bit decimals
  of arrow (\<open>decimal256_behaviour\<close>), the hash functions of the standard library, the sketch libraries, the clock and the local
  hour, the writer of one file. The row serializer of \<open>CloneKeyValue\<close> is an argument that the replay theorems assume to copy rows.

  \<^bold>\<open>Bounds and fuel.\<close> The reader loops of \<open>Sort_Merge\<close> take fuel, since they end only if the readers do; the theorem
  on the reader states how much is enough, twice \<open>work\<close>, a measure of the unread records and batches, and two more. Every other loop is a total
  function. Signed overflow is undefined in C++; where it can occur the model wraps, and the theorems on ranges, selections and packing assume
  bounds under which it does not (\<open>range_fits\<close>, \<open>packable\<close>); \<open>merge_at_int64_max\<close> and \<open>exclude_at_int64_max\<close> show what happens
  otherwise. The NaN that a floating point operation returns is the machine's choice; the model follows x86-64.

  \<^bold>\<open>Not modelled.\<close> File formats, file systems, catalogs, snapshots, manifests, commits, scans, indexes and options are input and
  output or parsing, and so are the tasks, rewriters and managers that run a compaction; the binary row layout, arrow
  arrays, memory pools, caches and threads are representations that rows as lists of values abstract from; the loser
  tree is an alternative to the modelled heap. \<open>GetDecimal\<close> follows the columnar row, which imposes the precision and scale of the schema.
\<close>

end
